(* ===== verification/Prelude.thy ===== *)
theory Prelude
  imports "HOL-Library.AList" "HOL-Library.Word"
begin

text \<open>
  The Go language and standard library as far as the program uses them.  A Go \<open>string\<close>
  and a \<open>[]byte\<close> are byte sequences, so both are HOL strings (a \<open>char\<close> is one byte).
  An \<open>int64\<close> is a 64-bit word read with \<open>sint\<close>.  A Go \<open>map\<close> is an association list
  with distinct keys: the order of the list stands for the order in which \<open>range\<close> happens
  to visit the map, which the language leaves open, so every theorem over all lists is a
  theorem over all iteration orders.  A map used as a set (\<open>map[string]bool\<close>) that is never
  ranged over is a HOL set.  A Go \<open>error\<close> is a message.

  Case conversion, \<open>TrimSpace\<close> and \<open>EqualFold\<close> are written out for ASCII, which Go's
  library handles on a separate path too; for a string with a byte above 127 they are the
  Unicode tables of the library, which are the fields of \<open>gotext\<close>.
\<close>

type_synonym error = string
type_synonym 'a result = "string + 'a"
type_synonym int64 = "64 word"
type_synonym ('k, 'v) gomap = "('k \<times> 'v) list"

named_theorems go_simps \<open>unfolding rules for the Go library functions\<close>
named_theorems store_simps \<open>characteristic equations of the store operations\<close>

section \<open>Maps\<close>

definition mget :: "('k, 'v) gomap \<Rightarrow> 'k \<Rightarrow> 'v option" where
  "mget m k = map_of m k"

definition mset_key :: "'k \<Rightarrow> 'v \<Rightarrow> ('k, 'v) gomap \<Rightarrow> ('k, 'v) gomap" where
  "mset_key k v m = AList.update k v m"

definition mdelete :: "'k \<Rightarrow> ('k, 'v) gomap \<Rightarrow> ('k, 'v) gomap" where
  "mdelete k m = AList.delete k m"

definition is_gomap :: "('k, 'v) gomap \<Rightarrow> bool" where
  "is_gomap m \<longleftrightarrow> distinct (map fst m)"

lemma mget_Nil [simp]: "mget [] k = None"
  by (simp add: mget_def)

lemma mget_mset_key [simp]: "mget (mset_key k v m) k' = (if k' = k then Some v else mget m k')"
  by (simp add: mget_def mset_key_def update_conv')

lemma mget_mdelete [simp]: "mget (mdelete k m) k' = (if k' = k then None else mget m k')"
  by (simp add: mget_def mdelete_def delete_conv')

lemma is_gomap_Nil [simp]: "is_gomap []"
  by (simp add: is_gomap_def)

lemma is_gomap_mset_key [simp]: "is_gomap m \<Longrightarrow> is_gomap (mset_key k v m)"
  by (simp add: is_gomap_def mset_key_def distinct_update)

lemma is_gomap_mdelete [simp]: "is_gomap m \<Longrightarrow> is_gomap (mdelete k m)"
  by (simp add: is_gomap_def mdelete_def distinct_delete)

lemma fst_set_mset_key [simp]: "fst ` set (mset_key k v m) = insert k (fst ` set m)"
  by (simp add: mset_key_def dom_update)

lemma mget_None_iff: "mget m k = None \<longleftrightarrow> k \<notin> fst ` set m"
  by (simp add: mget_def map_of_eq_None_iff)

lemma mget_Some_iff: "is_gomap m \<Longrightarrow> mget m k = Some v \<longleftrightarrow> (k, v) \<in> set m"
  by (simp add: is_gomap_def mget_def)

lemma mget_SomeD: "mget m k = Some v \<Longrightarrow> (k, v) \<in> set m"
  by (simp add: mget_def map_of_SomeD)

lemma mget_map_val: "mget (map (\<lambda>(k, v). (k, f k v)) m) k = map_option (f k) (mget m k)"
  by (induction m) (auto simp: mget_def)

lemma is_gomap_map_val [simp]: "is_gomap (map (\<lambda>(k, v). (k, f k v)) m) = is_gomap m"
proof -
  have "map fst (map (\<lambda>(k, v). (k, f k v)) m) = map fst m" by (induction m) auto
  then show ?thesis by (simp only: is_gomap_def)
qed

text \<open>Insertion into a Go map used as a set that is ranged over.\<close>

definition set_add :: "'a \<Rightarrow> 'a list \<Rightarrow> 'a list" where
  "set_add x xs = (if x \<in> set xs then xs else xs @ [x])"

lemma set_set_add [simp]: "set (set_add x xs) = insert x (set xs)"
  by (auto simp: set_add_def)

lemma distinct_set_add [simp]: "distinct (set_add x xs) = distinct xs"
  by (auto simp: set_add_def)

section \<open>Results\<close>

text \<open>\<open>v, _ := f()\<close>: the error is dropped, and the value next to an error is \<open>nil\<close>.\<close>

fun drop_err :: "'e + 'a option \<Rightarrow> 'a option" where
  "drop_err (Inl e) = None"
| "drop_err (Inr v) = v"

section \<open>Package strings\<close>

definition byte :: "char \<Rightarrow> nat" where
  "byte c = of_char c"

lemma byte_less [simp]: "byte c < 256"
  by (simp add: byte_def)

lemma byte_inject [simp]: "byte c = byte d \<longleftrightarrow> c = d"
  by (simp add: byte_def)

lemma byte_char_of [simp]: "byte (char_of (n :: nat)) = n mod 256"
  by (simp add: byte_def)

lemma char_of_byte [simp]: "char_of (byte c) = c"
  by (simp add: byte_def)

definition ascii :: "string \<Rightarrow> bool" where
  "ascii s \<longleftrightarrow> list_all (\<lambda>c. byte c < 128) s"

record gotext =
  uToUpper :: "string \<Rightarrow> string"
  uToLower :: "string \<Rightarrow> string"
  uTrimSpace :: "string \<Rightarrow> string"
  uEqualFold :: "string \<Rightarrow> string \<Rightarrow> bool"

definition upper_char :: "char \<Rightarrow> char" where
  "upper_char c = (if 97 \<le> byte c \<and> byte c \<le> 122 then char_of (byte c - 32) else c)"

definition lower_char :: "char \<Rightarrow> char" where
  "lower_char c = (if 65 \<le> byte c \<and> byte c \<le> 90 then char_of (byte c + 32) else c)"

definition ToUpper :: "'a gotext_scheme \<Rightarrow> string \<Rightarrow> string" where
  "ToUpper u s = (if ascii s then map upper_char s else uToUpper u s)"

definition ToLower :: "'a gotext_scheme \<Rightarrow> string \<Rightarrow> string" where
  "ToLower u s = (if ascii s then map lower_char s else uToLower u s)"

definition EqualFold :: "'a gotext_scheme \<Rightarrow> string \<Rightarrow> string \<Rightarrow> bool" where
  "EqualFold u s t =
     (if ascii s \<and> ascii t then map lower_char s = map lower_char t else uEqualFold u s t)"

definition space_char :: "char \<Rightarrow> bool" where
  "space_char c \<longleftrightarrow> byte c \<in> {9, 10, 11, 12, 13, 32}"

definition TrimSpace :: "'a gotext_scheme \<Rightarrow> string \<Rightarrow> string" where
  "TrimSpace u s =
     (if ascii s then rev (dropWhile space_char (rev (dropWhile space_char s))) else uTrimSpace u s)"

text \<open>\<open>strings.TrimRight(s, "/")\<close>.\<close>

definition TrimRightSlash :: "string \<Rightarrow> string" where
  "TrimRightSlash s = rev (dropWhile (\<lambda>c. c = CHR ''/'') (rev s))"

fun HasPrefix :: "string \<Rightarrow> string \<Rightarrow> bool" where
  "HasPrefix s [] = True"
| "HasPrefix [] (p # ps) = False"
| "HasPrefix (c # s) (p # ps) = (c = p \<and> HasPrefix s ps)"

fun Contains :: "string \<Rightarrow> string \<Rightarrow> bool" where
  "Contains [] sub = HasPrefix [] sub"
| "Contains (c # s) sub = (HasPrefix (c # s) sub \<or> Contains s sub)"

lemma HasPrefix_iff: "HasPrefix s p \<longleftrightarrow> (\<exists>t. s = p @ t)"
  by (induction s p rule: HasPrefix.induct) auto

lemma Contains_iff: "Contains s sub \<longleftrightarrow> (\<exists>pre post. s = pre @ sub @ post)"
proof (induction s)
  case Nil
  then show ?case by (auto simp: HasPrefix_iff)
next
  case (Cons c s)
  show ?case
  proof
    assume "Contains (c # s) sub"
    then consider t where "c # s = sub @ t" | pre post where "s = pre @ sub @ post"
      using Cons by (auto simp: HasPrefix_iff)
    then show "\<exists>pre post. c # s = pre @ sub @ post"
      by cases (metis append_Nil, metis append_Cons)
  next
    assume "\<exists>pre post. c # s = pre @ sub @ post"
    then obtain pre post where "c # s = pre @ sub @ post" by blast
    then consider "c # s = sub @ post" | pre' where "s = pre' @ sub @ post"
      by (cases pre) auto
    then show "Contains (c # s) sub"
    proof cases
      case 1
      then have "HasPrefix (c # s) sub" unfolding HasPrefix_iff by blast
      then show ?thesis by simp
    next
      case 2
      then show ?thesis using Cons by auto
    qed
  qed
qed

text \<open>\<open>strings.Split\<close> at a separator of one byte: always at least one piece.\<close>

fun Split :: "char \<Rightarrow> string \<Rightarrow> string list" where
  "Split sep [] = [[]]"
| "Split sep (c # s) =
     (if c = sep then [] # Split sep s
      else (case Split sep s of [] \<Rightarrow> [[c]] | p # ps \<Rightarrow> (c # p) # ps))"

lemma ascii_append [simp]: "ascii (s @ t) \<longleftrightarrow> ascii s \<and> ascii t"
  by (simp add: ascii_def)

lemma upper_char_idem [simp]: "upper_char (upper_char c) = upper_char c"
  by (auto simp: upper_char_def)

lemma byte_upper_char: "byte c < 128 \<Longrightarrow> byte (upper_char c) < 128"
  by (auto simp: upper_char_def)

lemma ascii_map_upper [simp]: "ascii s \<Longrightarrow> ascii (map upper_char s)"
  by (auto simp: ascii_def list_all_iff byte_upper_char)

lemma ToUpper_idem: "ascii s \<Longrightarrow> ToUpper u (ToUpper u s) = ToUpper u s"
  by (simp add: ToUpper_def)

lemma TrimRightSlash_idem [simp]: "TrimRightSlash (TrimRightSlash s) = TrimRightSlash s"
  by (simp add: TrimRightSlash_def)

section \<open>Package fmt\<close>

text \<open>\<open>fmt.Sprintf("%d", n)\<close> and \<open>fmt.Sprintf("%x", bytes)\<close>.\<close>

definition digit_char :: "nat \<Rightarrow> char" where
  "digit_char d = char_of (48 + d)"

fun dec_digits :: "nat \<Rightarrow> string" where
  "dec_digits n = (if n < 10 then [digit_char n] else dec_digits (n div 10) @ [digit_char (n mod 10)])"

declare dec_digits.simps [simp del]

definition fmt_d :: "int \<Rightarrow> string" where
  "fmt_d n = (if n < 0 then CHR ''-'' # dec_digits (nat (- n)) else dec_digits (nat n))"

definition hex_char :: "nat \<Rightarrow> char" where
  "hex_char d = (if d < 10 then char_of (48 + d) else char_of (87 + d))"

definition fmt_x :: "string \<Rightarrow> string" where
  "fmt_x bs = concat (map (\<lambda>c. [hex_char (byte c div 16), hex_char (byte c mod 16)]) bs)"

text \<open>Reading the digits back, to see that printing loses nothing.\<close>

definition undec :: "string \<Rightarrow> nat" where
  "undec s = foldl (\<lambda>n c. 10 * n + (byte c - 48)) 0 s"

lemma undec_dec_digits [simp]: "undec (dec_digits n) = n"
proof (induction n rule: dec_digits.induct)
  case (1 n)
  then show ?case
    by (auto simp: dec_digits.simps [of n] undec_def digit_char_def)
qed

lemma dec_digits_chars: "c \<in> set (dec_digits n) \<Longrightarrow> 48 \<le> byte c \<and> byte c \<le> 57"
proof (induction n rule: dec_digits.induct)
  case (1 n)
  then show ?case
    by (auto simp: dec_digits.simps [of n] digit_char_def split: if_splits)
qed

lemma dec_digits_nonempty [simp]: "dec_digits n \<noteq> []"
  by (subst dec_digits.simps) simp

lemma fmt_d_chars: "c \<in> set (fmt_d n) \<Longrightarrow> 45 \<le> byte c \<and> byte c \<le> 57"
  by (auto simp: fmt_d_def byte_def dest!: dec_digits_chars split: if_splits)

lemma dec_digits_inject: "dec_digits m = dec_digits n \<longleftrightarrow> m = n"
  by (metis undec_dec_digits)

lemma dec_digits_not_minus: "dec_digits n \<noteq> CHR ''-'' # s"
proof
  assume "dec_digits n = CHR ''-'' # s"
  then have "CHR ''-'' \<in> set (dec_digits n)" by simp
  from dec_digits_chars [OF this] show False by (simp add: byte_def)
qed

lemma fmt_d_inject: "fmt_d m = fmt_d n \<longleftrightarrow> m = n"
  using dec_digits_not_minus
  by (auto simp: fmt_d_def dec_digits_inject dest: sym)

lemma hex_char_inject: "d < 16 \<Longrightarrow> e < 16 \<Longrightarrow> hex_char d = hex_char e \<longleftrightarrow> d = e"
proof -
  assume "d < 16" "e < 16"
  moreover from this have "byte (hex_char d) = byte (hex_char e) \<longleftrightarrow> d = e"
    by (auto simp: hex_char_def)
  ultimately show ?thesis by simp
qed

lemma fmt_x_Nil [simp]: "fmt_x [] = []"
  by (simp add: fmt_x_def)

lemma fmt_x_Cons [simp]:
  "fmt_x (c # bs) = hex_char (byte c div 16) # hex_char (byte c mod 16) # fmt_x bs"
  by (simp add: fmt_x_def)

lemma length_fmt_x [simp]: "length (fmt_x bs) = 2 * length bs"
  by (induction bs) auto

lemma nibble_inject: "(a :: nat) div 16 = b div 16 \<Longrightarrow> a mod 16 = b mod 16 \<Longrightarrow> a = b"
  by (metis div_mult_mod_eq)

lemma fmt_x_inject: "fmt_x bs = fmt_x cs \<longleftrightarrow> bs = cs"
proof (induction bs arbitrary: cs)
  case Nil
  then show ?case by (cases cs) auto
next
  case (Cons b bs)
  show ?case
  proof (cases cs)
    case (Cons c cs')
    have "byte b div 16 < 16" "byte c div 16 < 16"
      by (simp_all add: less_mult_imp_div_less)
    then show ?thesis
      using Cons.IH [of cs'] Cons
      by (auto simp: hex_char_inject dest: nibble_inject)
  qed simp
qed

definition hex_upper :: "char \<Rightarrow> bool" where
  "hex_upper c \<longleftrightarrow> (48 \<le> byte c \<and> byte c \<le> 57) \<or> (65 \<le> byte c \<and> byte c \<le> 70)"

lemma upper_hex_char: "d < 16 \<Longrightarrow> hex_upper (upper_char (hex_char d))"
  by (auto simp: hex_upper_def upper_char_def hex_char_def)

lemma upper_hex_char_inject:
  "d < 16 \<Longrightarrow> e < 16 \<Longrightarrow> upper_char (hex_char d) = upper_char (hex_char e) \<longleftrightarrow> d = e"
proof -
  assume "d < 16" "e < 16"
  then have "byte (upper_char (hex_char d)) = byte (upper_char (hex_char e)) \<longleftrightarrow> d = e"
    by (auto simp: hex_char_def upper_char_def)
  then show ?thesis by simp
qed

lemma upper_fmt_x_chars: "c \<in> set (map upper_char (fmt_x bs)) \<Longrightarrow> hex_upper c"
proof (induction bs)
  case (Cons b bs)
  have "byte b div 16 < 16" by (simp add: less_mult_imp_div_less)
  with Cons show ?case by (auto simp: upper_hex_char)
qed simp

lemma upper_fmt_x_inject: "map upper_char (fmt_x bs) = map upper_char (fmt_x cs) \<longleftrightarrow> bs = cs"
proof (induction bs arbitrary: cs)
  case Nil
  then show ?case by (cases cs) auto
next
  case (Cons b bs)
  show ?case
  proof (cases cs)
    case (Cons c cs')
    have "byte b div 16 < 16" "byte c div 16 < 16"
      by (simp_all add: less_mult_imp_div_less)
    then show ?thesis
      using Cons.IH [of cs'] Cons
      by (auto simp: upper_hex_char_inject dest: nibble_inject)
  qed simp
qed

lemma ascii_fmt_x [simp]: "ascii (fmt_x bs)"
proof (induction bs)
  case (Cons b bs)
  have "byte b div 16 < 16" by (simp add: less_mult_imp_div_less)
  moreover have "d < 16 \<Longrightarrow> byte (hex_char d) < 128" for d
    by (auto simp: hex_char_def)
  ultimately show ?case using Cons by (auto simp: ascii_def)
qed (simp add: ascii_def)

section \<open>Joining fields with a null byte\<close>

text \<open>
  \<open>joinFields\<close> of the package \<open>chain\<close> and \<open>joinNull\<close> of the package \<open>gpg\<close> are the same
  loop; \<open>join_from i\<close> is the loop from index \<open>i\<close> on.
\<close>

fun join_from :: "nat \<Rightarrow> string \<Rightarrow> string list \<Rightarrow> string" where
  "join_from i buf [] = buf"
| "join_from i buf (p # ps) =
     join_from (Suc i) ((if i > 0 then buf @ [CHR 0x00] else buf) @ p) ps"

definition no_null :: "string \<Rightarrow> bool" where
  "no_null s \<longleftrightarrow> CHR 0x00 \<notin> set s"

text \<open>The specification of the loop: the fields with one null byte between them.\<close>

fun nulls :: "string list \<Rightarrow> string" where
  "nulls [] = []"
| "nulls [p] = p"
| "nulls (p # q # ps) = p @ CHR 0x00 # nulls (q # ps)"

lemma join_from_Suc: "join_from (Suc i) buf ps = buf @ concat (map (\<lambda>p. CHR 0x00 # p) ps)"
  by (induction ps arbitrary: i buf) auto

lemma nulls_Cons: "nulls (p # ps) = p @ concat (map (\<lambda>p. CHR 0x00 # p) ps)"
  by (induction ps arbitrary: p) auto

lemma join_from_0: "join_from 0 [] ps = nulls ps"
  by (cases ps) (auto simp: join_from_Suc nulls_Cons)

lemma append_null_inject:
  assumes "no_null p" and "no_null q"
  shows "p @ CHR 0x00 # s = q @ CHR 0x00 # t \<longleftrightarrow> p = q \<and> s = t"
  using assms
proof (induction p arbitrary: q)
  case Nil
  then show ?case by (cases q) (auto simp: no_null_def)
next
  case (Cons c p)
  then show ?case by (cases q) (auto simp: no_null_def)
qed

lemma no_null_has_no_null: "no_null p \<Longrightarrow> p \<noteq> q @ CHR 0x00 # s"
  by (auto simp: no_null_def)

lemma nulls_inject:
  assumes "list_all no_null ps" and "list_all no_null qs" and "ps \<noteq> []" and "qs \<noteq> []"
  shows "nulls ps = nulls qs \<longleftrightarrow> ps = qs"
  using assms
proof (induction ps arbitrary: qs rule: nulls.induct)
  case 1
  then show ?case by simp
next
  case (2 p)
  then show ?case
    by (cases qs rule: nulls.cases) (auto dest: no_null_has_no_null)
next
  case (3 p p' ps)
  show ?case
  proof (cases qs rule: nulls.cases)
    case (2 q)
    with "3.prems" have "no_null q" by simp
    then have "nulls (p # p' # ps) \<noteq> nulls qs"
      using 2 no_null_has_no_null [of q p] by auto
    with 2 show ?thesis by auto
  next
    case (3 q q' qs')
    then show ?thesis
      using "3.prems" "3.IH" [of "q' # qs'"] by (auto simp: append_null_inject)
  qed (use "3.prems" in simp)
qed

lemma no_null_hex: "(\<And>c. c \<in> set s \<Longrightarrow> hex_upper c) \<Longrightarrow> no_null s"
  by (force simp: no_null_def hex_upper_def byte_def)

lemma no_null_fmt_d [simp]: "no_null (fmt_d n)"
proof -
  have "CHR 0x00 \<in> set (fmt_d n) \<Longrightarrow> False" by (drule fmt_d_chars) (simp add: byte_def)
  then show ?thesis by (auto simp: no_null_def)
qed

section \<open>Time\<close>

text \<open>Times and durations are numbers of nanoseconds, as in \<open>time.Duration\<close>.\<close>

definition second :: int where
  "second = 1000000000"

definition Unix :: "int \<Rightarrow> 64 word" where
  "Unix now = word_of_int (now div second)"

section \<open>UTF-8\<close>

text \<open>
  What \<open>encoding/json\<close> makes of a string: a byte that starts no valid UTF-8 sequence becomes
  U+FFFD.
\<close>

definition cont_byte :: "char \<Rightarrow> bool" where
  "cont_byte c \<longleftrightarrow> 128 \<le> byte c \<and> byte c \<le> 191"

text \<open>The length of the UTF-8 sequence a string starts with, 0 when it is none.\<close>

fun rune_len :: "string \<Rightarrow> nat" where
  "rune_len [] = 0"
| "rune_len (a # r) =
     (if byte a < 128 then 1
      else (case r of
        [] \<Rightarrow> 0
      | b # r' \<Rightarrow>
          if 194 \<le> byte a \<and> byte a \<le> 223 then (if cont_byte b then 2 else 0)
          else (case r' of
            [] \<Rightarrow> 0
          | c # r'' \<Rightarrow>
              if 224 \<le> byte a \<and> byte a \<le> 239 then
                (if cont_byte b \<and> cont_byte c \<and> (byte a = 224 \<longrightarrow> 160 \<le> byte b) \<and>
                    (byte a = 237 \<longrightarrow> byte b \<le> 159) then 3 else 0)
              else (case r'' of
                [] \<Rightarrow> 0
              | d # _ \<Rightarrow>
                  if 240 \<le> byte a \<and> byte a \<le> 244 \<and> cont_byte b \<and> cont_byte c \<and> cont_byte d \<and>
                    (byte a = 240 \<longrightarrow> 144 \<le> byte b) \<and> (byte a = 244 \<longrightarrow> byte b \<le> 143)
                  then 4 else 0))))"

fun utf8_fix :: "string \<Rightarrow> string" where
  "utf8_fix [] = []"
| "utf8_fix (a # r) =
     (let n = rune_len (a # r) in
      if n = 0 then [CHR 0xEF, CHR 0xBF, CHR 0xBD] @ utf8_fix r
      else a # take (n - 1) r @ utf8_fix (drop (n - 1) r))"

lemma utf8_fix_ascii: "ascii s \<Longrightarrow> utf8_fix s = s"
  by (induction s) (auto simp: ascii_def)

end
