(* ===== verification/Chain.thy ===== *)
theory Chain
  imports Prelude
begin

text \<open>
  The package \<open>chain\<close> (\<open>internal/chain/block.go\<close>): the records of the ledger and their
  hashes.  \<open>crypto/sha256.Sum256\<close> is the parameter \<open>H\<close> of the definitions, a function on
  byte strings: the theorems hold for every such function, and those that need it to
  behave like a collision-free hash say so, on the finite set of inputs that are hashed.

  After the code's own definitions come the properties of a signature chain that the
  data model promises (\<open>spec/data-model.md\<close>, "Sig Chain Invariants"): \<open>chain_ok\<close> for the
  links and hashes, \<open>block_ok\<close> for a whole block.
\<close>

section \<open>The code\<close>

record SigEntry =
  seHash :: string
  sePrevHash :: string
  seSigner :: string
  seSig :: string
  seTimestamp :: int64
  seSignerKey :: string
  seSourceNode :: string

record Block =
  bHash :: string
  bFingerprint :: string
  bArmoredKey :: string
  bUIDs :: "string list"
  bSubmitTimestamp :: int64
  bSelfSig :: string
  bSigChainHead :: string
  bSigEntries :: "SigEntry list"
  bRevoked :: bool
  bRevocationSig :: string

definition joinFields :: "string list \<Rightarrow> string" where
  "joinFields parts = join_from 0 [] parts"

definition hexSHA256 :: "(string \<Rightarrow> string) \<Rightarrow> string \<Rightarrow> string" where
  "hexSHA256 H b = map upper_char (fmt_x (H b))"

definition ComputeBlockHash :: "(string \<Rightarrow> string) \<Rightarrow> string \<Rightarrow> string \<Rightarrow> string \<Rightarrow> string" where
  "ComputeBlockHash H fingerprint armoredKey selfSig =
     hexSHA256 H (joinFields [fingerprint, armoredKey, selfSig])"

definition ComputeSigEntryHash ::
    "(string \<Rightarrow> string) \<Rightarrow> string \<Rightarrow> string \<Rightarrow> string \<Rightarrow> int64 \<Rightarrow> string" where
  "ComputeSigEntryHash H prevHash signerFP sig timestamp =
     hexSHA256 H (joinFields [prevHash, signerFP, sig, fmt_d (sint timestamp)])"

section \<open>Hashes\<close>

lemma joinFields_nulls: "joinFields ps = nulls ps"
  by (simp add: joinFields_def join_from_0)

lemma hexSHA256_chars: "c \<in> set (hexSHA256 H b) \<Longrightarrow> hex_upper c"
  unfolding hexSHA256_def by (rule upper_fmt_x_chars)

lemma no_null_hexSHA256 [simp]: "no_null (hexSHA256 H b)"
  by (rule no_null_hex) (rule hexSHA256_chars)

lemma length_hexSHA256: "length (hexSHA256 H b) = 2 * length (H b)"
  by (simp add: hexSHA256_def)

lemma hexSHA256_inject: "hexSHA256 H a = hexSHA256 H b \<longleftrightarrow> H a = H b"
  by (simp add: hexSHA256_def upper_fmt_x_inject)

lemma no_null_hashes [simp]:
  "no_null (ComputeBlockHash H fp k s)" "no_null (ComputeSigEntryHash H p fp s t)"
  by (simp_all add: ComputeBlockHash_def ComputeSigEntryHash_def)

lemma ComputeSigEntryHash_nonempty:
  "H (joinFields [p, fp, s, fmt_d (sint t)]) \<noteq> [] \<Longrightarrow> ComputeSigEntryHash H p fp s t \<noteq> []"
  by (auto simp: ComputeSigEntryHash_def hexSHA256_def) (metis length_fmt_x length_0_conv mult_is_0 zero_neq_numeral)

lemma sint_inject: "sint a = sint b \<longleftrightarrow> a = (b :: int64)"
  by (auto intro: signed_word_eqI)

text \<open>What is hashed for a block and for an entry determines its fields.\<close>

abbreviation block_input :: "string \<Rightarrow> string \<Rightarrow> string \<Rightarrow> string" where
  "block_input fp k s \<equiv> joinFields [fp, k, s]"

abbreviation entry_input :: "SigEntry \<Rightarrow> string" where
  "entry_input e \<equiv> joinFields [sePrevHash e, seSigner e, seSig e, fmt_d (sint (seTimestamp e))]"

definition entry_clean :: "SigEntry \<Rightarrow> bool" where
  "entry_clean e \<longleftrightarrow> no_null (sePrevHash e) \<and> no_null (seSigner e) \<and> no_null (seSig e)"

lemma joinFields_inject:
  assumes "list_all no_null ps" and "list_all no_null qs" and "ps \<noteq> []" and "qs \<noteq> []"
  shows "joinFields ps = joinFields qs \<longleftrightarrow> ps = qs"
  using assms by (simp add: joinFields_nulls nulls_inject)

lemma entry_input_inject:
  assumes "entry_clean e" and "entry_clean e'"
  shows "entry_input e = entry_input e' \<longleftrightarrow>
    sePrevHash e = sePrevHash e' \<and> seSigner e = seSigner e' \<and> seSig e = seSig e' \<and>
    seTimestamp e = seTimestamp e'"
  using assms by (simp add: joinFields_inject entry_clean_def fmt_d_inject sint_inject)

lemma block_entry_input:
  assumes "entry_clean e" and "no_null fp" and "no_null k" and "no_null s"
  shows "block_input fp k s \<noteq> entry_input e"
  using assms by (simp add: joinFields_inject entry_clean_def)

section \<open>Signature chains\<close>

definition entry_hash_ok :: "(string \<Rightarrow> string) \<Rightarrow> SigEntry \<Rightarrow> bool" where
  "entry_hash_ok H e \<longleftrightarrow>
     seHash e = ComputeSigEntryHash H (sePrevHash e) (seSigner e) (seSig e) (seTimestamp e)"

text \<open>
  The links: \<open>linked p es\<close> says that the first entry points at \<open>p\<close> and each other entry at
  its predecessor; \<open>chain_head p es\<close> is where the next entry must point.
\<close>

fun linked :: "string \<Rightarrow> SigEntry list \<Rightarrow> bool" where
  "linked p [] = True"
| "linked p (e # es) = (sePrevHash e = p \<and> linked (seHash e) es)"

fun chain_head :: "string \<Rightarrow> SigEntry list \<Rightarrow> string" where
  "chain_head p [] = p"
| "chain_head p (e # es) = chain_head (seHash e) es"

definition chain_ok :: "(string \<Rightarrow> string) \<Rightarrow> string \<Rightarrow> SigEntry list \<Rightarrow> bool" where
  "chain_ok H p es \<longleftrightarrow> linked p es \<and> (\<forall>e \<in> set es. entry_hash_ok H e)"

definition head_ok :: "Block \<Rightarrow> bool" where
  "head_ok b \<longleftrightarrow>
     bSigChainHead b = (if bSigEntries b = [] then [] else seHash (last (bSigEntries b)))"

definition block_hash_ok :: "(string \<Rightarrow> string) \<Rightarrow> Block \<Rightarrow> bool" where
  "block_hash_ok H b \<longleftrightarrow>
     bHash b = ComputeBlockHash H (bFingerprint b) (bArmoredKey b) (bSelfSig b)"

definition block_ok :: "(string \<Rightarrow> string) \<Rightarrow> Block \<Rightarrow> bool" where
  "block_ok H b \<longleftrightarrow> block_hash_ok H b \<and> chain_ok H (bHash b) (bSigEntries b) \<and> head_ok b"

lemma chain_head_last: "chain_head p es = (if es = [] then p else seHash (last es))"
  by (induction p es rule: chain_head.induct) auto

lemma linked_append [simp]: "linked p (es @ fs) \<longleftrightarrow> linked p es \<and> linked (chain_head p es) fs"
  by (induction p es rule: linked.induct) auto

lemma chain_head_append [simp]: "chain_head p (es @ fs) = chain_head (chain_head p es) fs"
  by (induction p es rule: chain_head.induct) auto

lemma chain_ok_Nil [simp]: "chain_ok H p []"
  by (simp add: chain_ok_def)

lemma chain_ok_append:
  "chain_ok H p (es @ fs) \<longleftrightarrow> chain_ok H p es \<and> chain_ok H (chain_head p es) fs"
  by (auto simp: chain_ok_def)

lemma chain_ok_snoc:
  "chain_ok H p (es @ [e]) \<longleftrightarrow>
     chain_ok H p es \<and> sePrevHash e = chain_head p es \<and> entry_hash_ok H e"
  by (auto simp: chain_ok_def)

lemma chain_ok_entry: "chain_ok H p es \<Longrightarrow> e \<in> set es \<Longrightarrow> entry_hash_ok H e"
  by (simp add: chain_ok_def)

lemma chain_head_block:
  assumes "head_ok b" and "\<forall>e \<in> set (bSigEntries b). seHash e \<noteq> []"
  shows "chain_head (bHash b) (bSigEntries b) =
    (if bSigChainHead b = [] then bHash b else bSigChainHead b)"
  using assms by (auto simp: chain_head_last head_ok_def)

text \<open>
  Tamper evidence.  Two chains over the same block with the same head carry the same
  signers, signatures and timestamps in the same order, as long as the hash does not
  collide on what is hashed in them.
\<close>

abbreviation entry_key :: "SigEntry \<Rightarrow> string \<times> string \<times> string \<times> string \<times> int64" where
  "entry_key e \<equiv> (seHash e, sePrevHash e, seSigner e, seSig e, seTimestamp e)"

lemma entry_hash_determines:
  assumes inj: "inj_on H A" and A: "entry_input e \<in> A" "entry_input e' \<in> A"
    and ok: "entry_hash_ok H e" "entry_hash_ok H e'"
    and clean: "entry_clean e" "entry_clean e'"
    and eq: "seHash e = seHash e'"
  shows "entry_key e = entry_key e'"
proof -
  have "H (entry_input e) = H (entry_input e')"
    using ok eq by (simp add: entry_hash_ok_def ComputeSigEntryHash_def hexSHA256_inject)
  with inj A have "entry_input e = entry_input e'" by (auto dest: inj_onD)
  with clean eq show ?thesis by (simp add: entry_input_inject)
qed

lemma chain_head_not_base:
  assumes inj: "inj_on H A" and A: "block_input fp k s \<in> A" "\<forall>e \<in> set es. entry_input e \<in> A"
    and ok: "chain_ok H (ComputeBlockHash H fp k s) es" and clean: "\<forall>e \<in> set es. entry_clean e"
    and base: "no_null fp" "no_null k" "no_null s"
    and ne: "es \<noteq> []"
  shows "chain_head (ComputeBlockHash H fp k s) es \<noteq> ComputeBlockHash H fp k s"
proof
  let ?e = "last es"
  assume "chain_head (ComputeBlockHash H fp k s) es = ComputeBlockHash H fp k s"
  with ne have "seHash ?e = ComputeBlockHash H fp k s" by (simp add: chain_head_last)
  moreover have e: "?e \<in> set es" using ne by simp
  ultimately have "H (entry_input ?e) = H (block_input fp k s)"
    using ok by (auto simp: chain_ok_def entry_hash_ok_def ComputeSigEntryHash_def
        ComputeBlockHash_def hexSHA256_inject)
  with inj A e have "entry_input ?e = block_input fp k s" by (auto dest: inj_onD)
  with e clean base block_entry_input show False by metis
qed

lemma chains_with_same_head:
  assumes inj: "inj_on H A"
    and A: "block_input fp k s \<in> A" "\<forall>e \<in> set es \<union> set fs. entry_input e \<in> A"
    and ok: "chain_ok H (ComputeBlockHash H fp k s) es" "chain_ok H (ComputeBlockHash H fp k s) fs"
    and clean: "\<forall>e \<in> set es \<union> set fs. entry_clean e"
    and base: "no_null fp" "no_null k" "no_null s"
    and head: "chain_head (ComputeBlockHash H fp k s) es = chain_head (ComputeBlockHash H fp k s) fs"
  shows "map entry_key es = map entry_key fs"
  using A(2) ok clean head
proof (induction es arbitrary: fs rule: rev_induct)
  case Nil
  have "fs = []"
  proof (rule ccontr)
    assume "fs \<noteq> []"
    from chain_head_not_base [OF inj A(1) _ _ _ base this] Nil
    show False by (metis UnI2 chain_head.simps(1))
  qed
  then show ?case by simp
next
  case (snoc e es)
  have "fs \<noteq> []"
  proof
    assume "fs = []"
    with snoc.prems(4) have "chain_head (ComputeBlockHash H fp k s) (es @ [e]) =
      ComputeBlockHash H fp k s" by (metis chain_head.simps(1) snoc.prems(5))
    with chain_head_not_base [OF inj A(1), of "es @ [e]"] base snoc.prems(1,2,4)
    show False by blast
  qed
  then obtain fs' f where fs: "fs = fs' @ [f]" by (metis rev_exhaust)
  have mem: "e \<in> set (es @ [e]) \<union> set fs" "f \<in> set (es @ [e]) \<union> set fs"
    using fs by simp_all
  have ok_ef: "entry_hash_ok H e" "entry_hash_ok H f"
    using snoc.prems(2,3) unfolding fs chain_ok_snoc by blast+
  have "seHash e = seHash f" using snoc.prems(5) fs by simp
  with mem ok_ef have key: "entry_key e = entry_key f"
    using snoc.prems(1,4) entry_hash_determines [OF inj] by blast
  have oks: "chain_ok H (ComputeBlockHash H fp k s) es" "chain_ok H (ComputeBlockHash H fp k s) fs'"
    and prevs: "sePrevHash e = chain_head (ComputeBlockHash H fp k s) es"
      "sePrevHash f = chain_head (ComputeBlockHash H fp k s) fs'"
    using snoc.prems(2,3) unfolding fs chain_ok_snoc by blast+
  have "map entry_key es = map entry_key fs'"
  proof (rule snoc.IH)
    show "\<forall>e \<in> set es \<union> set fs'. entry_input e \<in> A" "\<forall>e \<in> set es \<union> set fs'. entry_clean e"
      using snoc.prems(1,4) fs by auto
    show "chain_head (ComputeBlockHash H fp k s) es = chain_head (ComputeBlockHash H fp k s) fs'"
      using key prevs by simp
  qed (fact oks)+
  with key fs show ?case by simp
qed

section \<open>Properties\<close>

text \<open>What the hash of an entry leaves out.\<close>

definition hashed_part :: "SigEntry \<Rightarrow> SigEntry" where
  "hashed_part e = e\<lparr>seSignerKey := [], seSourceNode := []\<rparr>"

lemma hashed_part_key: "entry_key e = entry_key f \<Longrightarrow> hashed_part e = hashed_part f"
  by (cases e, cases f) (simp add: hashed_part_def)

text \<open>
  C31.  Tamper evidence.  As long as the hash function does not collide on what the chains
  hash, two well-formed signature chains of one block that have the same head have the same
  entries in the same order, up to two fields: the hash, the link, the signer, the signature and
  the timestamp of each agree, so none of these can be changed and no entry dropped, inserted
  or moved under a head somebody else knows.  The key an entry brings (\<open>signer_armored_key\<close>) and
  its \<open>source_node\<close> are outside the hash: they can be changed without a trace.
\<close>

theorem chain_tamper_evident:
  assumes "inj_on H A"
    and "joinFields [fp, key, selfSig] \<in> A" and "\<forall>e \<in> set es \<union> set fs. entry_input e \<in> A"
    and "chain_ok H (ComputeBlockHash H fp key selfSig) es"
    and "chain_ok H (ComputeBlockHash H fp key selfSig) fs"
    and "\<forall>e \<in> set es \<union> set fs. entry_clean e"
    and "no_null fp" and "no_null key" and "no_null selfSig"
    and "chain_head (ComputeBlockHash H fp key selfSig) es =
         chain_head (ComputeBlockHash H fp key selfSig) fs"
  shows "map (\<lambda>e. e\<lparr>seSignerKey := [], seSourceNode := []\<rparr>) es = map (\<lambda>e. e\<lparr>seSignerKey := [], seSourceNode := []\<rparr>) fs"
proof -
  have same: "map entry_key es = map entry_key fs" using assms by (rule chains_with_same_head)
  then have len: "length es = length fs" by (rule map_eq_imp_length_eq)
  have "hashed_part (es ! i) = hashed_part (fs ! i)" if "i < length es" for i
    by (rule hashed_part_key) (use arg_cong [OF same, of "\<lambda>xs. xs ! i"] that len in simp)
  then have "map hashed_part es = map hashed_part fs" using len by (intro nth_equalityI) simp_all
  then show ?thesis by (simp add: hashed_part_def [abs_def])
qed

definition sample_signature :: "string \<Rightarrow> SigEntry" where
  "sample_signature node =
     (let prev = ComputeBlockHash (\<lambda>x. x) ''A'' ''k'' ''s'' in
      \<lparr>seHash = ComputeSigEntryHash (\<lambda>x. x) prev ''B'' ''sig'' 7, sePrevHash = prev,
       seSigner = ''B'', seSig = ''sig'', seTimestamp = 7, seSignerKey = ''kB'', seSourceNode = node\<rparr>)"

theorem chain_tamper_evident_witness:
  "map (\<lambda>e. e\<lparr>seSignerKey := [], seSourceNode := []\<rparr>) [sample_signature ''n1''] =
     map (\<lambda>e. e\<lparr>seSignerKey := [], seSourceNode := []\<rparr>) [sample_signature ''n2'']"
proof (rule chain_tamper_evident [where H = "\<lambda>x. x" and A = UNIV and fp = "''A''" and key = "''k''"
      and selfSig = "''s''"])
  have "no_null (ComputeBlockHash (\<lambda>x. x) ''A'' ''k'' ''s'')"
    unfolding ComputeBlockHash_def by (rule no_null_hex) (rule hexSHA256_chars)
  then show "\<forall>e \<in> set [sample_signature ''n1''] \<union> set [sample_signature ''n2'']. entry_clean e"
    by (simp add: sample_signature_def entry_clean_def Let_def no_null_def)
qed (simp_all add: sample_signature_def Let_def chain_ok_def entry_hash_ok_def no_null_def)

text \<open>
  What a block hash commits to.  For a hash without collisions, a block hash determines
  the fingerprint, the key and the self-signature, and it is never the hash of an entry.
\<close>

lemma block_hash_commits:
  assumes "inj H" and "no_null fp" "no_null key" "no_null selfSig" "no_null fp'" "no_null key'" "no_null selfSig'"
  shows "(ComputeBlockHash H fp key selfSig = ComputeBlockHash H fp' key' selfSig' \<longleftrightarrow>
      fp = fp' \<and> key = key' \<and> selfSig = selfSig') \<and>
    (no_null prev \<and> no_null signer \<and> no_null sig \<longrightarrow>
      ComputeBlockHash H fp key selfSig \<noteq> ComputeSigEntryHash H prev signer sig t)"
  using assms
  by (simp add: ComputeBlockHash_def ComputeSigEntryHash_def hexSHA256_inject inj_eq joinFields_inject)

lemma block_hash_commits_witness:
  "ComputeBlockHash (\<lambda>x. x) ''A'' ''k'' ''s'' \<noteq> ComputeBlockHash (\<lambda>x. x) ''A'' ''k'' ''r'' \<and>
   ComputeBlockHash (\<lambda>x. x) ''A'' ''k'' ''s'' \<noteq> ComputeSigEntryHash (\<lambda>x. x) ''A'' ''k'' ''s'' 0"
  using block_hash_commits [of "\<lambda>x. x" "''A''" "''k''" "''s''" "''A''" "''k''" "''r''" "''A''" "''k''" "''s''" 0]
  by (simp add: no_null_def)

text \<open>
  Both hashes are 64 characters of 0-9 and A-F whenever the hash function returns 32
  bytes, so they hold no null byte and can be joined into the next entry's input.
\<close>

lemma hash_format:
  assumes "\<And>x. length (H x) = 32"
  shows "length (ComputeBlockHash H fp key selfSig) = 64 \<and>
    length (ComputeSigEntryHash H prev signer sig t) = 64 \<and>
    list_all hex_upper (ComputeBlockHash H fp key selfSig) \<and>
    list_all hex_upper (ComputeSigEntryHash H prev signer sig t)"
  using assms hexSHA256_chars
  by (simp add: ComputeBlockHash_def ComputeSigEntryHash_def length_hexSHA256 list_all_iff)

lemma hash_format_witness:
  "length (ComputeBlockHash (\<lambda>_. replicate 32 (CHR ''a'')) ''A'' ''k'' ''s'') = 64"
  using hash_format [of "\<lambda>_. replicate 32 (CHR ''a'')" "''A''" "''k''" "''s''"] by simp

end
