(* ===== verification/Base64.thy ===== *)
theory Base64
  imports Prelude
begin

text \<open>
  \<open>encoding/base64.StdEncoding\<close> of the Go library: \<open>EncodeToString\<close> and \<open>DecodeString\<close>,
  which the package \<open>gpg\<close> puts around every signature.  \<open>DecodeString\<close> skips carriage
  returns and newlines, wants padding, and does not look at the unused bits of the last
  group.
\<close>

definition b64_char :: "nat \<Rightarrow> char" where
  "b64_char n =
     (if n < 26 then char_of (65 + n) else if n < 52 then char_of (71 + n)
      else if n < 62 then char_of (n - 4) else if n = 62 then CHR ''+'' else CHR ''/'')"

definition b64_val :: "char \<Rightarrow> nat option" where
  "b64_val c =
     (let b = byte c in
      if 65 \<le> b \<and> b \<le> 90 then Some (b - 65) else if 97 \<le> b \<and> b \<le> 122 then Some (b - 71)
      else if 48 \<le> b \<and> b \<le> 57 then Some (b + 4) else if b = 43 then Some 62
      else if b = 47 then Some 63 else None)"

fun EncodeToString :: "string \<Rightarrow> string" where
  "EncodeToString [] = []"
| "EncodeToString [a] =
     [b64_char (byte a div 4), b64_char (byte a mod 4 * 16), CHR ''='', CHR ''='']"
| "EncodeToString [a, b] =
     [b64_char (byte a div 4), b64_char (byte a mod 4 * 16 + byte b div 16),
      b64_char (byte b mod 16 * 4), CHR ''='']"
| "EncodeToString (a # b # c # bs) =
     b64_char (byte a div 4) # b64_char (byte a mod 4 * 16 + byte b div 16) #
     b64_char (byte b mod 16 * 4 + byte c div 64) # b64_char (byte c mod 64) # EncodeToString bs"

fun decode_groups :: "string \<Rightarrow> string option" where
  "decode_groups [] = Some []"
| "decode_groups (a # b # c # d # s) =
     (case (b64_val a, b64_val b) of
        (Some x, Some y) \<Rightarrow>
          if c = CHR ''='' \<and> d = CHR ''='' then
            (if s = [] then Some [char_of (x * 4 + y div 16)] else None)
          else (case b64_val c of
            None \<Rightarrow> None
          | Some z \<Rightarrow>
              if d = CHR ''='' then
                (if s = [] then Some [char_of (x * 4 + y div 16), char_of (y mod 16 * 16 + z div 4)]
                 else None)
              else (case b64_val d of
                None \<Rightarrow> None
              | Some w \<Rightarrow>
                  map_option (\<lambda>bs. char_of (x * 4 + y div 16) # char_of (y mod 16 * 16 + z div 4) #
                      char_of (z mod 4 * 64 + w) # bs) (decode_groups s)))
      | _ \<Rightarrow> None)"
| "decode_groups s = None"

definition DecodeString :: "string \<Rightarrow> string option" where
  "DecodeString s = decode_groups (filter (\<lambda>c. byte c \<noteq> 10 \<and> byte c \<noteq> 13) s)"

lemma b64_val_char [simp]: "n < 64 \<Longrightarrow> b64_val (b64_char n) = Some n"
proof -
  assume "n < 64"
  then consider "n < 26" | "26 \<le> n" "n < 52" | "52 \<le> n" "n < 62" | "n = 62" | "n = 63" by linarith
  then show ?thesis by cases (auto simp: b64_val_def b64_char_def Let_def byte_def)
qed

lemma b64_char_visible:
  assumes "n < 64" shows "43 \<le> byte (b64_char n) \<and> byte (b64_char n) \<noteq> 61"
proof -
  from assms consider "n < 26" | "26 \<le> n" "n < 52" | "52 \<le> n" "n < 62" | "n = 62" | "n = 63"
    by linarith
  then show ?thesis by cases (auto simp: b64_char_def byte_def)
qed

lemma b64_char_not_pad [simp]: "n < 64 \<Longrightarrow> b64_char n \<noteq> CHR ''=''"
  using b64_char_visible [of n] by (auto simp: byte_def)

lemma byte_div [simp]: "byte a div 4 < 64" "byte a div 16 < 16" "byte a div 64 < 4"
  using byte_less [of a] by (simp_all add: div_less_iff_less_mult)

lemma byte_div_div [simp]: "byte a div 16 div 16 = 0" "byte a div 64 div 4 = 0"
  by simp_all

lemma byte_div_mod [simp]: "byte a div 16 mod 16 = byte a div 16" "byte a div 64 mod 4 = byte a div 64"
  by (simp_all add: mod_less)

lemma b64_parts [simp]:
  "byte a mod 4 * 16 < 64" "byte a mod 16 * 4 < 64" "byte c mod 64 < 64"
  "byte a mod 4 * 16 + byte b div 16 < 64" "byte b mod 16 * 4 + byte c div 64 < 64"
proof -
  have "byte a mod 4 < 4" "byte a mod 16 < 16" "byte b mod 16 < 16" by simp_all
  moreover have "byte b div 16 < 16" "byte c div 64 < 4" by (rule byte_div)+
  ultimately show "byte a mod 4 * 16 < 64" "byte a mod 16 * 4 < 64" "byte c mod 64 < 64"
    "byte a mod 4 * 16 + byte b div 16 < 64" "byte b mod 16 * 4 + byte c div 64 < 64"
    by (linarith, linarith, simp, linarith, linarith)
qed

lemma decode_groups_Encode: "decode_groups (EncodeToString bs) = Some bs"
  by (induction bs rule: EncodeToString.induct) simp_all

lemma EncodeToString_chars: "set (EncodeToString bs) \<subseteq> insert (CHR ''='') (b64_char ` {..<64})"
  by (induction bs rule: EncodeToString.induct) (auto intro!: imageI)

lemma EncodeToString_visible: "c \<in> set (EncodeToString bs) \<Longrightarrow> 43 \<le> byte c"
  using EncodeToString_chars [of bs] b64_char_visible by (auto simp: byte_def subset_iff)

lemma DecodeString_Encode: "DecodeString (EncodeToString bs) = Some bs"
proof -
  have "filter (\<lambda>c. byte c \<noteq> 10 \<and> byte c \<noteq> 13) (EncodeToString bs) = EncodeToString bs"
    by (rule filter_True) (auto dest: EncodeToString_visible)
  then show ?thesis by (simp add: DecodeString_def decode_groups_Encode)
qed

lemma no_null_Encode [simp]: "no_null (EncodeToString bs)"
  by (auto simp: no_null_def byte_def dest: EncodeToString_visible)

end
