(* ===== verification/Gpg.thy ===== *)
theory Gpg
  imports Chain Base64
begin

text \<open>
  The package \<open>gpg\<close> (\<open>internal/gpg/gpg.go\<close>): key parsing, key strength, the e-mail domains
  of a key, the three signed payloads, signing and verification.

  What the package calls outside the repository is the record \<open>lib\<close>: the hash function,
  and of \<open>go-crypto\<close> the armor decoder, the entity reader, \<open>DetachSign\<close> and
  \<open>CheckDetachedSignature\<close>.  Each is a function of its arguments (the clock included); a
  failing call returns the message of its error.  Three fields stand for what the handlers
  use of the standard library and the language leaves open or reads from text: the result of
  converting an out-of-range \<open>float64\<close> to \<open>int64\<close>, the scheme and host name of a parsed URL,
  and the 16 bytes of a parsed IP address.
\<close>

section \<open>The libraries the program calls\<close>

datatype algorithm =
    PubKeyAlgoRSA | PubKeyAlgoRSAEncryptOnly | PubKeyAlgoRSASignOnly | PubKeyAlgoDSA
  | PubKeyAlgoOther nat

record entity =
  eFingerprint :: string
  eIdentities :: "string list"
  eAlgo :: algorithm
  eBitLength :: "nat result"

record lib = gotext +
  Sum256 :: "string \<Rightarrow> string"
  armorDecode :: "string \<Rightarrow> string result"
  readEntityPackets :: "string \<Rightarrow> entity result"
  detachSign :: "int \<Rightarrow> entity \<Rightarrow> string \<Rightarrow> string result"
  checkDetachedSignature :: "entity \<Rightarrow> string \<Rightarrow> string \<Rightarrow> int \<Rightarrow> error option"
  floatOut :: "int \<Rightarrow> int \<Rightarrow> int64"
  urlParse :: "string \<Rightarrow> (string \<times> string) option"
  parseIP :: "string \<Rightarrow> nat list option"

section \<open>Keys\<close>

definition readEntity :: "lib \<Rightarrow> string \<Rightarrow> entity result" where
  "readEntity L armored =
     (case armorDecode L armored of
        Inl err \<Rightarrow> Inl (''decode armor: '' @ err)
      | Inr body \<Rightarrow>
          (case readEntityPackets L body of
             Inl err \<Rightarrow> Inl (''read entity: '' @ err)
           | Inr el \<Rightarrow> Inr el))"

definition ParseArmoredKey :: "lib \<Rightarrow> string \<Rightarrow> (string \<times> string list) result" where
  "ParseArmoredKey L armored =
     (case readEntity L armored of
        Inl err \<Rightarrow> Inl (''parse armored key: '' @ err)
      | Inr el \<Rightarrow> Inr (ToUpper L (fmt_x (eFingerprint el)), eIdentities el))"

definition CheckKeyStrength :: "lib \<Rightarrow> string \<Rightarrow> error option" where
  "CheckKeyStrength L armored =
     (case readEntity L armored of
        Inl err \<Rightarrow> Some (''parse key: '' @ err)
      | Inr el \<Rightarrow>
          (if eAlgo el \<in> {PubKeyAlgoRSA, PubKeyAlgoRSASignOnly, PubKeyAlgoRSAEncryptOnly} then
             (case eBitLength el of
                Inl err \<Rightarrow> Some (''get RSA bit length: '' @ err)
              | Inr bits \<Rightarrow>
                  if bits < 2048
                  then Some (''RSA key too weak: '' @ fmt_d (int bits) @ '' bits (minimum 2048)'')
                  else None)
           else if eAlgo el = PubKeyAlgoDSA then
             (case eBitLength el of
                Inl err \<Rightarrow> Some (''get DSA bit length: '' @ err)
              | Inr bits \<Rightarrow>
                  if bits \<le> 1024
                  then Some (''DSA key too weak: '' @ fmt_d (int bits) @ '' bits (DSA-1024 rejected)'')
                  else None)
           else None))"

section \<open>E-mail domains\<close>

text \<open>
  The regular expression \<open><[^>]+@([^>]+)>\<close> as Go's leftmost-first matcher runs it: from the
  first \<open><\<close> where a match exists, the content runs to the next \<open>>\<close>, and the greedy first
  group gives the domain the text after the last \<open>@\<close> that is followed by anything.
\<close>

definition domain_of_content :: "string \<Rightarrow> string option" where
  "domain_of_content x =
     (case rev x of
        [] \<Rightarrow> None
      | c # r \<Rightarrow>
          (case dropWhile (\<lambda>c. c \<noteq> CHR ''@'') r of
             [] \<Rightarrow> None
           | _ # left \<Rightarrow>
               if left = [] then None else Some (rev (c # takeWhile (\<lambda>c. c \<noteq> CHR ''@'') r))))"

fun bracketed :: "string \<Rightarrow> string option" where
  "bracketed [] = None"
| "bracketed (c # s) =
     (if c = CHR ''<'' \<and> CHR ''>'' \<in> set s then
        (case domain_of_content (takeWhile (\<lambda>c. c \<noteq> CHR ''>'') s) of
           Some d \<Rightarrow> Some d
         | None \<Rightarrow> bracketed s)
      else bracketed s)"

text \<open>The regular expression \<open>^[^@\s]+@([^@\s]+)$\<close>.\<close>

definition re_space :: "char \<Rightarrow> bool" where
  "re_space c \<longleftrightarrow> byte c \<in> {9, 10, 12, 13, 32}"

definition bare :: "string \<Rightarrow> string option" where
  "bare s =
     (let a = takeWhile (\<lambda>c. c \<noteq> CHR ''@'') s; d = drop (Suc (length a)) s in
      if CHR ''@'' \<in> set s \<and> a \<noteq> [] \<and> d \<noteq> [] \<and> CHR ''@'' \<notin> set d \<and> \<not> list_ex re_space s
      then Some d else None)"

definition uid_domain :: "lib \<Rightarrow> string \<Rightarrow> string" where
  "uid_domain L uid =
     (case bracketed uid of
        Some d \<Rightarrow> ToLower L d
      | None \<Rightarrow> (case bare (TrimSpace L uid) of Some d \<Rightarrow> ToLower L d | None \<Rightarrow> []))"

fun ExtractEmailDomains_loop :: "lib \<Rightarrow> string list \<Rightarrow> string list \<Rightarrow> string list" where
  "ExtractEmailDomains_loop L domains [] = domains"
| "ExtractEmailDomains_loop L domains (uid # uids) =
     (let domain = uid_domain L uid in
      ExtractEmailDomains_loop L (if domain \<noteq> [] then set_add domain domains else domains) uids)"

definition ExtractEmailDomains :: "lib \<Rightarrow> string list \<Rightarrow> string list" where
  "ExtractEmailDomains L uids = ExtractEmailDomains_loop L [] uids"

section \<open>Payloads, signing and verification\<close>

definition joinNull :: "string list \<Rightarrow> string" where
  "joinNull parts = join_from 0 [] parts"

definition SubmitPayload :: "lib \<Rightarrow> string \<Rightarrow> string \<Rightarrow> int64 \<Rightarrow> string" where
  "SubmitPayload L fingerprint armoredKey timestamp =
     (let keyHashHex = ToUpper L (fmt_x (Sum256 L armoredKey)) in
      joinNull [''GPGCHAIN_SUBMIT_V1'', fingerprint, keyHashHex, fmt_d (sint timestamp)])"

definition TrustPayload :: "string \<Rightarrow> string \<Rightarrow> int64 \<Rightarrow> string" where
  "TrustPayload blockHash signerFingerprint timestamp =
     joinNull [''GPGCHAIN_TRUST_V1'', blockHash, signerFingerprint, fmt_d (sint timestamp)]"

definition RevokePayload :: "string \<Rightarrow> string \<Rightarrow> string" where
  "RevokePayload fingerprint blockHash =
     joinNull [''GPGCHAIN_REVOKE_V1'', fingerprint, blockHash]"

definition Sign :: "lib \<Rightarrow> int \<Rightarrow> string \<Rightarrow> string \<Rightarrow> string result" where
  "Sign L now payload armoredPrivateKey =
     (case armorDecode L armoredPrivateKey of
        Inl err \<Rightarrow> Inl (''decode private key armor: '' @ err)
      | Inr body \<Rightarrow>
          (case readEntityPackets L body of
             Inl err \<Rightarrow> Inl (''read private key: '' @ err)
           | Inr el \<Rightarrow>
               (case detachSign L now el payload of
                  Inl err \<Rightarrow> Inl (''detach sign: '' @ err)
                | Inr sigBytes \<Rightarrow> Inr (EncodeToString sigBytes))))"

text \<open>The reference clock runs 60 seconds ahead of the time \<open>now\<close>, in nanoseconds.\<close>

definition VerifyDetachedSig :: "lib \<Rightarrow> int \<Rightarrow> string \<Rightarrow> string \<Rightarrow> string \<Rightarrow> bool" where
  "VerifyDetachedSig L now payload b64Sig armoredPublicKey =
     (case DecodeString b64Sig of
        None \<Rightarrow> False
      | Some sigBytes \<Rightarrow>
          (case readEntity L armoredPublicKey of
             Inl err \<Rightarrow> False
           | Inr el \<Rightarrow> checkDetachedSignature L el payload sigBytes (now + 60 * second) = None))"

section \<open>Keys: lemmas\<close>

lemma ToUpper_fmt_x [simp]: "ToUpper L (fmt_x bs) = map upper_char (fmt_x bs)"
  by (simp add: ToUpper_def)

lemma ParseArmoredKey_hex:
  "ParseArmoredKey L k = Inr (fp, uids) \<Longrightarrow> \<forall>c \<in> set fp. hex_upper c"
  by (auto simp: ParseArmoredKey_def split: sum.splits dest: upper_fmt_x_chars)

lemma ParseArmoredKey_no_null:
  "ParseArmoredKey L k = Inr (fp, uids) \<Longrightarrow> no_null fp"
  by (rule no_null_hex) (drule ParseArmoredKey_hex, blast)

lemma ParseArmoredKey_ascii: "ParseArmoredKey L k = Inr (fp, uids) \<Longrightarrow> ascii fp"
  by (auto simp: ParseArmoredKey_def split: sum.splits)

lemma ParseArmoredKey_upper:
  assumes "ParseArmoredKey L k = Inr (fp, uids)" shows "ToUpper L fp = fp"
  using assms by (auto simp: ParseArmoredKey_def ToUpper_def split: sum.splits)

text \<open>A key passes the strength check exactly when it can be read and is long enough.\<close>

definition strong_key :: "entity \<Rightarrow> bool" where
  "strong_key el \<longleftrightarrow>
     (case eAlgo el of
        PubKeyAlgoOther n \<Rightarrow> True
      | PubKeyAlgoDSA \<Rightarrow> (\<exists>bits. eBitLength el = Inr bits \<and> bits > 1024)
      | _ \<Rightarrow> (\<exists>bits. eBitLength el = Inr bits \<and> bits \<ge> 2048))"

lemma CheckKeyStrength_iff:
  "CheckKeyStrength L k = None \<longleftrightarrow> (\<exists>el. readEntity L k = Inr el \<and> strong_key el)"
  by (cases "readEntity L k") (auto simp: CheckKeyStrength_def strong_key_def not_less not_le
      split: sum.splits algorithm.splits if_splits)

section \<open>Domains: lemmas\<close>

lemma domain_of_content_Some:
  assumes "domain_of_content x = Some d"
  shows "\<exists>a. x = a @ CHR ''@'' # d \<and> a \<noteq> [] \<and> d \<noteq> []"
proof -
  from assms obtain c r where r: "rev x = c # r"
    by (auto simp: domain_of_content_def split: list.splits)
  with assms obtain at left where
    drop: "dropWhile (\<lambda>c. c \<noteq> CHR ''@'') r = at # left" and left: "left \<noteq> []"
    and d: "d = rev (c # takeWhile (\<lambda>c. c \<noteq> CHR ''@'') r)"
    by (auto simp: domain_of_content_def split: list.splits if_splits)
  have at: "at = CHR ''@''" using drop by (metis (mono_tags, lifting) dropWhile_eq_Cons_conv)
  define t where "t = takeWhile (\<lambda>c. c \<noteq> CHR ''@'') r"
  have "t @ at # left = r" unfolding t_def drop [symmetric] by (rule takeWhile_dropWhile_id)
  then have "rev (rev x) = rev (c # t @ at # left)" using r by simp
  then have "x = rev left @ at # d" unfolding d t_def [symmetric] by simp
  with at left d show ?thesis by auto
qed

lemma domain_of_content_None:
  assumes "domain_of_content x = None" and "x = a @ CHR ''@'' # d" and "d \<noteq> []"
  shows "a = []"
proof -
  from assms(3) obtain c d' where d: "rev d = c # d'" by (cases "rev d") auto
  then have r: "rev x = c # d' @ CHR ''@'' # rev a" using assms(2) by simp
  have "\<exists>left. dropWhile (\<lambda>c. c \<noteq> CHR ''@'') (d' @ CHR ''@'' # rev a) = CHR ''@'' # left \<and>
      (left = [] \<longrightarrow> a = [])"
    by (induction d') auto
  with assms(1) r show ?thesis by (auto simp: domain_of_content_def split: if_splits)
qed

lemma takeWhile_until: "c \<notin> set x \<Longrightarrow> takeWhile (\<lambda>d. d \<noteq> c) (x @ c # s) = x"
  by (induction x) auto

lemma takeWhile_split:
  assumes "c \<in> set s"
  obtains pre post where "takeWhile (\<lambda>d. d \<noteq> c) s = pre" "s = pre @ c # post" "c \<notin> set pre"
proof -
  from split_list_first [OF assms] obtain pre post where "s = pre @ c # post" "c \<notin> set pre" by blast
  with takeWhile_until [of c pre post] show thesis by (intro that) simp_all
qed

text \<open>
  What the two regular expressions capture.  A match of \<open><[^>]+@([^>]+)>\<close> after \<open>pre\<close>; the
  group is that of the leftmost match, in which the first repetition takes as much as it can.
\<close>

definition bracket_at :: "string \<Rightarrow> string \<Rightarrow> string \<Rightarrow> bool" where
  "bracket_at s pre x \<longleftrightarrow>
     (\<exists>a post. s = pre @ CHR ''<'' # a @ CHR ''@'' # x @ CHR ''>'' # post \<and>
        a \<noteq> [] \<and> x \<noteq> [] \<and> CHR ''>'' \<notin> set a \<and> CHR ''>'' \<notin> set x)"

definition bracket_group :: "string \<Rightarrow> string \<Rightarrow> bool" where
  "bracket_group s x \<longleftrightarrow>
     (\<exists>pre. bracket_at s pre x \<and> CHR ''@'' \<notin> set (butlast x) \<and>
        (\<forall>pre' x'. bracket_at s pre' x' \<longrightarrow> length pre \<le> length pre'))"

text \<open>The whole string matches \<open>[^@\\s]+@([^@\\s]+)\<close>.\<close>

definition bare_group :: "string \<Rightarrow> string \<Rightarrow> bool" where
  "bare_group s x \<longleftrightarrow>
     (\<exists>a. s = a @ CHR ''@'' # x \<and> a \<noteq> [] \<and> x \<noteq> [] \<and> CHR ''@'' \<notin> set a \<and> CHR ''@'' \<notin> set x \<and>
        \<not> list_ex re_space s)"

lemma domain_of_content_iff:
  "domain_of_content y = Some d \<longleftrightarrow>
     (\<exists>a. y = a @ CHR ''@'' # d \<and> a \<noteq> [] \<and> d \<noteq> [] \<and> CHR ''@'' \<notin> set (butlast d))"
proof
  assume some: "domain_of_content y = Some d"
  then have "\<exists>c r. d = rev (c # takeWhile (\<lambda>c. c \<noteq> CHR ''@'') r)"
    by (auto simp: domain_of_content_def split: list.splits if_splits)
  then have "CHR ''@'' \<notin> set (butlast d)" by (auto dest: set_takeWhileD)
  with domain_of_content_Some [OF some]
  show "\<exists>a. y = a @ CHR ''@'' # d \<and> a \<noteq> [] \<and> d \<noteq> [] \<and> CHR ''@'' \<notin> set (butlast d)" by blast
next
  assume "\<exists>a. y = a @ CHR ''@'' # d \<and> a \<noteq> [] \<and> d \<noteq> [] \<and> CHR ''@'' \<notin> set (butlast d)"
  then obtain a where y: "y = a @ CHR ''@'' # d" "a \<noteq> []" "d \<noteq> []" "CHR ''@'' \<notin> set (butlast d)" by blast
  obtain c d' where d: "d = d' @ [c]" using y(3) by (cases d rule: rev_cases) auto
  have rest: "takeWhile (\<lambda>c. c \<noteq> CHR ''@'') (rev d' @ CHR ''@'' # rev a) = rev d'"
    by (rule takeWhile_until) (use y(4) d in simp)
  have "dropWhile (\<lambda>c. c \<noteq> CHR ''@'') (rev d' @ CHR ''@'' # rev a) = CHR ''@'' # rev a"
    by (subst dropWhile_append2) (use y(4) d in auto)
  with rest y(1,2) d show "domain_of_content y = Some d" by (auto simp: domain_of_content_def)
qed

lemma bracket_at_Nil:
  "bracket_at (c # s) [] x \<longleftrightarrow> c = CHR ''<'' \<and> CHR ''>'' \<in> set s \<and> x \<noteq> [] \<and>
     (\<exists>a. a \<noteq> [] \<and> takeWhile (\<lambda>c. c \<noteq> CHR ''>'') s = a @ CHR ''@'' # x)"
proof
  assume "bracket_at (c # s) [] x"
  then obtain a post where m: "c = CHR ''<''" "s = (a @ CHR ''@'' # x) @ CHR ''>'' # post" "a \<noteq> []" "x \<noteq> []"
    "CHR ''>'' \<notin> set (a @ CHR ''@'' # x)" unfolding bracket_at_def by auto
  from takeWhile_until [OF m(5), of post] m
  show "c = CHR ''<'' \<and> CHR ''>'' \<in> set s \<and> x \<noteq> [] \<and>
     (\<exists>a. a \<noteq> [] \<and> takeWhile (\<lambda>c. c \<noteq> CHR ''>'') s = a @ CHR ''@'' # x)" by auto
next
  assume "c = CHR ''<'' \<and> CHR ''>'' \<in> set s \<and> x \<noteq> [] \<and>
     (\<exists>a. a \<noteq> [] \<and> takeWhile (\<lambda>c. c \<noteq> CHR ''>'') s = a @ CHR ''@'' # x)"
  then obtain a where c: "c = CHR ''<''" "CHR ''>'' \<in> set s" "x \<noteq> []" "a \<noteq> []"
    "takeWhile (\<lambda>c. c \<noteq> CHR ''>'') s = a @ CHR ''@'' # x" by blast
  from c(2) obtain y post where y: "takeWhile (\<lambda>c. c \<noteq> CHR ''>'') s = y" "s = y @ CHR ''>'' # post" "CHR ''>'' \<notin> set y"
    by (rule takeWhile_split)
  with c show "bracket_at (c # s) [] x" unfolding bracket_at_def by (intro exI [of _ a] exI [of _ post]) auto
qed

lemma bracket_at_Cons: "bracket_at (c # s) (p # pre) x \<longleftrightarrow> c = p \<and> bracket_at s pre x"
  by (auto simp: bracket_at_def)

text \<open>A group of the first position is the group; without one, the group is that of the rest.\<close>

lemma bracket_group_here:
  assumes "bracket_at (c # s) [] y"
  shows "bracket_group (c # s) x \<longleftrightarrow> bracket_at (c # s) [] x \<and> CHR ''@'' \<notin> set (butlast x)"
  using assms unfolding bracket_group_def by (metis le_zero_eq length_0_conv list.size(3) zero_le)

lemma bracket_group_later:
  assumes "\<And>y. \<not> bracket_at (c # s) [] y"
  shows "bracket_group (c # s) x \<longleftrightarrow> bracket_group s x"
proof
  assume "bracket_group (c # s) x"
  then obtain pre where pre: "bracket_at (c # s) pre x" "CHR ''@'' \<notin> set (butlast x)"
    "\<And>pre' x'. bracket_at (c # s) pre' x' \<Longrightarrow> length pre \<le> length pre'" unfolding bracket_group_def by blast
  from pre(1) assms obtain q where q: "pre = c # q" "bracket_at s q x"
    by (cases pre) (auto simp: bracket_at_Cons)
  have "length q \<le> length pre'" if "bracket_at s pre' x'" for pre' x'
    using pre(3) [of "c # pre'" x'] that q(1) by (simp add: bracket_at_Cons)
  with q(2) pre(2) show "bracket_group s x" unfolding bracket_group_def by blast
next
  assume "bracket_group s x"
  then obtain q where q: "bracket_at s q x" "CHR ''@'' \<notin> set (butlast x)"
    "\<And>pre' x'. bracket_at s pre' x' \<Longrightarrow> length q \<le> length pre'" unfolding bracket_group_def by blast
  have "length (c # q) \<le> length pre'" if "bracket_at (c # s) pre' x'" for pre' x'
    using that assms q(3) by (cases pre') (auto simp: bracket_at_Cons)
  with q(1,2) show "bracket_group (c # s) x" unfolding bracket_group_def
    by (intro exI [of _ "c # q"]) (simp add: bracket_at_Cons)
qed

lemma bracketed_iff: "bracketed s = Some x \<longleftrightarrow> bracket_group s x"
proof (induction s)
  case Nil
  then show ?case by (simp add: bracket_group_def bracket_at_def)
next
  case (Cons c s)
  let ?y = "takeWhile (\<lambda>c. c \<noteq> CHR ''>'') s"
  show ?case
  proof (cases "\<exists>y. bracket_at (c # s) [] y")
    case True
    then obtain y where y: "bracket_at (c # s) [] y" by blast
    then have c: "c = CHR ''<''" "CHR ''>'' \<in> set s" by (auto simp: bracket_at_Nil)
    from y obtain a where a: "?y = a @ CHR ''@'' # y" "a \<noteq> []" "y \<noteq> []" by (auto simp: bracket_at_Nil)
    have "domain_of_content ?y \<noteq> None" using domain_of_content_None [OF _ a(1,3)] a(2) by blast
    then have "bracketed (c # s) = domain_of_content ?y" using c by auto
    then show ?thesis unfolding bracket_group_here [OF y] bracket_at_Nil
      using c by (auto simp: domain_of_content_iff)
  next
    case False
    have "domain_of_content ?y = None" if "c = CHR ''<''" "CHR ''>'' \<in> set s"
    proof (cases "domain_of_content ?y")
      case (Some d)
      from domain_of_content_Some [OF this] that have "bracket_at (c # s) [] d" by (auto simp: bracket_at_Nil)
      with False show ?thesis by blast
    qed
    then have "bracketed (c # s) = bracketed s" by (auto split: option.splits)
    with Cons.IH bracket_group_later [of c s x] False show ?thesis by simp
  qed
qed

lemma bare_Some_iff: "bare s = Some d \<longleftrightarrow> bare_group s d"
  unfolding bare_group_def
proof
  assume b: "bare s = Some d"
  then have "CHR ''@'' \<in> set s" by (auto simp: bare_def Let_def split: if_splits)
  then obtain pre post where pre: "takeWhile (\<lambda>c. c \<noteq> CHR ''@'') s = pre"
    "s = pre @ CHR ''@'' # post" "CHR ''@'' \<notin> set pre"
    by (rule takeWhile_split)
  with b have "post = d \<and> pre \<noteq> [] \<and> d \<noteq> [] \<and> CHR ''@'' \<notin> set d \<and> \<not> list_ex re_space s"
    by (auto simp: bare_def Let_def split: if_splits)
  with pre show "\<exists>a. s = a @ CHR ''@'' # d \<and> a \<noteq> [] \<and> d \<noteq> [] \<and> CHR ''@'' \<notin> set a \<and>
      CHR ''@'' \<notin> set d \<and> \<not> list_ex re_space s" by blast
next
  assume "\<exists>a. s = a @ CHR ''@'' # d \<and> a \<noteq> [] \<and> d \<noteq> [] \<and> CHR ''@'' \<notin> set a \<and>
      CHR ''@'' \<notin> set d \<and> \<not> list_ex re_space s"
  then obtain a where a: "s = a @ CHR ''@'' # d" "a \<noteq> []" "d \<noteq> []" "CHR ''@'' \<notin> set a"
    "CHR ''@'' \<notin> set d" "\<not> list_ex re_space s" by blast
  have "takeWhile (\<lambda>c. c \<noteq> CHR ''@'') s = a" unfolding a(1) by (rule takeWhile_until) (rule a)
  with a show "bare s = Some d" by (auto simp: bare_def Let_def)
qed

lemma ExtractEmailDomains_loop_set:
  "set (ExtractEmailDomains_loop L ds uids) = set ds \<union> (uid_domain L ` set uids - {[]})"
  by (induction uids arbitrary: ds) (auto simp: Let_def)

lemma ExtractEmailDomains_set: "set (ExtractEmailDomains L uids) = uid_domain L ` set uids - {[]}"
  by (simp add: ExtractEmailDomains_def ExtractEmailDomains_loop_set)

lemma ExtractEmailDomains_distinct: "distinct (ExtractEmailDomains L uids)"
proof -
  have "distinct ds \<Longrightarrow> distinct (ExtractEmailDomains_loop L ds uids)" for ds
    by (induction uids arbitrary: ds) (auto simp: Let_def)
  then show ?thesis by (simp add: ExtractEmailDomains_def)
qed

section \<open>Payloads: lemmas\<close>

lemma joinNull_nulls: "joinNull ps = nulls ps"
  by (simp add: joinNull_def join_from_0)

lemma no_null_tags [simp]:
  "no_null ''GPGCHAIN_SUBMIT_V1''" "no_null ''GPGCHAIN_TRUST_V1''" "no_null ''GPGCHAIN_REVOKE_V1''"
  by (simp_all add: no_null_def)

lemma no_null_upper_fmt_x [simp]: "no_null (map upper_char (fmt_x bs))"
  by (rule no_null_hex) (rule upper_fmt_x_chars)

lemmas payload_simps = SubmitPayload_def TrustPayload_def RevokePayload_def joinNull_nulls Let_def

lemma TrustPayload_inject:
  assumes "no_null h" "no_null fp" "no_null h'" "no_null fp'"
  shows "TrustPayload h fp t = TrustPayload h' fp' t' \<longleftrightarrow> h = h' \<and> fp = fp' \<and> t = t'"
  using assms by (simp add: payload_simps append_null_inject fmt_d_inject sint_inject)

lemma SubmitPayload_inject:
  assumes "no_null fp" "no_null fp'"
  shows "SubmitPayload L fp k t = SubmitPayload L fp' k' t' \<longleftrightarrow>
    fp = fp' \<and> Sum256 L k = Sum256 L k' \<and> t = t'"
  using assms by (auto simp: payload_simps append_null_inject fmt_d_inject sint_inject upper_fmt_x_inject)

lemma RevokePayload_inject:
  assumes "no_null h" "no_null fp" "no_null h'" "no_null fp'"
  shows "RevokePayload fp h = RevokePayload fp' h' \<longleftrightarrow> fp = fp' \<and> h = h'"
  using assms by (simp add: payload_simps append_null_inject)

text \<open>
  The three kinds of payload never agree, whatever the fields hold: the tag is followed by
  a null byte, and no tag is a prefix of another.
\<close>

lemma payload_tags:
  "SubmitPayload L fp k t \<noteq> TrustPayload h s t'"
  "SubmitPayload L fp k t \<noteq> RevokePayload fp' h'"
  "TrustPayload h s t' \<noteq> RevokePayload fp' h'"
  by (simp_all add: payload_simps)

lemma Sign_verifies:
  assumes "Sign L now payload priv = Inr sig"
    and "armorDecode L priv = Inr body" and "readEntityPackets L body = Inr el"
    and "detachSign L now el payload = Inr bytes"
    and "readEntity L pub = Inr el'"
    and "checkDetachedSignature L el' payload bytes (now' + 60 * second) = None"
  shows "VerifyDetachedSig L now' payload sig pub"
  using assms by (auto simp: Sign_def VerifyDetachedSig_def DecodeString_Encode)

section \<open>A toy instance of the libraries\<close>

text \<open>
  An instance at which the properties can be evaluated: a key is its own armor, its body is
  its fingerprint, and a signature is the signer's fingerprint followed by what is signed.
\<close>

definition sample_lib :: lib where
  "sample_lib =
     \<lparr>uToUpper = (\<lambda>s. s), uToLower = (\<lambda>s. s), uTrimSpace = (\<lambda>s. s), uEqualFold = (=),
      Sum256 = (\<lambda>s. s), armorDecode = Inr,
      readEntityPackets =
        (\<lambda>b. if b = [] then Inl ''EOF''
             else Inr \<lparr>eFingerprint = b, eIdentities = [b @ ''@example.org''],
                       eAlgo = PubKeyAlgoOther 22, eBitLength = Inr 256\<rparr>),
      detachSign = (\<lambda>now el payload. Inr (eFingerprint el @ payload)),
      checkDetachedSignature =
        (\<lambda>el payload sig now. if sig = eFingerprint el @ payload then None else Some ''bad signature''),
      floatOut = (\<lambda>m e. 0),
      urlParse = (\<lambda>u. if HasPrefix u ''http://'' then Some (''http'', drop 7 u) else None),
      parseIP = (\<lambda>s. if length s = 4 then Some (map byte s) else None)\<rparr>"

section \<open>Properties\<close>

text \<open>
  The strength policy: a key is accepted exactly when it can be read and is no RSA key
  below 2048 bits, no DSA key of 1024 bits or less, and (for these two) has a known length.
\<close>

lemma key_strength_policy:
  "CheckKeyStrength L armored = None \<longleftrightarrow>
     (\<exists>el. readEntity L armored = Inr el \<and>
       (eAlgo el \<in> {PubKeyAlgoRSA, PubKeyAlgoRSASignOnly, PubKeyAlgoRSAEncryptOnly} \<longrightarrow>
          (\<exists>bits. eBitLength el = Inr bits \<and> bits \<ge> 2048)) \<and>
       (eAlgo el = PubKeyAlgoDSA \<longrightarrow> (\<exists>bits. eBitLength el = Inr bits \<and> bits > 1024)))"
proof -
  have "strong_key el \<longleftrightarrow>
      (eAlgo el \<in> {PubKeyAlgoRSA, PubKeyAlgoRSASignOnly, PubKeyAlgoRSAEncryptOnly} \<longrightarrow>
          (\<exists>bits. eBitLength el = Inr bits \<and> bits \<ge> 2048)) \<and>
      (eAlgo el = PubKeyAlgoDSA \<longrightarrow> (\<exists>bits. eBitLength el = Inr bits \<and> bits > 1024))" for el
    by (cases "eAlgo el") (simp_all add: strong_key_def)
  then show ?thesis by (simp only: CheckKeyStrength_iff)
qed

lemma key_strength_policy_witness:
  "CheckKeyStrength (sample_lib\<lparr>readEntityPackets := \<lambda>b.
      Inr \<lparr>eFingerprint = b, eIdentities = [], eAlgo = PubKeyAlgoDSA, eBitLength = Inr 1024\<rparr>\<rparr>) ''k'' \<noteq> None"
  unfolding key_strength_policy by (simp add: readEntity_def sample_lib_def)

text \<open>
  C40.  The domains of a key are exactly those of its user IDs, in lower case and each once.
  The domain of a user ID is what follows the last \<open>@\<close> in the first \<open><...@...>\<close> in it, and
  when there is none, what follows the \<open>@\<close> if all of it (but surrounding space) is one
  address, \<open>local@domain\<close>, with no second \<open>@\<close> and no space; any other user ID adds nothing.
\<close>

theorem email_domains_exact:
  "distinct (ExtractEmailDomains L uids) \<and>
   (d \<in> set (ExtractEmailDomains L uids) \<longleftrightarrow> d \<noteq> [] \<and>
      (\<exists>uid \<in> set uids. \<exists>x. d = ToLower L x \<and>
         (if \<exists>y. bracket_group uid y then bracket_group uid x else bare_group (TrimSpace L uid) x)))"
proof -
  have uid: "uid_domain L uid = d \<longleftrightarrow> (\<exists>x. d = ToLower L x \<and>
      (if \<exists>y. bracket_group uid y then bracket_group uid x else bare_group (TrimSpace L uid) x))"
    if "d \<noteq> []" for uid
  proof (cases "bracketed uid")
    case None
    then have "\<not> bracket_group uid y" for y by (simp flip: bracketed_iff)
    then show ?thesis using that None
      by (cases "bare (TrimSpace L uid)") (auto simp: uid_domain_def simp flip: bare_Some_iff)
  next
    case (Some y)
    then have "bracket_group uid x \<longleftrightarrow> x = y" for x by (auto simp flip: bracketed_iff)
    then show ?thesis using Some by (auto simp: uid_domain_def)
  qed
  have "d \<in> set (ExtractEmailDomains L uids) \<longleftrightarrow> d \<noteq> [] \<and> (\<exists>uid \<in> set uids. uid_domain L uid = d)"
    by (auto simp: ExtractEmailDomains_set)
  then show ?thesis using uid ExtractEmailDomains_distinct by (cases "d = []") simp_all
qed

theorem email_domains_exact_witness:
  "set (ExtractEmailDomains sample_lib [''Alice <alice@Example.org>'', ''bob@example.com'', ''nobody'']) =
     {''example.org'', ''example.com''}"
proof -
  let ?uids = "[''Alice <alice@Example.org>'', ''bob@example.com'', ''nobody'']"
  have groups: "bracket_group uid x \<longleftrightarrow> bracketed uid = Some x" "bare_group s x \<longleftrightarrow> bare s = Some x" for uid s x
    by (simp_all add: bracketed_iff bare_Some_iff)
  have "bracketed ''Alice <alice@Example.org>'' = Some ''Example.org''" "bracketed ''bob@example.com'' = None"
    "bare (TrimSpace sample_lib ''bob@example.com'') = Some ''example.com''" "bracketed ''nobody'' = None"
    "bare (TrimSpace sample_lib ''nobody'') = None" "ToLower sample_lib ''Example.org'' = ''example.org''"
    "ToLower sample_lib ''example.com'' = ''example.com''" by code_simp+
  then have "d \<in> set (ExtractEmailDomains sample_lib ?uids) \<longleftrightarrow> d = ''example.org'' \<or> d = ''example.com''" for d
    using email_domains_exact [of sample_lib ?uids d] by (auto simp: groups)
  then show ?thesis by blast
qed

text \<open>
  C39.  Payload separation.  A trust, a submit and a revoke payload are never equal, and
  each determines its fields: a signature over one statement is a signature over no other.
\<close>

theorem payloads_separated:
  assumes "no_null h" "no_null fp" "no_null h'" "no_null fp'"
  shows "(TrustPayload h fp t = TrustPayload h' fp' t' \<longleftrightarrow> h = h' \<and> fp = fp' \<and> t = t') \<and>
    (SubmitPayload L fp k t = SubmitPayload L fp' k' t' \<longleftrightarrow>
       fp = fp' \<and> Sum256 L k = Sum256 L k' \<and> t = t') \<and>
    (RevokePayload fp h = RevokePayload fp' h' \<longleftrightarrow> fp = fp' \<and> h = h') \<and>
    SubmitPayload L fp k t \<noteq> TrustPayload h' fp' t' \<and>
    SubmitPayload L fp k t \<noteq> RevokePayload fp' h' \<and>
    TrustPayload h fp t \<noteq> RevokePayload fp' h'"
  using assms by (simp add: TrustPayload_inject SubmitPayload_inject RevokePayload_inject payload_tags)

theorem payloads_separated_witness:
  "TrustPayload ''H'' ''A'' 1 \<noteq> TrustPayload ''H'' ''A'' 2 \<and>
   SubmitPayload sample_lib ''A'' ''k'' 1 \<noteq> SubmitPayload sample_lib ''A'' ''j'' 1"
  using payloads_separated [of "''H''" "''A''" "''H''" "''A''" 1 2 sample_lib "''k''" "''j''"]
    payloads_separated [of "''H''" "''A''" "''H''" "''A''" 1 1 sample_lib "''k''" "''j''"]
  by (simp add: no_null_def sample_lib_def)

text \<open>
  Round trip: whatever \<open>Sign\<close> returns is accepted by \<open>VerifyDetachedSig\<close> on the same
  payload under the public key, when the library verifies at the verifier's clock, 60
  seconds ahead, what it signed; Base64 returns the very bytes that were signed.
\<close>

lemma sign_then_verify:
  assumes "Sign L now payload priv = Inr sig"
    and "readEntity L pub = Inr el'"
    and "\<And>body el bytes. armorDecode L priv = Inr body \<Longrightarrow> readEntityPackets L body = Inr el \<Longrightarrow>
      detachSign L now el payload = Inr bytes \<Longrightarrow>
      checkDetachedSignature L el' payload bytes (now' + 60 * second) = None"
  shows "VerifyDetachedSig L now' payload sig pub"
proof -
  from assms(1) obtain body el bytes where "armorDecode L priv = Inr body"
    "readEntityPackets L body = Inr el" "detachSign L now el payload = Inr bytes"
    by (auto simp: Sign_def split: sum.splits)
  with assms show ?thesis by (blast intro: Sign_verifies)
qed

lemma sign_then_verify_witness:
  "VerifyDetachedSig sample_lib 5 ''m'' (EncodeToString ''Am'') ''A''"
  by (rule sign_then_verify [where now = 0 and priv = "''A''" and
        el' = "\<lparr>eFingerprint = ''A'', eIdentities = [''A@example.org''], eAlgo = PubKeyAlgoOther 22,
                eBitLength = Inr 256\<rparr>"])
    (auto simp: Sign_def readEntity_def sample_lib_def)

end
