(* ===== verification/Json.thy ===== *)
theory Json
  imports Gpg
begin

text \<open>
  JSON values as the Go code handles them: a value of type \<open>any\<close> that \<open>encoding/json\<close>
  decoded, or that the code built to be encoded.  A decoded object is a
  \<open>map[string]any\<close>, a decoded number a \<open>float64\<close>.  A \<open>float64\<close> is kept as mantissa and
  binary exponent.  The helpers of \<open>internal/api/api.go\<close> and \<open>internal/p2p/p2p.go\<close> that read
  and write such values follow, and \<open>wire\<close>, what a value is after it was encoded by one
  node and decoded by another.
\<close>

section \<open>Values\<close>

datatype any =
    ANil
  | ABool bool
  | AFloat int int
  | AInt64 int64
  | AInt int64
  | AStr string
  | AArr "any list"
  | AObj "(string \<times> any) list"

text \<open>A failed comma-ok assertion leaves the zero value; reading a missing key gives nil.\<close>

definition get :: "(string, any) gomap \<Rightarrow> string \<Rightarrow> any" where
  "get m key = (case mget m key of None \<Rightarrow> ANil | Some v \<Rightarrow> v)"

fun as_string :: "any \<Rightarrow> string" where
  "as_string (AStr s) = s"
| "as_string _ = []"

definition getString :: "(string, any) gomap \<Rightarrow> string \<Rightarrow> string" where
  "getString m key = as_string (get m key)"

text \<open>Conversion of a \<open>float64\<close> to \<open>int64\<close>: truncation toward zero.\<close>

definition float_trunc :: "int \<Rightarrow> int \<Rightarrow> int" where
  "float_trunc m e = (if e \<ge> 0 then m * 2 ^ nat e else sgn m * (\<bar>m\<bar> div 2 ^ nat (- e)))"

definition float_to_int64 :: "lib \<Rightarrow> int \<Rightarrow> int \<Rightarrow> int64" where
  "float_to_int64 L m e =
     (let i = float_trunc m e in
      if - (2 ^ 63) \<le> i \<and> i < 2 ^ 63 then word_of_int i else floatOut L m e)"

fun toInt64 :: "lib \<Rightarrow> any \<Rightarrow> int64 \<times> bool" where
  "toInt64 L (AInt64 x) = (x, True)"
| "toInt64 L (AFloat m e) = (float_to_int64 L m e, True)"
| "toInt64 L (AInt x) = (x, True)"
| "toInt64 L _ = (0, False)"

definition getInt64 :: "lib \<Rightarrow> (string, any) gomap \<Rightarrow> string \<Rightarrow> int64 \<times> bool" where
  "getInt64 L m key =
     (case get m key of
        AFloat mt e \<Rightarrow> (float_to_int64 L mt e, True)
      | AInt64 x \<Rightarrow> (x, True)
      | AInt x \<Rightarrow> (x, True)
      | _ \<Rightarrow> (0, False))"

lemma getInt64_toInt64: "getInt64 L m key = toInt64 L (get m key)"
  by (cases "get m key") (simp_all add: getInt64_def)

section \<open>Blocks and entries as JSON\<close>

text \<open>A slice of strings; the slices of the code that have no elements are nil.\<close>

definition strings_any :: "string list \<Rightarrow> any" where
  "strings_any xs = (if xs = [] then ANil else AArr (map AStr xs))"

definition sigEntryToMap :: "SigEntry \<Rightarrow> any" where
  "sigEntryToMap e =
     AObj ([(''hash'', AStr (seHash e)), (''prev_hash'', AStr (sePrevHash e)),
        (''signer_fingerprint'', AStr (seSigner e)), (''sig'', AStr (seSig e)),
        (''timestamp'', AInt64 (seTimestamp e))] @
       (if seSignerKey e \<noteq> [] then [(''signer_armored_key'', AStr (seSignerKey e))] else []) @
       (if seSourceNode e \<noteq> [] then [(''source_node'', AStr (seSourceNode e))] else []))"

definition blockToMap :: "Block \<Rightarrow> any" where
  "blockToMap b =
     AObj [(''hash'', AStr (bHash b)), (''fingerprint'', AStr (bFingerprint b)),
        (''armored_key'', AStr (bArmoredKey b)), (''uids'', strings_any (bUIDs b)),
        (''submit_timestamp'', AInt64 (bSubmitTimestamp b)), (''self_sig'', AStr (bSelfSig b)),
        (''sig_chain_head'', AStr (bSigChainHead b)),
        (''sig_chain'', AArr (map sigEntryToMap (bSigEntries b))),
        (''revoked'', ABool (bRevoked b)), (''revocation_sig'', AStr (bRevocationSig b))]"

section \<open>Bodies\<close>

text \<open>
  Decoding a body, \<open>None\<close> when it holds no JSON value: into a \<open>map[string]any\<close>, where JSON
  \<open>null\<close> leaves the map nil and any other value is an error, and into a \<open>map[string]string\<close>,
  where an element that is no string leaves an empty string and, unless it is \<open>null\<close>, an
  error.  The second component tells whether there was an error.
\<close>

fun decode_map :: "any option \<Rightarrow> (string, any) gomap option" where
  "decode_map (Some (AObj m)) = Some m"
| "decode_map (Some ANil) = Some []"
| "decode_map _ = None"

fun bad_string :: "any \<Rightarrow> bool" where
  "bad_string ANil = False"
| "bad_string (AStr s) = False"
| "bad_string _ = True"

fun decode_string_map :: "any option \<Rightarrow> (string, string) gomap \<times> bool" where
  "decode_string_map (Some (AObj m)) =
     (map (\<lambda>(k, v). (k, as_string v)) m, list_ex (\<lambda>(k, v). bad_string v) m)"
| "decode_string_map (Some ANil) = ([], False)"
| "decode_string_map _ = ([], True)"

section \<open>From one node to another\<close>

fun bit_len :: "nat \<Rightarrow> nat" where
  "bit_len n = (if n = 0 then 0 else Suc (bit_len (n div 2)))"

declare bit_len.simps [simp del]

text \<open>An integer read back as a \<open>float64\<close>: the nearest one, ties to even.\<close>

definition float_of_int :: "int \<Rightarrow> any" where
  "float_of_int n =
     (let a = nat \<bar>n\<bar>; s = bit_len a - 53; q = a div 2 ^ s; r = a mod 2 ^ s;
          up = (s > 0 \<and> (2 * r > 2 ^ s \<or> 2 * r = 2 ^ s \<and> odd q)) in
      AFloat (sgn n * int (if up then q + 1 else q)) (int s))"

fun wire :: "any \<Rightarrow> any" where
  "wire ANil = ANil"
| "wire (ABool b) = ABool b"
| "wire (AFloat m e) = AFloat m e"
| "wire (AInt64 x) = float_of_int (sint x)"
| "wire (AInt x) = float_of_int (sint x)"
| "wire (AStr s) = AStr (utf8_fix s)"
| "wire (AArr xs) = AArr (map wire xs)"
| "wire (AObj m) = AObj (map (\<lambda>(k, v). (utf8_fix k, wire v)) m)"

lemma bit_len_le: "n < 2 ^ k \<Longrightarrow> bit_len n \<le> k"
proof (induction k arbitrary: n)
  case 0
  then show ?case by (simp add: bit_len.simps)
next
  case (Suc k)
  have "bit_len (n div 2) \<le> k" by (rule Suc.IH) (use Suc.prems in simp)
  then show ?case by (subst bit_len.simps) simp
qed

lemma float_of_int_exact:
  assumes "\<bar>n\<bar> < 2 ^ 53" shows "float_of_int n = AFloat n 0"
proof -
  have "nat \<bar>n\<bar> < 2 ^ 53" using assms by (simp add: nat_less_iff)
  then have "bit_len (nat \<bar>n\<bar>) - 53 = 0" using bit_len_le by fastforce
  moreover have "sgn n * int (nat \<bar>n\<bar>) = n" by (simp add: sgn_mult_abs)
  ultimately show ?thesis by (simp add: float_of_int_def Let_def)
qed

lemma toInt64_wire:
  assumes "\<bar>sint t\<bar> < 2 ^ 53" shows "toInt64 L (wire (AInt64 t)) = (t, True)"
proof -
  from assms have "- (2 ^ 63) \<le> sint t" "sint t < 2 ^ 63" by (simp_all add: abs_less_iff)
  then show ?thesis using assms by (simp add: float_of_int_exact float_to_int64_def float_trunc_def Let_def)
qed

lemma get_simps [simp]:
  "get [] k = ANil" "get ((k', v) # m) k = (if k' = k then v else get m k)"
  by (simp_all add: get_def mget_def)

lemma as_string_wire: "ascii s \<Longrightarrow> as_string (wire (AStr s)) = s"
  by (simp add: utf8_fix_ascii)

end
