(* ===== verification/Store.thy ===== *)
theory Store
  imports Chain
begin

text \<open>
  The package \<open>store\<close>: the interface \<open>Store\<close> (\<open>internal/store/store.go\<close>), its contract,
  and the in-memory implementation (\<open>internal/store/memory.go\<close>).

  A value of the Go interface type is a record of operations on a store state.  The
  operations the code calls through it, \<open>cfg.Store.Get\<close> and so on, are its fields, so the
  components above are written once for every implementation, one that fails included.
  A read may also fail to return, as that of the database does when the hashes of the
  entries form a cycle: it then has no result at all, not even an error (\<open>None\<close>).

  \<open>MemoryStore\<close> copies the block and its slice of entries on the way in and on the way
  out, and no code writes to an entry once it is stored, so blocks are plain values here.
  The mutex serialises the operations; each is one step.
\<close>

section \<open>The interface\<close>

datatype store_error =
    BlockExists string | BlockNotFound string | InsertBlock | InsertSigEntry

record 's store_ops =
  opAdd :: "Block \<Rightarrow> 's \<Rightarrow> store_error option \<times> 's"
  opGet :: "string \<Rightarrow> 's \<Rightarrow> (store_error + Block option) option"
  opAll :: "'s \<Rightarrow> (store_error + Block list) option"
  opAddSig :: "string \<Rightarrow> SigEntry \<Rightarrow> 's \<Rightarrow> store_error option \<times> 's"
  opRevoke :: "string \<Rightarrow> string \<Rightarrow> 's \<Rightarrow> store_error option \<times> 's"
  opHashes :: "'s \<Rightarrow> store_error + (string, string) gomap"

section \<open>MemoryStore\<close>

type_synonym MemoryStore = "(string, Block) gomap"

definition NewMemoryStore :: MemoryStore where
  "NewMemoryStore = []"

definition mem_Add :: "Block \<Rightarrow> MemoryStore \<Rightarrow> store_error option \<times> MemoryStore" where
  "mem_Add block m =
     (case mget m (bFingerprint block) of
        Some _ \<Rightarrow> (Some (BlockExists (bFingerprint block)), m)
      | None \<Rightarrow> (None, mset_key (bFingerprint block) block m))"

definition mem_Get :: "string \<Rightarrow> MemoryStore \<Rightarrow> store_error + Block option" where
  "mem_Get fp m = Inr (mget m fp)"

definition mem_All :: "MemoryStore \<Rightarrow> store_error + Block list" where
  "mem_All m = Inr (map snd m)"

definition mem_AddSig ::
    "string \<Rightarrow> SigEntry \<Rightarrow> MemoryStore \<Rightarrow> store_error option \<times> MemoryStore" where
  "mem_AddSig fp entry m =
     (case mget m fp of
        None \<Rightarrow> (Some (BlockNotFound fp), m)
      | Some b \<Rightarrow>
          (None, mset_key fp (b\<lparr>bSigEntries := bSigEntries b @ [entry],
                                bSigChainHead := seHash entry\<rparr>) m))"

definition mem_Revoke :: "string \<Rightarrow> string \<Rightarrow> MemoryStore \<Rightarrow> store_error option \<times> MemoryStore" where
  "mem_Revoke fp sig m =
     (case mget m fp of
        None \<Rightarrow> (Some (BlockNotFound fp), m)
      | Some b \<Rightarrow> (None, mset_key fp (b\<lparr>bRevoked := True, bRevocationSig := sig\<rparr>) m))"

definition mem_Hashes :: "MemoryStore \<Rightarrow> store_error + (string, string) gomap" where
  "mem_Hashes m = Inr (map (\<lambda>(fp, b). (fp, bSigChainHead b)) m)"

definition memory_ops :: "MemoryStore store_ops" where
  "memory_ops = \<lparr>opAdd = mem_Add, opGet = \<lambda>fp m. Some (mem_Get fp m), opAll = \<lambda>m. Some (mem_All m), opAddSig = mem_AddSig,
     opRevoke = mem_Revoke, opHashes = mem_Hashes\<rparr>"

section \<open>The contract\<close>

text \<open>
  What every component above relies on, stated over an abstract ledger (a partial map from
  fingerprints to blocks).  \<open>stored s fp\<close> is the set of all entries recorded for a block,
  those a \<open>Get\<close> does not show included; \<open>norm\<close> is what the store makes of a new block;
  \<open>okE\<close> holds of the entries the contract covers: every entry for the memory store; for
  the database store the entries whose hash ranks above the hash they point at, which is how
  the absence of hash cycles enters (its walk would not return on one).
\<close>

definition new_block :: "Block \<Rightarrow> bool" where
  "new_block b \<longleftrightarrow> bSigEntries b = [] \<and> bSigChainHead b = [] \<and> \<not> bRevoked b \<and> bRevocationSig b = []"

definition with_entry :: "Block \<Rightarrow> SigEntry \<Rightarrow> Block" where
  "with_entry b e = b\<lparr>bSigEntries := bSigEntries b @ [e], bSigChainHead := seHash e\<rparr>"

definition revoked_block :: "Block \<Rightarrow> string \<Rightarrow> Block" where
  "revoked_block b sig = b\<lparr>bRevoked := True, bRevocationSig := sig\<rparr>"

text \<open>The fields that are fixed when a block is submitted.\<close>

abbreviation core :: "Block \<Rightarrow> string \<times> string \<times> string \<times> string list \<times> int64 \<times> string" where
  "core b \<equiv> (bHash b, bFingerprint b, bArmoredKey b, bUIDs b, bSubmitTimestamp b, bSelfSig b)"

text \<open>
  How a ledger may change: no block disappears, the submitted fields of a block never
  change, and a revocation stays with its signature.
\<close>

definition ledger_grows ::
    "(string \<Rightarrow> Block option) \<Rightarrow> (string \<Rightarrow> Block option) \<Rightarrow> bool" where
  "ledger_grows l l' \<longleftrightarrow>
     (\<forall>fp b. l fp = Some b \<longrightarrow>
        (\<exists>b'. l' fp = Some b' \<and> core b' = core b \<and> (bRevoked b \<longrightarrow> bRevoked b')))"

lemma ledger_growsI:
  "(\<And>fp b. l fp = Some b \<Longrightarrow>
      \<exists>b'. l' fp = Some b' \<and> core b' = core b \<and> (bRevoked b \<longrightarrow> bRevoked b')) \<Longrightarrow> ledger_grows l l'"
  by (simp add: ledger_grows_def)

lemma ledger_grows_refl [simp]: "ledger_grows l l"
  by (simp add: ledger_grows_def)

lemma ledger_grows_trans [trans]: "ledger_grows l l' \<Longrightarrow> ledger_grows l' l'' \<Longrightarrow> ledger_grows l l''"
  unfolding ledger_grows_def by (metis (no_types, lifting))

locale store_contract =
  fixes ops :: "'s store_ops"
    and inv :: "'s \<Rightarrow> bool"
    and ledger :: "'s \<Rightarrow> string \<Rightarrow> Block option"
    and stored :: "'s \<Rightarrow> string \<Rightarrow> SigEntry set"
    and norm :: "Block \<Rightarrow> Block"
    and okE :: "SigEntry \<Rightarrow> bool"
  assumes norm_uids: "norm b = b\<lparr>bUIDs := bUIDs (norm b)\<rparr>"
    and key: "inv s \<Longrightarrow> ledger s fp = Some b \<Longrightarrow> bFingerprint b = fp"
    and visible: "inv s \<Longrightarrow> ledger s fp = Some b \<Longrightarrow> set (bSigEntries b) \<subseteq> stored s fp"
    and unstored: "inv s \<Longrightarrow> ledger s fp = None \<Longrightarrow> stored s fp = {}"
    and Get: "inv s \<Longrightarrow> opGet ops fp s = Some (Inr (ledger s fp))"
    and All: "inv s \<Longrightarrow> \<exists>bs. opAll ops s = Some (Inr bs) \<and> distinct (map bFingerprint bs) \<and>
      (\<forall>b. b \<in> set bs \<longleftrightarrow> ledger s (bFingerprint b) = Some b)"
    and Hashes: "inv s \<Longrightarrow> \<exists>hs. opHashes ops s = Inr hs \<and> is_gomap hs \<and>
      (\<forall>fp. mget hs fp = map_option bSigChainHead (ledger s fp))"
    and Add_dup: "inv s \<Longrightarrow> ledger s (bFingerprint b) \<noteq> None \<Longrightarrow> \<exists>r. opAdd ops b s = (Some r, s)"
    and Add_new: "inv s \<Longrightarrow> ledger s (bFingerprint b) = None \<Longrightarrow>
      (\<forall>fp c. ledger s fp = Some c \<longrightarrow> bHash c \<noteq> bHash b) \<Longrightarrow> fst (opAdd ops b s) = None"
    and Add_err: "inv s \<Longrightarrow> opAdd ops b s = (Some r, s') \<Longrightarrow> s' = s"
    and Add_ok: "inv s \<Longrightarrow> new_block b \<Longrightarrow> opAdd ops b s = (None, s') \<Longrightarrow>
      inv s' \<and> ledger s' = (ledger s)(bFingerprint b \<mapsto> norm b) \<and> stored s' = stored s"
    and AddSig_err: "inv s \<Longrightarrow> ledger s fp = Some b \<Longrightarrow> opAddSig ops fp e s = (Some r, s') \<Longrightarrow> s' = s"
    and AddSig_ok: "inv s \<Longrightarrow> ledger s fp = Some b \<Longrightarrow> okE e \<Longrightarrow>
      opAddSig ops fp e s = (None, s') \<Longrightarrow>
      inv s' \<and> stored s' = (stored s)(fp := insert e (stored s fp)) \<and>
      (\<exists>es. ledger s' = (ledger s)(fp \<mapsto> b\<lparr>bSigEntries := es, bSigChainHead := seHash e\<rparr>))"
    and Revoke: "inv s \<Longrightarrow> ledger s fp = Some b \<Longrightarrow>
      \<exists>s'. opRevoke ops fp sig s = (None, s') \<and> inv s' \<and> stored s' = stored s \<and>
        ledger s' = (ledger s)(fp \<mapsto> revoked_block b sig)"
begin

lemma norm_core:
  "bHash (norm b) = bHash b" "bFingerprint (norm b) = bFingerprint b"
  "bArmoredKey (norm b) = bArmoredKey b" "bSubmitTimestamp (norm b) = bSubmitTimestamp b"
  "bSelfSig (norm b) = bSelfSig b" "bSigChainHead (norm b) = bSigChainHead b"
  "bSigEntries (norm b) = bSigEntries b" "bRevoked (norm b) = bRevoked b"
  "bRevocationSig (norm b) = bRevocationSig b"
  by (subst norm_uids, simp)+

text \<open>Every operation of the contract lets the ledger grow.\<close>

lemma Add_grows:
  assumes "inv s" and "new_block b" and "opAdd ops b s = (r, s')"
  shows "inv s' \<and> ledger_grows (ledger s) (ledger s') \<and> stored s' = stored s"
proof (cases r)
  case None
  have "ledger s (bFingerprint b) = None"
    using assms None Add_dup by (metis option.distinct(1) prod.inject)
  with assms None Add_ok [of s b s'] show ?thesis by (auto intro!: ledger_growsI simp: norm_core)
next
  case (Some e)
  with assms Add_err [of s b e s'] show ?thesis by (auto intro!: ledger_growsI)
qed

lemma AddSig_grows:
  assumes "inv s" and "ledger s fp = Some b" and "okE e"
    and "opAddSig ops fp e s = (r, s')"
  shows "inv s' \<and> ledger_grows (ledger s) (ledger s') \<and>
    (stored s' = stored s \<or> stored s' = (stored s)(fp := insert e (stored s fp)))"
proof (cases r)
  case None
  with assms AddSig_ok [of s fp b e s'] show ?thesis by (auto intro!: ledger_growsI)
next
  case (Some e')
  with assms AddSig_err [of s fp b e e' s'] show ?thesis by (auto intro!: ledger_growsI)
qed

lemma Revoke_grows:
  assumes "inv s" and "ledger s fp = Some b" and "opRevoke ops fp sig s = (r, s')"
  shows "inv s' \<and> ledger_grows (ledger s) (ledger s') \<and> stored s' = stored s"
  using Revoke [OF assms(1,2), of sig] assms(2,3)
  by (auto intro!: ledger_growsI simp: revoked_block_def)

end

text \<open>
  A store in which the entries of some blocks form a straight chain, and that keeps them
  straight as long as new entries are linked to the head.
\<close>

locale linear_store = store_contract ops inv ledger stored norm okE
  for ops :: "'s store_ops" and inv ledger stored norm okE +
  fixes linear :: "'s \<Rightarrow> string \<Rightarrow> bool"
  assumes linear_view: "inv s \<Longrightarrow> linear s fp \<Longrightarrow> ledger s fp = Some b \<Longrightarrow>
      linked (bHash b) (bSigEntries b) \<and> head_ok b \<and> stored s fp = set (bSigEntries b)"
    and linear_Add: "inv s \<Longrightarrow> new_block b \<Longrightarrow> opAdd ops b s = (None, s') \<Longrightarrow>
      linear s' (bFingerprint b) \<and> (\<forall>fp. fp \<noteq> bFingerprint b \<longrightarrow> linear s' fp = linear s fp)"
    and linear_AddSig: "inv s \<Longrightarrow> ledger s fp = Some b \<Longrightarrow> linear s fp \<Longrightarrow>
      sePrevHash e = chain_head (bHash b) (bSigEntries b) \<Longrightarrow> okE e \<Longrightarrow>
      opAddSig ops fp e s = (None, s') \<Longrightarrow> linear s' fp \<and> ledger s' = (ledger s)(fp \<mapsto> with_entry b e)"
    and fresh_AddSig: "inv s \<Longrightarrow> ledger s fp = Some b \<Longrightarrow> linear s fp \<Longrightarrow>
      (\<forall>fp'. \<forall>e' \<in> stored s fp'. seHash e' \<noteq> seHash e) \<Longrightarrow> fst (opAddSig ops fp e s) = None"
    and linear_AddSig_frame: "inv s \<Longrightarrow> ledger s fp = Some b \<Longrightarrow> opAddSig ops fp e s = (r, s') \<Longrightarrow>
      fp' \<noteq> fp \<Longrightarrow> linear s' fp' = linear s fp'"
    and linear_Revoke: "inv s \<Longrightarrow> ledger s fp = Some b \<Longrightarrow> opRevoke ops fp sig s = (r, s') \<Longrightarrow>
      linear s' fp' = linear s fp'"

section \<open>MemoryStore satisfies the contract\<close>

definition mem_inv :: "MemoryStore \<Rightarrow> bool" where
  "mem_inv m \<longleftrightarrow> is_gomap m \<and> (\<forall>(fp, b) \<in> set m. bFingerprint b = fp)"

definition mem_stored :: "MemoryStore \<Rightarrow> string \<Rightarrow> SigEntry set" where
  "mem_stored m fp = (case mget m fp of None \<Rightarrow> {} | Some b \<Rightarrow> set (bSigEntries b))"

definition mem_linear :: "MemoryStore \<Rightarrow> string \<Rightarrow> bool" where
  "mem_linear m fp =
     (case mget m fp of None \<Rightarrow> True | Some b \<Rightarrow> linked (bHash b) (bSigEntries b) \<and> head_ok b)"

lemma mem_inv_get: "mem_inv m \<Longrightarrow> mget m fp = Some b \<Longrightarrow> bFingerprint b = fp"
  by (auto simp: mem_inv_def dest!: mget_SomeD)

lemma mem_inv_put: "mem_inv m \<Longrightarrow> bFingerprint b = fp \<Longrightarrow> mem_inv (mset_key fp b m)"
proof -
  assume m: "mem_inv m" and b: "bFingerprint b = fp"
  then have g: "is_gomap (mset_key fp b m)" by (simp add: mem_inv_def)
  have "bFingerprint c = fp'" if "(fp', c) \<in> set (mset_key fp b m)" for fp' c
  proof -
    from that g have "mget (mset_key fp b m) fp' = Some c" by (simp only: mget_Some_iff)
    with m b show ?thesis by (auto split: if_splits dest: mem_inv_get)
  qed
  with g show ?thesis by (auto simp: mem_inv_def)
qed

lemma mem_All_iff:
  assumes "mem_inv m"
  shows "distinct (map bFingerprint (map snd m))"
    and "b \<in> set (map snd m) \<longleftrightarrow> mget m (bFingerprint b) = Some b"
proof -
  have "map bFingerprint (map snd m) = map fst m"
    using assms by (auto simp: mem_inv_def)
  then show "distinct (map bFingerprint (map snd m))"
    using assms by (simp only: mem_inv_def is_gomap_def)
  show "b \<in> set (map snd m) \<longleftrightarrow> mget m (bFingerprint b) = Some b"
    using assms by (auto simp: mem_inv_def mget_Some_iff intro: rev_image_eqI)
qed

lemma mem_Hashes_iff:
  "mget (map (\<lambda>(fp, b). (fp, bSigChainHead b)) m) fp = map_option bSigChainHead (mget m fp)"
  by (rule mget_map_val)

lemmas mem_defs = memory_ops_def mem_Add_def mem_Get_def mem_All_def mem_AddSig_def mem_Revoke_def
  mem_Hashes_def

interpretation mem: linear_store memory_ops mem_inv mget mem_stored "\<lambda>b. b" "\<lambda>_. True" mem_linear
proof (unfold_locales, goal_cases)
  case (6 s) then show ?case using mem_All_iff [of s] by (simp add: mem_defs)
next
  case (7 s) then show ?case
    by (simp add: mem_defs mem_Hashes_iff mem_inv_def)
next
  case (11 s b s') then show ?case
    by (auto simp: mem_defs mem_stored_def new_block_def mem_inv_put fun_eq_iff split: option.splits if_splits)
qed (auto simp: mem_defs mem_inv_get mem_inv_put mem_stored_def mem_linear_def new_block_def
    revoked_block_def with_entry_def head_ok_def fun_eq_iff split: option.splits if_splits)

end
