(* ===== verification/Peers.thy ===== *)
theory Peers
  imports Json Store
begin

text \<open>
  The state a node keeps beside its store (\<open>internal/p2p/p2p.go\<close>): the list of peers with
  the metadata fetched from them (\<open>PeerList\<close>) and the set of events that were already
  forwarded (the \<open>seen\<close> map of \<open>Gossip\<close>), with the operations on them.  Each operation
  holds its mutex from the first line to the last, so it is one function on the state;
  \<open>PeerNodes\<close> takes its two locks one after the other, so it is two reads.
\<close>

section \<open>PeerList\<close>

record PeerMeta =
  pmDomains :: "string list"
  pmAllowAll :: bool

record PeerList =
  plPeers :: "string list"
  plMaxSize :: int
  plMeta :: "(string, PeerMeta) gomap"

definition NewPeerList :: "int \<Rightarrow> PeerList" where
  "NewPeerList maxSize = \<lparr>plPeers = [], plMaxSize = maxSize, plMeta = []\<rparr>"

definition pl_Add :: "string \<Rightarrow> PeerList \<Rightarrow> error option \<times> PeerList" where
  "pl_Add url p =
     (if list_ex (\<lambda>existing. existing = url) (plPeers p) then (None, p)
      else if int (length (plPeers p)) \<ge> plMaxSize p
      then (Some (''peer list at capacity ('' @ fmt_d (plMaxSize p) @ '')''), p)
      else (None, p\<lparr>plPeers := plPeers p @ [url]\<rparr>))"

definition pl_All :: "PeerList \<Rightarrow> string list" where
  "pl_All p = plPeers p"

definition pl_Contains :: "string \<Rightarrow> PeerList \<Rightarrow> bool" where
  "pl_Contains url p = list_ex (\<lambda>u. u = url) (plPeers p)"

definition pl_Len :: "PeerList \<Rightarrow> int" where
  "pl_Len p = int (length (plPeers p))"

definition SetMeta :: "string \<Rightarrow> PeerMeta \<Rightarrow> PeerList \<Rightarrow> PeerList" where
  "SetMeta url m p = p\<lparr>plMeta := mset_key url m (plMeta p)\<rparr>"

record PeerNode =
  pnURL :: string
  pnDomains :: "string list"
  pnAllowAll :: bool

definition PeerNodes :: "string list \<Rightarrow> PeerList \<Rightarrow> PeerNode list" where
  "PeerNodes peers p =
     map (\<lambda>u. case mget (plMeta p) u of
          None \<Rightarrow> \<lparr>pnURL = u, pnDomains = [], pnAllowAll = False\<rparr>
        | Some m \<Rightarrow> \<lparr>pnURL = u, pnDomains = pmDomains m, pnAllowAll = pmAllowAll m\<rparr>) peers"

text \<open>What the code maintains of the list: no duplicates, never above capacity.\<close>

definition peers_ok :: "PeerList \<Rightarrow> bool" where
  "peers_ok p \<longleftrightarrow> distinct (plPeers p) \<and> int (length (plPeers p)) \<le> max 0 (plMaxSize p)"

lemma peers_ok_New [simp]: "peers_ok (NewPeerList n)"
  by (simp add: peers_ok_def NewPeerList_def)

lemma peers_ok_Add [simp]: "peers_ok p \<Longrightarrow> peers_ok (snd (pl_Add url p))"
  by (auto simp: peers_ok_def pl_Add_def list_ex_iff)

lemma peers_ok_SetMeta [simp]: "peers_ok (SetMeta url m p) = peers_ok p"
  by (simp add: peers_ok_def SetMeta_def)

lemma SetMeta_peers [simp]: "plPeers (SetMeta url m p) = plPeers p"
  by (simp add: SetMeta_def)

lemma pl_Add_peers:
  "plPeers (snd (pl_Add url p)) =
     (if url \<in> set (plPeers p) \<or> int (length (plPeers p)) \<ge> plMaxSize p then plPeers p
      else plPeers p @ [url])"
  by (auto simp: pl_Add_def list_ex_iff)

section \<open>The set of seen events\<close>

type_synonym seen = "(string, int) gomap"

definition seenTTL :: int where
  "seenTTL = 3600 * second"

definition NewGossip :: seen where
  [simp]: "NewGossip = []"

definition isSeen :: "int \<Rightarrow> string \<Rightarrow> seen \<Rightarrow> bool \<times> seen" where
  "isSeen now i seen =
     (case mget seen i of
        None \<Rightarrow> (False, seen)
      | Some at \<Rightarrow> if now - at > seenTTL then (False, mdelete i seen) else (True, seen))"

definition markSeen :: "int \<Rightarrow> string \<Rightarrow> seen \<Rightarrow> seen" where
  "markSeen now i seen = mset_key i now seen"

lemma isSeen_markSeen: "now' - now \<le> seenTTL \<Longrightarrow> isSeen now' i (markSeen now i seen) = (True, markSeen now i seen)"
  by (simp add: isSeen_def markSeen_def)

end
