(* ===== verification/Io.thy ===== *)
theory Io
  imports Peers "HOL-Library.Multiset"
begin

text \<open>
  Programs.  A handler or a goroutine is a value of type \<open>'a io\<close>: a tree whose nodes are the
  calls it makes on what it shares with others (the store, the peer list, the seen set, the
  clock, the network), each with the continuation for the call's result.  A call that holds
  a mutex or runs one transaction is one node, so a scheduler may switch between any two
  nodes and only there.  \<open>Go\<close> is a go statement: it names the goroutine that starts.

  \<open>Panic\<close> is a run-time panic.  \<open>NoFuel\<close> ends a program whose recursion went deeper than
  the bound it was given; the theorems about syncing say how much is enough.  A run that makes
  a read of the store that never returns ends as \<open>Hung\<close>, and a thread that waits for one makes
  no further call: neither is taken for a result, or for an error.

  \<open>run\<close> executes one program with nobody in between, against a network that answers a
  request always the same way; \<open>act\<close> is one call made by a program, against a network that
  may answer anything.
\<close>

section \<open>Programs\<close>

datatype reply = Unreachable | Reply int "any option"

datatype task =
    GossipBlockT Block string
  | GossipSigT string SigEntry string
  | GossipRevokeT string string string
  | PostJSONT string any
  | SyncWithPeerT string
  | FetchMetaT string
  | RegisterSelfT string string

datatype 'a io =
    Ret 'a
  | Panic
  | NoFuel
  | Now "int \<Rightarrow> 'a io"
  | Get string "store_error + Block option \<Rightarrow> 'a io"
  | All "store_error + Block list \<Rightarrow> 'a io"
  | Hashes "store_error + (string, string) gomap \<Rightarrow> 'a io"
  | Add Block "store_error option \<Rightarrow> 'a io"
  | AddSig string SigEntry "store_error option \<Rightarrow> 'a io"
  | Revoke string string "store_error option \<Rightarrow> 'a io"
  | PeersAll "string list \<Rightarrow> 'a io"
  | PeersAdd string "error option \<Rightarrow> 'a io"
  | PeersLen "int \<Rightarrow> 'a io"
  | PeersContains string "bool \<Rightarrow> 'a io"
  | PeersSetMeta string PeerMeta "'a io"
  | PeersMeta "PeerList \<Rightarrow> 'a io"
  | IsSeen string "bool \<Rightarrow> 'a io"
  | MarkSeen string "'a io"
  | Shuffle "string list" "string list \<Rightarrow> 'a io"
  | LookupHost string "string list option \<Rightarrow> 'a io"
  | HttpGet string "reply \<Rightarrow> 'a io"
  | HttpPost string any "reply \<Rightarrow> 'a io"
  | Go task "'a io"

primrec bind :: "'a io \<Rightarrow> ('a \<Rightarrow> 'b io) \<Rightarrow> 'b io" where
  "bind (Ret x) f = f x"
| "bind Panic f = Panic"
| "bind NoFuel f = NoFuel"
| "bind (Now k) f = Now (\<lambda>r. bind (k r) f)"
| "bind (Get fp k) f = Get fp (\<lambda>r. bind (k r) f)"
| "bind (All k) f = All (\<lambda>r. bind (k r) f)"
| "bind (Hashes k) f = Hashes (\<lambda>r. bind (k r) f)"
| "bind (Add b k) f = Add b (\<lambda>r. bind (k r) f)"
| "bind (AddSig fp e k) f = AddSig fp e (\<lambda>r. bind (k r) f)"
| "bind (Revoke fp sig k) f = Revoke fp sig (\<lambda>r. bind (k r) f)"
| "bind (PeersAll k) f = PeersAll (\<lambda>r. bind (k r) f)"
| "bind (PeersAdd url k) f = PeersAdd url (\<lambda>r. bind (k r) f)"
| "bind (PeersLen k) f = PeersLen (\<lambda>r. bind (k r) f)"
| "bind (PeersContains url k) f = PeersContains url (\<lambda>r. bind (k r) f)"
| "bind (PeersSetMeta url m p) f = PeersSetMeta url m (bind p f)"
| "bind (PeersMeta k) f = PeersMeta (\<lambda>r. bind (k r) f)"
| "bind (IsSeen i k) f = IsSeen i (\<lambda>r. bind (k r) f)"
| "bind (MarkSeen i p) f = MarkSeen i (bind p f)"
| "bind (Shuffle xs k) f = Shuffle xs (\<lambda>r. bind (k r) f)"
| "bind (LookupHost h k) f = LookupHost h (\<lambda>r. bind (k r) f)"
| "bind (HttpGet url k) f = HttpGet url (\<lambda>r. bind (k r) f)"
| "bind (HttpPost url body k) f = HttpPost url body (\<lambda>r. bind (k r) f)"
| "bind (Go t p) f = Go t (bind p f)"

fun go_all :: "task list \<Rightarrow> unit io" where
  "go_all [] = Ret ()"
| "go_all (t # ts) = Go t (go_all ts)"

section \<open>The shared state and sequential runs\<close>

record 's node =
  nStore :: 's
  nPeers :: PeerList
  nSeen :: seen
  nClock :: int
  nGos :: "task list"
  nSent :: "(string \<times> any) list"

record world =
  wGet :: "string \<Rightarrow> reply"
  wPost :: "string \<Rightarrow> any \<Rightarrow> reply"
  wLookup :: "string \<Rightarrow> string list option"
  wShuffle :: "string list \<Rightarrow> string list"

datatype 'a outcome = Done 'a | Panicked | OutOfFuel | Hung

primrec run :: "'s store_ops \<Rightarrow> world \<Rightarrow> 'a io \<Rightarrow> 's node \<Rightarrow> 'a outcome \<times> 's node" where
  "run ops w (Ret x) s = (Done x, s)"
| "run ops w Panic s = (Panicked, s)"
| "run ops w NoFuel s = (OutOfFuel, s)"
| "run ops w (Now k) s = run ops w (k (nClock s)) s"
| "run ops w (Get fp k) s =
     (case opGet ops fp (nStore s) of None \<Rightarrow> (Hung, s) | Some r \<Rightarrow> run ops w (k r) s)"
| "run ops w (All k) s =
     (case opAll ops (nStore s) of None \<Rightarrow> (Hung, s) | Some r \<Rightarrow> run ops w (k r) s)"
| "run ops w (Hashes k) s = run ops w (k (opHashes ops (nStore s))) s"
| "run ops w (Add b k) s =
     (let (r, st) = opAdd ops b (nStore s) in run ops w (k r) (s\<lparr>nStore := st\<rparr>))"
| "run ops w (AddSig fp e k) s =
     (let (r, st) = opAddSig ops fp e (nStore s) in run ops w (k r) (s\<lparr>nStore := st\<rparr>))"
| "run ops w (Revoke fp sig k) s =
     (let (r, st) = opRevoke ops fp sig (nStore s) in run ops w (k r) (s\<lparr>nStore := st\<rparr>))"
| "run ops w (PeersAll k) s = run ops w (k (pl_All (nPeers s))) s"
| "run ops w (PeersAdd url k) s =
     (let (r, p) = pl_Add url (nPeers s) in run ops w (k r) (s\<lparr>nPeers := p\<rparr>))"
| "run ops w (PeersLen k) s = run ops w (k (pl_Len (nPeers s))) s"
| "run ops w (PeersContains url k) s = run ops w (k (pl_Contains url (nPeers s))) s"
| "run ops w (PeersSetMeta url m p) s = run ops w p (s\<lparr>nPeers := SetMeta url m (nPeers s)\<rparr>)"
| "run ops w (PeersMeta k) s = run ops w (k (nPeers s)) s"
| "run ops w (IsSeen i k) s =
     (let (r, sn) = isSeen (nClock s) i (nSeen s) in run ops w (k r) (s\<lparr>nSeen := sn\<rparr>))"
| "run ops w (MarkSeen i p) s = run ops w p (s\<lparr>nSeen := markSeen (nClock s) i (nSeen s)\<rparr>)"
| "run ops w (Shuffle xs k) s = run ops w (k (wShuffle w xs)) s"
| "run ops w (LookupHost h k) s = run ops w (k (wLookup w h)) s"
| "run ops w (HttpGet url k) s = run ops w (k (wGet w url)) s"
| "run ops w (HttpPost url body k) s =
     run ops w (k (wPost w url body)) (s\<lparr>nSent := nSent s @ [(url, body)]\<rparr>)"
| "run ops w (Go t p) s = run ops w p (s\<lparr>nGos := nGos s @ [t]\<rparr>)"

lemma run_bind:
  "run ops w (bind p f) s =
     (case run ops w p s of
        (Done x, s') \<Rightarrow> run ops w (f x) s'
      | (Panicked, s') \<Rightarrow> (Panicked, s')
      | (OutOfFuel, s') \<Rightarrow> (OutOfFuel, s')
      | (Hung, s') \<Rightarrow> (Hung, s'))"
  by (induction p arbitrary: s) (simp_all add: Let_def split: prod.splits option.splits)

lemma run_go_all [simp]: "run ops w (go_all ts) s = (Done (), s\<lparr>nGos := nGos s @ ts\<rparr>)"
  by (induction ts arbitrary: s) simp_all

section \<open>One call\<close>

text \<open>
  \<open>act ops p s p' s'\<close>: the program \<open>p\<close> makes its next call in state \<open>s\<close>.  What comes from
  the network, a name server or the shuffle is unconstrained (a shuffle permutes).
\<close>

inductive act :: "'s store_ops \<Rightarrow> 'a io \<Rightarrow> 's node \<Rightarrow> 'a io \<Rightarrow> 's node \<Rightarrow> bool"
  for ops :: "'s store_ops" where
  Now: "act ops (Now k) s (k (nClock s)) s"
| Get: "opGet ops fp (nStore s) = Some r \<Longrightarrow> act ops (Get fp k) s (k r) s"
| All: "opAll ops (nStore s) = Some r \<Longrightarrow> act ops (All k) s (k r) s"
| Hashes: "act ops (Hashes k) s (k (opHashes ops (nStore s))) s"
| Add: "opAdd ops b (nStore s) = (r, st) \<Longrightarrow> act ops (Add b k) s (k r) (s\<lparr>nStore := st\<rparr>)"
| AddSig: "opAddSig ops fp e (nStore s) = (r, st) \<Longrightarrow> act ops (AddSig fp e k) s (k r) (s\<lparr>nStore := st\<rparr>)"
| Revoke: "opRevoke ops fp sig (nStore s) = (r, st) \<Longrightarrow> act ops (Revoke fp sig k) s (k r) (s\<lparr>nStore := st\<rparr>)"
| PeersAll: "act ops (PeersAll k) s (k (pl_All (nPeers s))) s"
| PeersAdd: "pl_Add url (nPeers s) = (r, p) \<Longrightarrow> act ops (PeersAdd url k) s (k r) (s\<lparr>nPeers := p\<rparr>)"
| PeersLen: "act ops (PeersLen k) s (k (pl_Len (nPeers s))) s"
| PeersContains: "act ops (PeersContains url k) s (k (pl_Contains url (nPeers s))) s"
| PeersSetMeta: "act ops (PeersSetMeta url m p) s p (s\<lparr>nPeers := SetMeta url m (nPeers s)\<rparr>)"
| PeersMeta: "act ops (PeersMeta k) s (k (nPeers s)) s"
| IsSeen: "isSeen (nClock s) i (nSeen s) = (r, sn) \<Longrightarrow> act ops (IsSeen i k) s (k r) (s\<lparr>nSeen := sn\<rparr>)"
| MarkSeen: "act ops (MarkSeen i p) s p (s\<lparr>nSeen := markSeen (nClock s) i (nSeen s)\<rparr>)"
| Shuffle: "mset ys = mset xs \<Longrightarrow> act ops (Shuffle xs k) s (k ys) s"
| LookupHost: "act ops (LookupHost h k) s (k r) s"
| HttpGet: "act ops (HttpGet url k) s (k r) s"
| HttpPost: "act ops (HttpPost url body k) s (k r) (s\<lparr>nSent := nSent s @ [(url, body)]\<rparr>)"
| Go: "act ops (Go t p) s p (s\<lparr>nGos := nGos s @ [t]\<rparr>)"

section \<open>What runs keep\<close>

text \<open>A preorder that every operation of a store follows is followed by every run.\<close>

locale store_preorder =
  fixes ops :: "'s store_ops" and rel :: "'s \<Rightarrow> 's \<Rightarrow> bool"
  assumes refl: "rel s s"
    and trans: "rel s s' \<Longrightarrow> rel s' s'' \<Longrightarrow> rel s s''"
    and Add_rel: "opAdd ops b s = (r, s') \<Longrightarrow> rel s s'"
    and AddSig_rel: "opAddSig ops fp e s = (r, s') \<Longrightarrow> rel s s'"
    and Revoke_rel: "opRevoke ops fp sig s = (r, s') \<Longrightarrow> rel s s'"
begin

lemma run_rel: "rel (nStore s) (nStore (snd (run ops w p s)))"
proof (induction p arbitrary: s)
  case (Add b k)
  obtain r st where op: "opAdd ops b (nStore s) = (r, st)" by fastforce
  with Add.IH [OF rangeI, of "s\<lparr>nStore := st\<rparr>" r] trans [OF Add_rel [OF op]] show ?case by simp
next
  case (AddSig fp e k)
  obtain r st where op: "opAddSig ops fp e (nStore s) = (r, st)" by fastforce
  with AddSig.IH [OF rangeI, of "s\<lparr>nStore := st\<rparr>" r] trans [OF AddSig_rel [OF op]] show ?case by simp
next
  case (Revoke fp sig k)
  obtain r st where op: "opRevoke ops fp sig (nStore s) = (r, st)" by fastforce
  with Revoke.IH [OF rangeI, of "s\<lparr>nStore := st\<rparr>" r] trans [OF Revoke_rel [OF op]] show ?case by simp
next
  case (PeersSetMeta url m q)
  from this [of "s\<lparr>nPeers := SetMeta url m (nPeers s)\<rparr>"] show ?case by simp
next
  case (MarkSeen i q)
  from this [of "s\<lparr>nSeen := markSeen (nClock s) i (nSeen s)\<rparr>"] show ?case by simp
next
  case (Go t q)
  from this [of "s\<lparr>nGos := nGos s @ [t]\<rparr>"] show ?case by simp
next
  case (PeersAdd url k)
  obtain r p where "pl_Add url (nPeers s) = (r, p)" by fastforce
  with PeersAdd.IH [OF rangeI, of "s\<lparr>nPeers := p\<rparr>" r] show ?case by simp
next
  case (IsSeen i k)
  obtain r p where "isSeen (nClock s) i (nSeen s) = (r, p)" by fastforce
  with IsSeen.IH [OF rangeI, of "s\<lparr>nSeen := p\<rparr>" r] show ?case by simp
next
  case (HttpPost url body k)
  from HttpPost.IH [OF rangeI, of "s\<lparr>nSent := nSent s @ [(url, body)]\<rparr>" "wPost w url body"] show ?case by simp
qed (simp_all add: refl split: option.split)

lemma act_rel: "act ops p s p' s' \<Longrightarrow> rel (nStore s) (nStore s')"
  by (cases rule: act.cases, assumption) (auto intro: refl dest: Add_rel AddSig_rel Revoke_rel)

end

text \<open>
  What the memory store never takes back: a block with the fields it was submitted with, the
  entries it has in their order, a revocation.
\<close>

definition mem_grows :: "MemoryStore \<Rightarrow> MemoryStore \<Rightarrow> bool" where
  "mem_grows m m' \<longleftrightarrow>
     (\<forall>fp b. mget m fp = Some b \<longrightarrow>
        (\<exists>b' es. mget m' fp = Some b' \<and> core b' = core b \<and> bSigEntries b' = bSigEntries b @ es \<and>
           (bRevoked b \<longrightarrow> bRevoked b')))"

lemma mem_growsD:
  assumes "mem_grows m m'" and "mget m fp = Some b"
  shows "\<exists>b' es. mget m' fp = Some b' \<and> core b' = core b \<and> bSigEntries b' = bSigEntries b @ es \<and>
    (bRevoked b \<longrightarrow> bRevoked b')"
  using assms unfolding mem_grows_def by blast

lemma mem_grows_trans:
  assumes "mem_grows m m'" and "mem_grows m' m''" shows "mem_grows m m''"
  unfolding mem_grows_def
proof (intro allI impI)
  fix fp b assume "mget m fp = Some b"
  from mem_growsD [OF assms(1) this] obtain b' es where
    b': "mget m' fp = Some b'" "core b' = core b" "bSigEntries b' = bSigEntries b @ es" "bRevoked b \<longrightarrow> bRevoked b'" by blast
  from mem_growsD [OF assms(2) b'(1)] obtain b'' es' where
    "mget m'' fp = Some b''" "core b'' = core b'" "bSigEntries b'' = bSigEntries b' @ es'" "bRevoked b' \<longrightarrow> bRevoked b''" by blast
  with b' show "\<exists>b'' es. mget m'' fp = Some b'' \<and> core b'' = core b \<and> bSigEntries b'' = bSigEntries b @ es \<and>
      (bRevoked b \<longrightarrow> bRevoked b'')" by (intro exI [of _ b''] exI [of _ "es @ es'"]) simp
qed

interpretation grow: store_preorder memory_ops mem_grows
proof (unfold_locales, goal_cases)
  case (2 s s' s'')
  then show ?case by (rule mem_grows_trans)
qed (auto simp: mem_grows_def mem_defs split: option.splits if_splits)

end
