(* ===== verification/P2p.thy ===== *)
theory P2p
  imports Io
begin

text \<open>
  Gossip and synchronisation (\<open>internal/p2p/p2p.go\<close>) as programs over the shared state.

  \<open>fetchAndStoreBlock\<close>, \<open>validateAndStore\<close> and \<open>applySigEntries\<close> call one another: storing a
  fetched block applies its entries, and an entry by an unknown signer fetches the signer's
  block.  The last two take the fetch as an argument; \<open>fetchAndStoreBlock\<close> ties the knot
  with a bound on the depth of the recursion.
\<close>

section \<open>Encoding\<close>

text \<open>The package has its own copies of the handlers' \<open>blockToMap\<close> and \<open>sigEntryToMap\<close>; they agree.\<close>

definition p2p_sigEntryToMap :: "SigEntry \<Rightarrow> any" where
  "p2p_sigEntryToMap e =
     (let m = [(''hash'', AStr (seHash e)), (''prev_hash'', AStr (sePrevHash e)),
        (''signer_fingerprint'', AStr (seSigner e)), (''sig'', AStr (seSig e)), (''timestamp'', AInt64 (seTimestamp e))];
          m = (if seSignerKey e \<noteq> [] then m @ [(''signer_armored_key'', AStr (seSignerKey e))] else m) in
      AObj (if seSourceNode e \<noteq> [] then m @ [(''source_node'', AStr (seSourceNode e))] else m))"

definition p2p_blockToMap :: "Block \<Rightarrow> any" where
  "p2p_blockToMap b =
     (let sigChain = map p2p_sigEntryToMap (bSigEntries b) in
      AObj [(''hash'', AStr (bHash b)), (''fingerprint'', AStr (bFingerprint b)),
        (''armored_key'', AStr (bArmoredKey b)), (''uids'', strings_any (bUIDs b)),
        (''submit_timestamp'', AInt64 (bSubmitTimestamp b)), (''self_sig'', AStr (bSelfSig b)),
        (''sig_chain_head'', AStr (bSigChainHead b)), (''sig_chain'', AArr sigChain),
        (''revoked'', ABool (bRevoked b)), (''revocation_sig'', AStr (bRevocationSig b))])"

lemma p2p_maps [simp]: "p2p_sigEntryToMap = sigEntryToMap" "p2p_blockToMap = blockToMap"
proof -
  show entry: "p2p_sigEntryToMap = sigEntryToMap"
    by (rule ext) (simp add: p2p_sigEntryToMap_def sigEntryToMap_def Let_def)
  show "p2p_blockToMap = blockToMap"
    by (rule ext) (simp add: p2p_blockToMap_def blockToMap_def Let_def entry)
qed

section \<open>Gossip\<close>

definition pickTargets :: "int \<Rightarrow> string \<Rightarrow> string list io" where
  "pickTargets fanout origin =
     PeersAll (\<lambda>all.
       let candidates = filter (\<lambda>p. p \<noteq> origin) all in
       Shuffle candidates (\<lambda>candidates.
         let k = (if fanout > int (length candidates) then int (length candidates) else fanout) in
         if k < 0 then Panic else Ret (take (nat k) candidates)))"

definition GossipBlock :: "int \<Rightarrow> Block \<Rightarrow> string \<Rightarrow> unit io" where
  "GossipBlock fanout block origin =
     IsSeen (bHash block) (\<lambda>seen.
       if seen then Ret ()
       else MarkSeen (bHash block)
         (let body = AObj [(''block'', p2p_blockToMap block)] in
          bind (pickTargets fanout origin)
            (\<lambda>targets. go_all (map (\<lambda>peer. PostJSONT (peer @ ''/p2p/block'') body) targets))))"

definition GossipSig :: "int \<Rightarrow> string \<Rightarrow> SigEntry \<Rightarrow> string \<Rightarrow> unit io" where
  "GossipSig fanout fp entry origin =
     IsSeen (seHash entry) (\<lambda>seen.
       if seen then Ret ()
       else MarkSeen (seHash entry)
         (let body = AObj [(''fingerprint'', AStr fp), (''entry'', p2p_sigEntryToMap entry)] in
          bind (pickTargets fanout origin)
            (\<lambda>targets. go_all (map (\<lambda>peer. PostJSONT (peer @ ''/p2p/sign'') body) targets))))"

definition GossipRevoke :: "int \<Rightarrow> string \<Rightarrow> string \<Rightarrow> string \<Rightarrow> unit io" where
  "GossipRevoke fanout fp revocationSig origin =
     (let eventID = fp @ ''.revoke'' in
      IsSeen eventID (\<lambda>seen.
        if seen then Ret ()
        else MarkSeen eventID
          (let body = AObj [(''fingerprint'', AStr fp), (''revocation_sig'', AStr revocationSig)] in
           bind (pickTargets fanout origin)
             (\<lambda>targets. go_all (map (\<lambda>peer. PostJSONT (peer @ ''/p2p/revoke'') body) targets)))))"

definition postJSON :: "string \<Rightarrow> any \<Rightarrow> unit io" where
  "postJSON url body = HttpPost url body (\<lambda>resp. Ret ())"

section \<open>Synchronisation\<close>

record SyncConfig =
  scDomains :: "string list"
  scAllowAll :: bool

definition domainAllowed :: "string list \<Rightarrow> string list \<Rightarrow> bool" where
  "domainAllowed keyDomains allowList = list_ex (\<lambda>kd. list_ex (\<lambda>a. kd = a) allowList) keyDomains"

text \<open>The block both \<open>validateAndStore\<close> and the handlers build from a submitted key.\<close>

definition make_block :: "lib \<Rightarrow> string \<Rightarrow> string \<Rightarrow> string list \<Rightarrow> int64 \<Rightarrow> string \<Rightarrow> Block" where
  "make_block L fp armoredKey uids ts selfSig =
     \<lparr>bHash = ComputeBlockHash (Sum256 L) fp armoredKey selfSig, bFingerprint = fp,
      bArmoredKey = armoredKey, bUIDs = uids, bSubmitTimestamp = ts, bSelfSig = selfSig,
      bSigChainHead = [], bSigEntries = [], bRevoked = False, bRevocationSig = []\<rparr>"

text \<open>
  One entry of a peer's chain, once the signer's key is known: the tail of the loop body of
  \<open>applySigEntries\<close>.  \<open>skip\<close> is what happens after \<open>continue\<close>, \<open>added\<close> what happens with
  the refreshed block.
\<close>

definition check_entry ::
    "lib \<Rightarrow> string \<Rightarrow> Block \<Rightarrow> (string, any) gomap \<Rightarrow> unit io \<Rightarrow> (Block \<Rightarrow> unit io) \<Rightarrow> string \<Rightarrow> unit io"
where
  "check_entry L fingerprint block eMap skip added signerKey =
     (let signerFP = getString eMap ''signer_fingerprint'';
          sig = getString eMap ''sig'';
          ts = fst (toInt64 L (get eMap ''timestamp''));
          prevHash = getString eMap ''prev_hash'';
          claimedHash = getString eMap ''hash'';
          signerArmoredKey = getString eMap ''signer_armored_key'';
          sourceNode = getString eMap ''source_node'' in
      Now (\<lambda>now.
        let payload = TrustPayload (bHash block) signerFP ts in
        if \<not> VerifyDetachedSig L now payload sig signerKey then skip
        else
          (let computedHash = ComputeSigEntryHash (Sum256 L) prevHash signerFP sig ts in
           if claimedHash \<noteq> [] \<and> claimedHash \<noteq> computedHash then skip
           else
             AddSig fingerprint
               \<lparr>seHash = computedHash, sePrevHash = prevHash, seSigner = signerFP, seSig = sig,
                seTimestamp = ts, seSignerKey = signerArmoredKey, seSourceNode = sourceNode\<rparr> (\<lambda>err.
               case err of
                 Some _ \<Rightarrow> skip
               | None \<Rightarrow> Get fingerprint (\<lambda>r.
                   case drop_err r of None \<Rightarrow> Ret () | Some block' \<Rightarrow> added block')))))"

fun apply_loop ::
    "lib \<Rightarrow> (string \<Rightarrow> string \<Rightarrow> unit io) \<Rightarrow> string \<Rightarrow> string \<Rightarrow> any list \<Rightarrow> Block \<Rightarrow> string set \<Rightarrow> unit io"
where
  "apply_loop L fetch fingerprint fetchBase [] block existing = Ret ()"
| "apply_loop L fetch fingerprint fetchBase (raw # raws) block existing =
     (let skip = apply_loop L fetch fingerprint fetchBase raws block existing in
      case raw of
        AObj eMap \<Rightarrow>
          (let signerFP = getString eMap ''signer_fingerprint'';
               signerArmoredKey = getString eMap ''signer_armored_key'';
               check = check_entry L fingerprint block eMap skip
                 (\<lambda>block'. apply_loop L fetch fingerprint fetchBase raws block' (insert signerFP existing)) in
           if signerFP \<in> existing then skip
           else if signerArmoredKey \<noteq> [] then check signerArmoredKey
           else Get signerFP (\<lambda>r.
             case drop_err r of
               Some signerBlock \<Rightarrow> check (bArmoredKey signerBlock)
             | None \<Rightarrow>
                 if fetchBase \<noteq> [] then
                   bind (fetch fetchBase signerFP) (\<lambda>_. Get signerFP (\<lambda>r.
                     case drop_err r of
                       None \<Rightarrow> skip
                     | Some signerBlock \<Rightarrow> check (bArmoredKey signerBlock)))
                 else skip))
      | _ \<Rightarrow> skip)"

definition applySigEntries ::
    "lib \<Rightarrow> (string \<Rightarrow> string \<Rightarrow> unit io) \<Rightarrow> string \<Rightarrow> any list \<Rightarrow> string \<Rightarrow> unit io" where
  "applySigEntries L fetch fingerprint sigChainRaw fetchBase =
     Get fingerprint (\<lambda>r.
       case drop_err r of
         None \<Rightarrow> Ret ()
       | Some block \<Rightarrow>
           apply_loop L fetch fingerprint fetchBase sigChainRaw block (seSigner ` set (bSigEntries block)))"

definition validateAndStore ::
    "lib \<Rightarrow> SyncConfig \<Rightarrow> (string \<Rightarrow> string \<Rightarrow> unit io) \<Rightarrow> (string, any) gomap \<Rightarrow> string \<Rightarrow> unit io" where
  "validateAndStore L cfg fetch data fetchBase =
     (let armoredKey = getString data ''armored_key'';
          selfSig = getString data ''self_sig'';
          submitTS = fst (toInt64 L (get data ''submit_timestamp'')) in
      case ParseArmoredKey L armoredKey of
        Inl err \<Rightarrow> Ret ()
      | Inr (fp, uids) \<Rightarrow>
          if CheckKeyStrength L armoredKey \<noteq> None then Ret ()
          else if \<not> scAllowAll cfg \<and> \<not> domainAllowed (ExtractEmailDomains L uids) (scDomains cfg) then Ret ()
          else Now (\<lambda>now.
            let payload = SubmitPayload L fp armoredKey submitTS in
            if \<not> VerifyDetachedSig L now payload selfSig armoredKey then Ret ()
            else Get fp (\<lambda>r.
              case drop_err r of
                Some existing \<Rightarrow> Ret ()
              | None \<Rightarrow>
                  Add (make_block L fp armoredKey uids submitTS selfSig) (\<lambda>err.
                    case err of
                      Some _ \<Rightarrow> Ret ()
                    | None \<Rightarrow>
                        (case get data ''sig_chain'' of
                           AArr sigChainRaw \<Rightarrow> applySigEntries L fetch fp sigChainRaw fetchBase
                         | _ \<Rightarrow> Ret ())))))"

primrec fetchAndStoreBlock :: "nat \<Rightarrow> lib \<Rightarrow> SyncConfig \<Rightarrow> string \<Rightarrow> string \<Rightarrow> unit io" where
  "fetchAndStoreBlock 0 L cfg base fingerprint = NoFuel"
| "fetchAndStoreBlock (Suc n) L cfg base fingerprint =
     HttpGet (base @ ''/block/'' @ fingerprint) (\<lambda>resp.
       case resp of
         Unreachable \<Rightarrow> Ret ()
       | Reply status body \<Rightarrow>
           if status \<noteq> 200 then Ret ()
           else (case decode_map body of
              None \<Rightarrow> Ret ()
            | Some data \<Rightarrow> validateAndStore L cfg (fetchAndStoreBlock n L cfg) data base))"

fun fetch_loop :: "nat \<Rightarrow> lib \<Rightarrow> SyncConfig \<Rightarrow> string \<Rightarrow> string list \<Rightarrow> bool io" where
  "fetch_loop n L cfg fingerprint [] = Ret False"
| "fetch_loop n L cfg fingerprint (peerURL # peers) =
     (let base = TrimRightSlash peerURL in
      bind (fetchAndStoreBlock n L cfg base fingerprint) (\<lambda>_.
        Get fingerprint (\<lambda>r.
          case drop_err r of
            Some b \<Rightarrow> Ret True
          | None \<Rightarrow> fetch_loop n L cfg fingerprint peers)))"

definition FetchBlockFromPeers :: "nat \<Rightarrow> lib \<Rightarrow> SyncConfig \<Rightarrow> string \<Rightarrow> bool io" where
  "FetchBlockFromPeers n L cfg fingerprint = PeersAll (\<lambda>peers. fetch_loop n L cfg fingerprint peers)"

definition syncSigChain :: "nat \<Rightarrow> lib \<Rightarrow> SyncConfig \<Rightarrow> string \<Rightarrow> string \<Rightarrow> unit io" where
  "syncSigChain n L cfg base fingerprint =
     HttpGet (base @ ''/block/'' @ fingerprint) (\<lambda>resp.
       case resp of
         Unreachable \<Rightarrow> Ret ()
       | Reply status body \<Rightarrow>
           if status \<noteq> 200 then Ret ()
           else (case decode_map body of
              None \<Rightarrow> Ret ()
            | Some data \<Rightarrow>
                (case get data ''sig_chain'' of
                   AArr sigChainRaw \<Rightarrow>
                     applySigEntries L (fetchAndStoreBlock n L cfg) fingerprint sigChainRaw base
                 | _ \<Rightarrow> Ret ())))"

fun pull_loop ::
    "nat \<Rightarrow> lib \<Rightarrow> SyncConfig \<Rightarrow> string \<Rightarrow> (string, string) gomap \<Rightarrow> (string, string) gomap \<Rightarrow> unit io" where
  "pull_loop n L cfg base localHashes [] = Ret ()"
| "pull_loop n L cfg base localHashes ((fp, peerHead) # peerHashes) =
     bind (case mget localHashes fp of
             None \<Rightarrow> fetchAndStoreBlock n L cfg base fp
           | Some localHead \<Rightarrow> if localHead \<noteq> peerHead then syncSigChain n L cfg base fp else Ret ())
       (\<lambda>_. pull_loop n L cfg base localHashes peerHashes)"

fun push_loop :: "string \<Rightarrow> (string, string) gomap \<Rightarrow> (string, string) gomap \<Rightarrow> unit io" where
  "push_loop base peerHashes [] = Ret ()"
| "push_loop base peerHashes ((fp, head) # localHashes) =
     (case mget peerHashes fp of
        Some _ \<Rightarrow> push_loop base peerHashes localHashes
      | None \<Rightarrow> Get fp (\<lambda>r.
          case drop_err r of
            None \<Rightarrow> push_loop base peerHashes localHashes
          | Some block \<Rightarrow>
              Go (PostJSONT (base @ ''/p2p/block'') (AObj [(''block'', p2p_blockToMap block)]))
                (push_loop base peerHashes localHashes)))"

definition SyncWithPeer :: "nat \<Rightarrow> lib \<Rightarrow> SyncConfig \<Rightarrow> string \<Rightarrow> unit io" where
  "SyncWithPeer n L cfg peerURL =
     (let base = TrimRightSlash peerURL in
      HttpGet (base @ ''/p2p/hashes'') (\<lambda>resp.
        case resp of
          Unreachable \<Rightarrow> Ret ()
        | Reply status body \<Rightarrow>
            if status \<noteq> 200 then Ret ()
            else (case decode_string_map body of
              (peerHashes, bad) \<Rightarrow>
                if bad then Ret ()
                else Hashes (\<lambda>r.
                  case r of
                    Inl err \<Rightarrow> Ret ()
                  | Inr localHashes \<Rightarrow>
                      bind (pull_loop n L cfg base localHashes peerHashes)
                        (\<lambda>_. push_loop base peerHashes localHashes)))))"

definition head_mismatches :: "(string, string) gomap \<Rightarrow> (string, string) gomap \<Rightarrow> string list" where
  "head_mismatches localHashes peerHashes =
     map fst (filter (\<lambda>(fp, localHead).
       case mget peerHashes fp of Some peerHead \<Rightarrow> peerHead \<noteq> localHead | None \<Rightarrow> False) localHashes)"

fun cross_loop :: "(string, string) gomap \<Rightarrow> string list \<Rightarrow> string list \<Rightarrow> string list io" where
  "cross_loop localHashes [] mismatches = Ret mismatches"
| "cross_loop localHashes (peerURL # peers) mismatches =
     (let base = TrimRightSlash peerURL in
      HttpGet (base @ ''/p2p/hashes'') (\<lambda>resp.
        case resp of
          Unreachable \<Rightarrow> cross_loop localHashes peers mismatches
        | Reply status body \<Rightarrow>
            (let peerHashes = fst (decode_string_map body) in
             cross_loop localHashes peers (mismatches @ head_mismatches localHashes peerHashes))))"

definition CrossValidate :: "string list io" where
  "CrossValidate =
     Hashes (\<lambda>r.
       case r of
         Inl err \<Rightarrow> Ret []
       | Inr localHashes \<Rightarrow> PeersAll (\<lambda>peers. cross_loop localHashes peers []))"

end
