(* ===== verification/Api.thy ===== *)
theory Api
  imports P2p
begin

text \<open>
  The HTTP handlers (\<open>internal/api/api.go\<close>), each a program that ends in the response it
  writes, in the order of the file.  A request is what the handlers read of it: the JSON
  value of its body (\<open>None\<close> when there is none), the query parameter \<open>q\<close> and the header
  \<open>X-Forwarded-For\<close>; the parameter of the route is an argument.  A response is its status
  and the value that \<open>writeJSON\<close> encodes.  \<open>n\<close> bounds the depth of block fetching.
\<close>

section \<open>Configuration, requests and responses\<close>

record config =
  cDomains :: "string list"
  cAllowAll :: bool
  cNodeURL :: string
  cAllowPrivatePeers :: bool
  cMaxPeers :: int
  cSync :: SyncConfig
  cFanout :: int

record request =
  rqBody :: "any option"
  rqQ :: string
  rqForwardedFor :: string

datatype response = Response (rsStatus: int) (rsBody: any)

definition writeJSON :: "int \<Rightarrow> any \<Rightarrow> response io" where
  "writeJSON status v = Ret (Response status v)"

definition errJSON :: "int \<Rightarrow> string \<Rightarrow> response io" where
  "errJSON status msg = writeJSON status (AObj [(''error'', AStr msg)])"

definition ok_body :: any where
  "ok_body = AObj [(''ok'', ABool True)]"

text \<open>A handler that needs a body: \<open>decodeBody\<close> and the answer when it fails.\<close>

definition decodeBody :: "request \<Rightarrow> ((string, any) gomap \<Rightarrow> response io) \<Rightarrow> response io" where
  "decodeBody r h =
     (case decode_map (rqBody r) of None \<Rightarrow> errJSON 400 ''invalid JSON body'' | Some body \<Rightarrow> h body)"

text \<open>A timestamp of the request, or the current time.\<close>

definition timestamp :: "lib \<Rightarrow> (string, any) gomap \<Rightarrow> string \<Rightarrow> (int64 \<Rightarrow> 'a io) \<Rightarrow> 'a io" where
  "timestamp L body key h =
     (case getInt64 L body key of (ts, ok) \<Rightarrow> if ok then h ts else Now (\<lambda>now. h (Unix now)))"

definition api_domainAllowed :: "string list \<Rightarrow> string list \<Rightarrow> bool" where
  "api_domainAllowed keyDomains allowList = list_ex (\<lambda>kd. list_ex (\<lambda>a. kd = a) allowList) keyDomains"

definition blocks_any :: "Block list \<Rightarrow> any" where
  "blocks_any blocks = AArr (map blockToMap blocks)"

section \<open>Public endpoints\<close>

definition handleListBlocks :: "response io" where
  "handleListBlocks =
     All (\<lambda>r. case r of
       Inl err \<Rightarrow> errJSON 500 ''failed to list blocks''
     | Inr blocks \<Rightarrow> writeJSON 200 (blocks_any blocks))"

definition handleGetBlock :: "string \<Rightarrow> response io" where
  "handleGetBlock fp =
     Get fp (\<lambda>r. case r of
       Inl err \<Rightarrow> errJSON 500 ''store error''
     | Inr None \<Rightarrow> errJSON 404 ''block not found''
     | Inr (Some block) \<Rightarrow> writeJSON 200 (blockToMap block))"

definition handleAddBlock :: "lib \<Rightarrow> config \<Rightarrow> request \<Rightarrow> response io" where
  "handleAddBlock L cfg r = decodeBody r (\<lambda>body.
     let armoredKey = getString body ''armored_key''; selfSig = getString body ''self_sig'' in
     if armoredKey = [] \<or> selfSig = [] then errJSON 400 ''armored_key and self_sig are required''
     else case ParseArmoredKey L armoredKey of
       Inl err \<Rightarrow> errJSON 400 (''invalid armored key: '' @ err)
     | Inr (fp, uids) \<Rightarrow>
       (case CheckKeyStrength L armoredKey of
          Some err \<Rightarrow> errJSON 400 (''key too weak: '' @ err)
        | None \<Rightarrow>
          (let keyDomains = ExtractEmailDomains L uids in
           if keyDomains = [] then errJSON 400 ''key has no email UID''
           else if \<not> cAllowAll cfg \<and> \<not> api_domainAllowed keyDomains (cDomains cfg)
           then errJSON 403 ''key domain not in allowlist''
           else timestamp L body ''submit_timestamp'' (\<lambda>ts. Now (\<lambda>now.
             if \<not> VerifyDetachedSig L now (SubmitPayload L fp armoredKey ts) selfSig armoredKey
             then errJSON 400 ''self_sig verification failed''
             else Get fp (\<lambda>r. case drop_err r of
               Some existing \<Rightarrow> errJSON 409 ''block already exists for this fingerprint''
             | None \<Rightarrow>
               (let block = make_block L fp armoredKey uids ts selfSig in
                Add block (\<lambda>err. case err of
                  Some _ \<Rightarrow> errJSON 409 ''block already exists for this fingerprint''
                | None \<Rightarrow> Go (GossipBlockT block []) (writeJSON 201 (blockToMap block))))))))))"

text \<open>Answering with the block as it is now; with no block, \<open>blockToMap\<close> dereferences nil.\<close>

definition respond_updated :: "string \<Rightarrow> response io" where
  "respond_updated fp =
     Get fp (\<lambda>r. case drop_err r of None \<Rightarrow> Panic | Some updated \<Rightarrow> writeJSON 200 (blockToMap updated))"

text \<open>\<open>handleSignBlock\<close> from where it has the signer's key.\<close>

definition sign_with_key ::
    "lib \<Rightarrow> string \<Rightarrow> Block \<Rightarrow> (string, any) gomap \<Rightarrow> int64 \<Rightarrow> string \<Rightarrow> response io" where
  "sign_with_key L fp block body ts signerKey =
     (let signerFP = getString body ''signer_fingerprint''; sig = getString body ''sig'' in
      Now (\<lambda>now.
        if \<not> VerifyDetachedSig L now (TrustPayload (bHash block) signerFP ts) sig signerKey
        then errJSON 400 ''sig verification failed''
        else if list_ex (\<lambda>existing. seSigner existing = signerFP) (bSigEntries block)
        then errJSON 409 ''signer has already signed this block''
        else
          (let prevHash = (if bSigChainHead block = [] then bHash block else bSigChainHead block);
               entry = \<lparr>seHash = ComputeSigEntryHash (Sum256 L) prevHash signerFP sig ts,
                  sePrevHash = prevHash, seSigner = signerFP, seSig = sig, seTimestamp = ts,
                  seSignerKey = getString body ''signer_armored_key'',
                  seSourceNode = getString body ''source_node''\<rparr> in
           AddSig fp entry (\<lambda>_. Go (GossipSigT fp entry []) (respond_updated fp)))))"

definition handleSignBlock :: "lib \<Rightarrow> string \<Rightarrow> request \<Rightarrow> response io" where
  "handleSignBlock L fp r = decodeBody r (\<lambda>body.
     let signerFP = getString body ''signer_fingerprint''; sig = getString body ''sig'' in
     if signerFP = [] \<or> sig = [] then errJSON 400 ''signer_fingerprint and sig are required''
     else timestamp L body ''timestamp'' (\<lambda>ts.
       let signerArmoredKey = getString body ''signer_armored_key'' in
       Get fp (\<lambda>r. case drop_err r of
         None \<Rightarrow> errJSON 404 ''block not found''
       | Some block \<Rightarrow>
         if bRevoked block then errJSON 409 ''block is revoked''
         else if signerArmoredKey \<noteq> [] then
           (case CheckKeyStrength L signerArmoredKey of
              Some err \<Rightarrow> errJSON 400 (''signer key too weak: '' @ err)
            | None \<Rightarrow> sign_with_key L fp block body ts signerArmoredKey)
         else Get signerFP (\<lambda>r. case drop_err r of
           None \<Rightarrow> errJSON 400 ''signer block not found on ledger''
         | Some signerBlock \<Rightarrow> sign_with_key L fp block body ts (bArmoredKey signerBlock)))))"

definition handleRevokeBlock :: "lib \<Rightarrow> string \<Rightarrow> request \<Rightarrow> response io" where
  "handleRevokeBlock L fp r = decodeBody r (\<lambda>body.
     let sig = getString body ''sig'' in
     if sig = [] then errJSON 400 ''sig is required''
     else Get fp (\<lambda>r. case drop_err r of
       None \<Rightarrow> errJSON 404 ''block not found''
     | Some block \<Rightarrow>
       if bRevoked block then errJSON 409 ''block is already revoked''
       else Now (\<lambda>now.
         if \<not> VerifyDetachedSig L now (RevokePayload fp (bHash block)) sig (bArmoredKey block)
         then errJSON 403 ''revocation sig verification failed''
         else Revoke fp sig (\<lambda>_. Go (GossipRevokeT fp sig []) (respond_updated fp)))))"

definition handleSearch :: "lib \<Rightarrow> request \<Rightarrow> response io" where
  "handleSearch L r =
     (let q = ToLower L (rqQ r) in
      All (\<lambda>res. case res of
        Inl err \<Rightarrow> errJSON 500 ''store error''
      | Inr blocks \<Rightarrow>
          writeJSON 200 (blocks_any
            (filter (\<lambda>b. list_ex (\<lambda>uid. Contains (ToLower L uid) q) (bUIDs b)) blocks))))"

definition peer_node_any :: "PeerNode \<Rightarrow> any" where
  "peer_node_any nd =
     AObj [(''url'', AStr (pnURL nd)), (''domains'', AArr (map AStr (pnDomains nd))),
       (''allow_all'', ABool (pnAllowAll nd))]"

definition handleWellKnown :: "config \<Rightarrow> response io" where
  "handleWellKnown cfg =
     PeersAll (\<lambda>peers. PeersAll (\<lambda>peers'. PeersMeta (\<lambda>pl.
       writeJSON 200 (AObj [(''node_url'', AStr (cNodeURL cfg)),
         (''domains'', AArr (map AStr (cDomains cfg))), (''allow_all'', ABool (cAllowAll cfg)),
         (''peers'', AArr (map AStr peers)),
         (''peer_nodes'', AArr (map peer_node_any (PeerNodes peers' pl)))]))))"

section \<open>Peer management\<close>

definition handleListPeers :: "response io" where
  "handleListPeers = PeersAll (\<lambda>peers. writeJSON 200 (AArr (map AStr peers)))"

text \<open>The classes of IP addresses, as \<open>net.IP\<close> decides them on the 16-byte form.\<close>

definition To4 :: "nat list \<Rightarrow> nat list option" where
  "To4 ip = (if take 12 ip = replicate 10 0 @ [255, 255] then Some (drop 12 ip) else None)"

definition IsLoopback :: "nat list \<Rightarrow> bool" where
  "IsLoopback ip =
     (case To4 ip of Some ip4 \<Rightarrow> ip4 ! 0 = 127 | None \<Rightarrow> ip = replicate 15 0 @ [1])"

definition IsPrivate :: "nat list \<Rightarrow> bool" where
  "IsPrivate ip =
     (case To4 ip of
        Some ip4 \<Rightarrow>
          ip4 ! 0 = 10 \<or> (ip4 ! 0 = 172 \<and> 16 \<le> ip4 ! 1 \<and> ip4 ! 1 < 32) \<or> (ip4 ! 0 = 192 \<and> ip4 ! 1 = 168)
      | None \<Rightarrow> ip ! 0 = 252 \<or> ip ! 0 = 253)"

definition IsLinkLocalUnicast :: "nat list \<Rightarrow> bool" where
  "IsLinkLocalUnicast ip =
     (case To4 ip of
        Some ip4 \<Rightarrow> ip4 ! 0 = 169 \<and> ip4 ! 1 = 254
      | None \<Rightarrow> ip ! 0 = 254 \<and> 128 \<le> ip ! 1 \<and> ip ! 1 < 192)"

fun check_addrs :: "lib \<Rightarrow> bool \<Rightarrow> string list \<Rightarrow> error option" where
  "check_addrs L allowPrivate [] = None"
| "check_addrs L allowPrivate (a # addrs) =
     (case parseIP L a of
        None \<Rightarrow> check_addrs L allowPrivate addrs
      | Some ip \<Rightarrow>
          if IsLoopback ip then Some ''loopback addresses are not allowed''
          else if \<not> allowPrivate \<and> (IsPrivate ip \<or> IsLinkLocalUnicast ip)
          then Some ''private or loopback addresses are not allowed''
          else check_addrs L allowPrivate addrs)"

definition handleAddPeer :: "lib \<Rightarrow> config \<Rightarrow> request \<Rightarrow> response io" where
  "handleAddPeer L cfg r = decodeBody r (\<lambda>body.
     let addr = getString body ''addr'' in
     if addr = [] then errJSON 400 ''addr is required''
     else (case urlParse L addr of
       None \<Rightarrow> errJSON 400 ''URL scheme must be http or https''
     | Some (scheme, host) \<Rightarrow>
       if scheme \<noteq> ''http'' \<and> scheme \<noteq> ''https'' then errJSON 400 ''URL scheme must be http or https''
       else
         (let resolve = LookupHost host (\<lambda>res. case res of
            None \<Rightarrow> errJSON 400 ''could not resolve peer address''
          | Some addrs \<Rightarrow>
            (case check_addrs L (cAllowPrivatePeers cfg) addrs of
               Some msg \<Rightarrow> errJSON 400 msg
             | None \<Rightarrow>
               HttpGet (TrimRightSlash addr @ ''/peers'') (\<lambda>resp. case resp of
                 Unreachable \<Rightarrow> errJSON 400 ''peer is not reachable''
               | Reply st _ \<Rightarrow>
                 if st \<noteq> 200 then errJSON 400 ''peer reachability check failed''
                 else PeersAdd addr (\<lambda>_. Go (FetchMetaT addr)
                   (let sync = Go (SyncWithPeerT addr) (writeJSON 200 ok_body) in
                    if cNodeURL cfg \<noteq> [] then Go (RegisterSelfT addr (cNodeURL cfg)) sync else sync)))))
          in
          PeersLen (\<lambda>len.
            if len \<ge> cMaxPeers cfg
            then PeersContains addr (\<lambda>known.
              if \<not> known then errJSON 429 ''peer list is at capacity'' else resolve)
            else resolve))))"

text \<open>
  The goroutine that reads a peer's well-known document into a struct: each key of the
  document that matches a field name, ignoring case, sets the field.
\<close>

fun any_strings :: "any \<Rightarrow> string list option" where
  "any_strings ANil = Some []"
| "any_strings (AArr xs) = (if list_ex bad_string xs then None else Some (map as_string xs))"
| "any_strings _ = None"

fun decode_wk :: "lib \<Rightarrow> (string \<times> any) list \<Rightarrow> PeerMeta \<Rightarrow> PeerMeta option" where
  "decode_wk L [] wk = Some wk"
| "decode_wk L ((k, v) # m) wk =
     (if EqualFold L k ''domains'' then
        (case any_strings v of None \<Rightarrow> None | Some ds \<Rightarrow> decode_wk L m (wk\<lparr>pmDomains := ds\<rparr>))
      else if EqualFold L k ''allow_all'' then
        (case v of
           ABool b \<Rightarrow> decode_wk L m (wk\<lparr>pmAllowAll := b\<rparr>)
         | ANil \<Rightarrow> decode_wk L m wk
         | _ \<Rightarrow> None)
      else decode_wk L m wk)"

definition FetchMeta :: "lib \<Rightarrow> string \<Rightarrow> unit io" where
  "FetchMeta L peerURL =
     HttpGet (TrimRightSlash peerURL @ ''/.well-known/gpgchain.json'') (\<lambda>resp.
       case resp of
         Unreachable \<Rightarrow> Ret ()
       | Reply st body \<Rightarrow>
           (case decode_map body of
              None \<Rightarrow> Ret ()
            | Some m \<Rightarrow>
                (case decode_wk L m \<lparr>pmDomains = [], pmAllowAll = False\<rparr> of
                   None \<Rightarrow> Ret ()
                 | Some wk \<Rightarrow> PeersSetMeta peerURL wk (Ret ()))))"

definition registerSelfWithPeer :: "string \<Rightarrow> string \<Rightarrow> unit io" where
  "registerSelfWithPeer peerURL myNodeURL =
     HttpPost (TrimRightSlash peerURL @ ''/peers'') (AObj [(''addr'', AStr myNodeURL)]) (\<lambda>resp. Ret ())"

section \<open>Endpoints between nodes\<close>

definition handleP2PSync :: "response io" where
  "handleP2PSync =
     PeersAll (\<lambda>peers. bind (go_all (map SyncWithPeerT peers)) (\<lambda>_. writeJSON 200 ok_body))"

definition handleP2PHashes :: "response io" where
  "handleP2PHashes =
     Hashes (\<lambda>r. case r of
       Inl err \<Rightarrow> errJSON 500 ''store error''
     | Inr hashes \<Rightarrow> writeJSON 200 (AObj (map (\<lambda>(fp, head). (fp, AStr head)) hashes)))"

definition handleP2PGetBlock :: "string \<Rightarrow> response io" where
  "handleP2PGetBlock blockHash =
     All (\<lambda>r. case r of
       Inl err \<Rightarrow> errJSON 500 ''store error''
     | Inr blocks \<Rightarrow>
       (case find (\<lambda>b. bHash b = blockHash) blocks of
          Some b \<Rightarrow> writeJSON 200 (blockToMap b)
        | None \<Rightarrow> errJSON 404 ''block not found''))"

definition handleP2PReceiveBlock :: "lib \<Rightarrow> config \<Rightarrow> request \<Rightarrow> response io" where
  "handleP2PReceiveBlock L cfg r = decodeBody r (\<lambda>body.
     case get body ''block'' of
       AObj blockData \<Rightarrow>
         (let armoredKey = getString blockData ''armored_key''; selfSig = getString blockData ''self_sig'' in
          if armoredKey = [] \<or> selfSig = []
          then errJSON 400 ''block.armored_key and block.self_sig are required''
          else case ParseArmoredKey L armoredKey of
            Inl err \<Rightarrow> errJSON 400 (''invalid armored key: '' @ err)
          | Inr (fp, uids) \<Rightarrow>
            (case CheckKeyStrength L armoredKey of
               Some err \<Rightarrow> errJSON 400 (''key too weak: '' @ err)
             | None \<Rightarrow>
               if \<not> cAllowAll cfg \<and> \<not> api_domainAllowed (ExtractEmailDomains L uids) (cDomains cfg)
               then errJSON 400 ''key domain not in allowlist''
               else
                 (let blockHash = ComputeBlockHash (Sum256 L) fp armoredKey selfSig;
                      claimedHash = getString blockData ''hash'' in
                  if claimedHash \<noteq> [] \<and> claimedHash \<noteq> blockHash then errJSON 400 ''block hash mismatch''
                  else timestamp L blockData ''submit_timestamp'' (\<lambda>ts. Now (\<lambda>now.
                    if \<not> VerifyDetachedSig L now (SubmitPayload L fp armoredKey ts) selfSig armoredKey
                    then errJSON 400 ''self_sig verification failed''
                    else Get fp (\<lambda>res. case drop_err res of
                      Some existing \<Rightarrow> writeJSON 200 ok_body
                    | None \<Rightarrow>
                      (let block = make_block L fp armoredKey uids ts selfSig in
                       Add block (\<lambda>_. Go (GossipBlockT block (rqForwardedFor r))
                         (writeJSON 200 ok_body)))))))))
     | _ \<Rightarrow> errJSON 400 ''block is required'')"

text \<open>\<open>handleP2PReceiveSig\<close> from where it has the signer's key.\<close>

definition receive_with_key ::
    "lib \<Rightarrow> string \<Rightarrow> string \<Rightarrow> Block \<Rightarrow> (string, any) gomap \<Rightarrow> string \<Rightarrow> response io" where
  "receive_with_key L origin fp block entryData signerKey =
     (let signerFP = getString entryData ''signer_fingerprint''; sig = getString entryData ''sig'';
          prevHash = getString entryData ''prev_hash'';
          ts = fst (getInt64 L entryData ''timestamp'');
          claimedHash = getString entryData ''hash'' in
      Now (\<lambda>now.
        if \<not> VerifyDetachedSig L now (TrustPayload (bHash block) signerFP ts) sig signerKey
        then errJSON 400 ''sig verification failed''
        else if list_ex (\<lambda>existing. seSigner existing = signerFP) (bSigEntries block)
        then writeJSON 200 ok_body
        else
          (let computedHash = ComputeSigEntryHash (Sum256 L) prevHash signerFP sig ts in
           if claimedHash \<noteq> [] \<and> claimedHash \<noteq> computedHash
           then errJSON 400 ''SigEntry hash mismatch''
           else
             (let entry = \<lparr>seHash = computedHash, sePrevHash = prevHash, seSigner = signerFP,
                  seSig = sig, seTimestamp = ts,
                  seSignerKey = getString entryData ''signer_armored_key'',
                  seSourceNode = getString entryData ''source_node''\<rparr> in
              AddSig fp entry (\<lambda>_. Go (GossipSigT fp entry origin) (writeJSON 200 ok_body))))))"

definition handleP2PReceiveSig :: "nat \<Rightarrow> lib \<Rightarrow> config \<Rightarrow> request \<Rightarrow> response io" where
  "handleP2PReceiveSig n L cfg r = decodeBody r (\<lambda>body.
     let fp = getString body ''fingerprint'' in
     case get body ''entry'' of
       AObj entryData \<Rightarrow>
         if fp = [] then errJSON 400 ''fingerprint and entry are required''
         else
           (let signerFP = getString entryData ''signer_fingerprint''; sig = getString entryData ''sig'';
                prevHash = getString entryData ''prev_hash'' in
            if signerFP = [] \<or> sig = [] \<or> prevHash = []
            then errJSON 400 ''entry.signer_fingerprint, entry.sig, and entry.prev_hash are required''
            else
              (let signerArmoredKey = getString entryData ''signer_armored_key'' in
               Get fp (\<lambda>res. case drop_err res of
                 None \<Rightarrow> errJSON 400 ''target block not found''
               | Some block \<Rightarrow>
                 if bRevoked block then errJSON 400 ''block is revoked''
                 else
                   (let with_key = receive_with_key L (rqForwardedFor r) fp block entryData in
                    if signerArmoredKey \<noteq> [] then with_key signerArmoredKey
                    else Get signerFP (\<lambda>res. case drop_err res of
                      Some signerBlock \<Rightarrow> with_key (bArmoredKey signerBlock)
                    | None \<Rightarrow>
                      bind (FetchBlockFromPeers n L (cSync cfg) signerFP) (\<lambda>_.
                        Get signerFP (\<lambda>res. case drop_err res of
                          None \<Rightarrow> errJSON 400 ''signer block not found on ledger''
                        | Some signerBlock \<Rightarrow> with_key (bArmoredKey signerBlock))))))))
     | _ \<Rightarrow> errJSON 400 ''fingerprint and entry are required'')"

definition handleP2PReceiveRevoke :: "lib \<Rightarrow> request \<Rightarrow> response io" where
  "handleP2PReceiveRevoke L r = decodeBody r (\<lambda>body.
     let fp = getString body ''fingerprint''; revocationSig = getString body ''revocation_sig'' in
     if fp = [] \<or> revocationSig = [] then errJSON 400 ''fingerprint and revocation_sig are required''
     else Get fp (\<lambda>res. case drop_err res of
       None \<Rightarrow> errJSON 400 ''block not found''
     | Some block \<Rightarrow>
       if bRevoked block then writeJSON 200 ok_body
       else Now (\<lambda>now.
         if \<not> VerifyDetachedSig L now (RevokePayload fp (bHash block)) revocationSig (bArmoredKey block)
         then errJSON 400 ''revocation sig verification failed''
         else Revoke fp revocationSig (\<lambda>_.
           Go (GossipRevokeT fp revocationSig (rqForwardedFor r)) (writeJSON 200 ok_body)))))"

end
