(* ===== verification/Flags.thy ===== *)
theory Flags
  imports Gpg
begin

text \<open>
  Command lines: what package \<open>flag\<close> makes of the arguments of a program.  Both programs parse
  with \<open>ExitOnError\<close>, so a mistake ends the program with status 2 and a request for help with
  status 0; \<open>Inl\<close> is that status.  A flag set maps the name of each flag to its value, whose
  constructor is the kind of the flag; before parsing the values are the defaults.
\<close>

datatype fval = VString string | VBool bool | VInt int

type_synonym flagset = "(string, fval) gomap"

definition sflag :: "flagset \<Rightarrow> string \<Rightarrow> string" where
  "sflag fs name = (case mget fs name of Some (VString s) \<Rightarrow> s | _ \<Rightarrow> [])"

definition bflag :: "flagset \<Rightarrow> string \<Rightarrow> bool" where
  "bflag fs name = (case mget fs name of Some (VBool b) \<Rightarrow> b | _ \<Rightarrow> False)"

definition iflag :: "flagset \<Rightarrow> string \<Rightarrow> int" where
  "iflag fs name = (case mget fs name of Some (VInt i) \<Rightarrow> i | _ \<Rightarrow> 0)"

lemma mget_Cons: "mget ((k, v) # m) name = (if k = name then Some v else mget m name)"
  by (simp add: mget_def)

section \<open>Package strconv\<close>

definition ParseBool :: "string \<Rightarrow> bool option" where
  "ParseBool s =
     (if s \<in> {''1'', ''t'', ''T'', ''TRUE'', ''true'', ''True''} then Some True
      else if s \<in> {''0'', ''f'', ''F'', ''FALSE'', ''false'', ''False''} then Some False
      else None)"

definition digit_value :: "char \<Rightarrow> nat option" where
  "digit_value c =
     (if 48 \<le> byte c \<and> byte c \<le> 57 then Some (byte c - 48)
      else if 97 \<le> byte (lower_char c) \<and> byte (lower_char c) \<le> 122 then Some (byte (lower_char c) - 87)
      else None)"

fun parse_digits :: "nat \<Rightarrow> nat \<Rightarrow> string \<Rightarrow> nat option" where
  "parse_digits base n [] = Some n"
| "parse_digits base n (c # cs) =
     (if c = CHR ''_'' then parse_digits base n cs
      else (case digit_value c of
        None \<Rightarrow> None
      | Some d \<Rightarrow> if d \<ge> base then None else parse_digits base (n * base + d) cs))"

text \<open>The base of a literal and its digits, and where underscores may stand.\<close>

definition split_base :: "string \<Rightarrow> nat \<times> string" where
  "split_base s =
     (if HasPrefix s ''0'' then
        (let c = (if length s \<ge> 3 then lower_char (s ! 1) else CHR ''0'') in
         if c = CHR ''b'' then (2, drop 2 s)
         else if c = CHR ''o'' then (8, drop 2 s)
         else if c = CHR ''x'' then (16, drop 2 s)
         else (8, drop 1 s))
      else (10, s))"

definition underscoreOK :: "string \<Rightarrow> bool" where
  "underscoreOK s \<longleftrightarrow> \<not> HasPrefix s ''_'' \<and> \<not> HasPrefix (rev s) ''_'' \<and> \<not> Contains s ''__''"

text \<open>\<open>strconv.ParseInt(s, 0, 64)\<close>.\<close>

definition ParseInt :: "string \<Rightarrow> int option" where
  "ParseInt s =
     (let neg = HasPrefix s ''-''; s = (if neg \<or> HasPrefix s ''+'' then tl s else s) in
      if s = [] then None
      else (case split_base s of (base, ds) \<Rightarrow>
        (case parse_digits base 0 ds of
           None \<Rightarrow> None
         | Some n \<Rightarrow>
             if \<not> underscoreOK s then None
             else if neg then (if n \<le> 2 ^ 63 then Some (- int n) else None)
             else (if n < 2 ^ 63 then Some (int n) else None))))"

section \<open>Parsing\<close>

definition set_flag :: "fval \<Rightarrow> string \<Rightarrow> fval option" where
  "set_flag old v =
     (case old of
        VString _ \<Rightarrow> Some (VString v)
      | VBool _ \<Rightarrow> map_option VBool (ParseBool v)
      | VInt _ \<Rightarrow> map_option VInt (ParseInt v))"

definition split_eq :: "string \<Rightarrow> string \<times> string option" where
  "split_eq s =
     (takeWhile (\<lambda>c. c \<noteq> CHR ''='') s,
      case dropWhile (\<lambda>c. c \<noteq> CHR ''='') s of [] \<Rightarrow> None | _ # v \<Rightarrow> Some v)"

fun is_bool :: "fval \<Rightarrow> bool" where
  "is_bool (VBool b) = True"
| "is_bool _ = False"

fun Parse :: "flagset \<Rightarrow> string list \<Rightarrow> int + flagset \<times> string list" where
  "Parse fs [] = Inr (fs, [])"
| "Parse fs (s # args) =
     (if length s < 2 \<or> \<not> HasPrefix s ''-'' then Inr (fs, s # args)
      else if s = ''--'' then Inr (fs, args)
      else
        (let body = (if HasPrefix s ''--'' then drop 2 s else drop 1 s) in
         if HasPrefix body ''-'' \<or> HasPrefix body ''='' then Inl 2
         else
           (case split_eq body of (name, val) \<Rightarrow>
             (case mget fs name of
                None \<Rightarrow> Inl (if name = ''help'' \<or> name = ''h'' then 0 else 2)
              | Some old \<Rightarrow>
                  (case (if is_bool old \<and> val = None then Some ''true'' else val) of
                     Some v \<Rightarrow>
                       (case set_flag old v of
                          None \<Rightarrow> Inl 2
                        | Some new \<Rightarrow> Parse (mset_key name new fs) args)
                   | None \<Rightarrow>
                       (case args of
                          [] \<Rightarrow> Inl 2
                        | v # args' \<Rightarrow>
                            (case set_flag old v of
                               None \<Rightarrow> Inl 2
                             | Some new \<Rightarrow> Parse (mset_key name new fs) args')))))))"

text \<open>The parsed flags have the names and the kinds that were declared.\<close>

definition kind :: "fval \<Rightarrow> fval" where
  "kind v = (case v of VString _ \<Rightarrow> VString [] | VBool _ \<Rightarrow> VBool False | VInt _ \<Rightarrow> VInt 0)"

definition same_flags :: "flagset \<Rightarrow> flagset \<Rightarrow> bool" where
  "same_flags fs fs' \<longleftrightarrow> (\<forall>name. map_option kind (mget fs' name) = map_option kind (mget fs name))"

lemma same_flags_refl [simp]: "same_flags fs fs"
  by (simp add: same_flags_def)

lemma set_flag_kind: "set_flag old v = Some new \<Longrightarrow> kind new = kind old"
  by (auto simp: set_flag_def kind_def split: fval.splits)

lemma Parse_same_flags: "Parse fs args = Inr (fs', rest) \<Longrightarrow> same_flags fs fs'"
proof (induction fs args arbitrary: fs' rest rule: Parse.induct)
  case (1 fs)
  then show ?case by (simp add: same_flags_def)
next
  case (2 fs s args)
  have step: "same_flags fs fs'" if "mget fs name = Some old" "set_flag old v = Some new"
    "same_flags (mset_key name new fs) fs'" for name old v new
    using that set_flag_kind [OF that(2)] by (auto simp: same_flags_def)
  show ?case using 2(3)
    by (auto simp: Let_def split: if_splits prod.splits option.splits list.splits
        intro: step dest!: 2(1,2) [rotated -1])
qed

declare Parse.simps(2) [simp del]

end
