(* ===== verification/Node.thy ===== *)
theory Node
  imports Api Flags
begin

text \<open>
  A running node: the router (\<open>NewRouter\<close> of \<open>internal/api/api.go\<close>), the goroutines, the
  start-up of \<open>cmd/node/main.go\<close>, and the steps of the whole, in which requests arrive at
  any time and every handler and goroutine proceeds one call at a time, in any order.
\<close>

section \<open>The router\<close>

datatype route_seg = Lit string | Param

text \<open>
  How chi matches the path against a pattern, segment by segment: a parameter takes what is
  left up to the next slash; it may be empty, except at the end of the path.
\<close>

fun match_path :: "route_seg list \<Rightarrow> string list \<Rightarrow> string list option" where
  "match_path [] [] = Some []"
| "match_path (Lit l # pat) (seg # segs) = (if seg = l then match_path pat segs else None)"
| "match_path (Param # pat) (seg # segs) =
     (if seg = [] \<and> segs = [] then None
      else (case match_path pat segs of None \<Rightarrow> None | Some ps \<Rightarrow> Some (seg # ps)))"
| "match_path _ _ = None"

type_synonym handler = "string list \<Rightarrow> request \<Rightarrow> response io"

definition NewRouter :: "nat \<Rightarrow> lib \<Rightarrow> config \<Rightarrow> (string \<times> route_seg list \<times> handler) list" where
  "NewRouter n L cfg =
     [(''GET'', [Lit ''blocks''], \<lambda>ps r. handleListBlocks),
      (''GET'', [Lit ''block'', Param], \<lambda>ps r. handleGetBlock (ps ! 0)),
      (''POST'', [Lit ''block''], \<lambda>ps r. handleAddBlock L cfg r),
      (''POST'', [Lit ''block'', Param, Lit ''sign''], \<lambda>ps r. handleSignBlock L (ps ! 0) r),
      (''POST'', [Lit ''block'', Param, Lit ''revoke''], \<lambda>ps r. handleRevokeBlock L (ps ! 0) r),
      (''GET'', [Lit ''search''], \<lambda>ps r. handleSearch L r),
      (''GET'', [Lit ''.well-known'', Lit ''gpgchain.json''], \<lambda>ps r. handleWellKnown cfg),
      (''GET'', [Lit ''peers''], \<lambda>ps r. handleListPeers),
      (''POST'', [Lit ''peers''], \<lambda>ps r. handleAddPeer L cfg r),
      (''GET'', [Lit ''p2p'', Lit ''hashes''], \<lambda>ps r. handleP2PHashes),
      (''GET'', [Lit ''p2p'', Lit ''block'', Param], \<lambda>ps r. handleP2PGetBlock (ps ! 0)),
      (''POST'', [Lit ''p2p'', Lit ''block''], \<lambda>ps r. handleP2PReceiveBlock L cfg r),
      (''POST'', [Lit ''p2p'', Lit ''sign''], \<lambda>ps r. handleP2PReceiveSig n L cfg r),
      (''POST'', [Lit ''p2p'', Lit ''revoke''], \<lambda>ps r. handleP2PReceiveRevoke L r),
      (''POST'', [Lit ''p2p'', Lit ''sync''], \<lambda>ps r. handleP2PSync)]"

text \<open>
  Serving a request: the handler of the first route that fits, 405 when only the method does
  not, 404 otherwise (both without a JSON body).
\<close>

fun dispatch ::
    "(string \<times> route_seg list \<times> handler) list \<Rightarrow> string \<Rightarrow> string list \<Rightarrow> request \<Rightarrow> bool \<Rightarrow> response io"
where
  "dispatch [] mth segs r other = writeJSON (if other then 405 else 404) ANil"
| "dispatch ((m, pat, h) # rs) mth segs r other =
     (case match_path pat segs of
        None \<Rightarrow> dispatch rs mth segs r other
      | Some ps \<Rightarrow> if m = mth then h ps r else dispatch rs mth segs r True)"

definition serve :: "nat \<Rightarrow> lib \<Rightarrow> config \<Rightarrow> string \<Rightarrow> string \<Rightarrow> request \<Rightarrow> response io" where
  "serve n L cfg mth path r = dispatch (NewRouter n L cfg) mth (tl (Split (CHR ''/'') path)) r False"

section \<open>Goroutines\<close>

primrec task_prog :: "nat \<Rightarrow> lib \<Rightarrow> config \<Rightarrow> task \<Rightarrow> unit io" where
  "task_prog n L cfg (GossipBlockT b origin) = GossipBlock (cFanout cfg) b origin"
| "task_prog n L cfg (GossipSigT fp e origin) = GossipSig (cFanout cfg) fp e origin"
| "task_prog n L cfg (GossipRevokeT fp sig origin) = GossipRevoke (cFanout cfg) fp sig origin"
| "task_prog n L cfg (PostJSONT url body) = postJSON url body"
| "task_prog n L cfg (SyncWithPeerT url) = SyncWithPeer n L (cSync cfg) url"
| "task_prog n L cfg (FetchMetaT url) = FetchMeta L url"
| "task_prog n L cfg (RegisterSelfT url node) = registerSelfWithPeer url node"

section \<open>Start-up\<close>

record flags =
  fAddr :: string
  fStoreFile :: string
  fPeers :: string
  fDomains :: string
  fAllowAll :: bool
  fNodeURL :: string
  fAllowPrivatePeers :: bool
  fMaxPeers :: int

definition env_flags :: "(string \<Rightarrow> string) \<Rightarrow> flags \<Rightarrow> flags" where
  "env_flags getenv f =
     f\<lparr>fStoreFile := (let v = getenv ''GPGCHAIN_STORE_DIR'' in
          if v \<noteq> [] \<and> fStoreFile f = ''./data/chain.db'' then v @ ''/chain.db'' else fStoreFile f),
       fNodeURL := (let v = getenv ''GPGCHAIN_NODE_URL'' in
          if v \<noteq> [] \<and> fNodeURL f = [] then v else fNodeURL f),
       fAllowAll := (let v = getenv ''GPGCHAIN_ALLOW_ALL'' in
          if (v = ''true'' \<or> v = ''1'') \<and> \<not> fAllowAll f then True else fAllowAll f),
       fDomains := (let v = getenv ''GPGCHAIN_DOMAINS'' in
          if v \<noteq> [] \<and> fDomains f = [] then v else fDomains f),
       fAllowPrivatePeers := (let v = getenv ''GPGCHAIN_ALLOW_PRIVATE_PEERS'' in
          if (v = ''true'' \<or> v = ''1'') \<and> \<not> fAllowPrivatePeers f then True
          else fAllowPrivatePeers f)\<rparr>"

text \<open>The command line of the node.\<close>

definition node_flag_set :: flagset where
  "node_flag_set =
     [(''addr'', VString ''0.0.0.0:8080''), (''store'', VString ''./data/chain.db''), (''peers'', VString []),
      (''domains'', VString []), (''allow-all-domains'', VBool False), (''node-url'', VString []),
      (''allow-private-peers'', VBool False), (''max-peers'', VInt 50)]"

definition read_flags :: "flagset \<Rightarrow> flags" where
  "read_flags fs =
     \<lparr>fAddr = sflag fs ''addr'', fStoreFile = sflag fs ''store'', fPeers = sflag fs ''peers'',
      fDomains = sflag fs ''domains'', fAllowAll = bflag fs ''allow-all-domains'', fNodeURL = sflag fs ''node-url'',
      fAllowPrivatePeers = bflag fs ''allow-private-peers'', fMaxPeers = iflag fs ''max-peers''\<rparr>"

text \<open>The directory of the store, which \<open>main\<close> creates.\<close>

definition store_dir :: "string \<Rightarrow> string option" where
  "store_dir f =
     (let base = takeWhile (\<lambda>c. c \<noteq> CHR ''/'') (rev f); n = length f - length base in
      if n \<le> 1 then None else Some (take (n - 1) f))"

definition split_flag :: "lib \<Rightarrow> string \<Rightarrow> string list" where
  "split_flag L s =
     (if s = [] then [] else filter (\<lambda>d. d \<noteq> []) (map (TrimSpace L) (Split (CHR '','') s)))"

definition main_config :: "lib \<Rightarrow> flags \<Rightarrow> config" where
  "main_config L f =
     (let domains = split_flag L (fDomains f) in
      \<lparr>cDomains = domains, cAllowAll = fAllowAll f, cNodeURL = fNodeURL f,
       cAllowPrivatePeers = fAllowPrivatePeers f, cMaxPeers = fMaxPeers f,
       cSync = \<lparr>scDomains = domains, scAllowAll = fAllowAll f\<rparr>, cFanout = 3\<rparr>)"

fun boot_peers :: "string list \<Rightarrow> 's node \<Rightarrow> 's node" where
  "boot_peers [] s = s"
| "boot_peers (peerURL # urls) s =
     boot_peers urls (s\<lparr>nPeers := snd (pl_Add peerURL (nPeers s)), nGos := nGos s @ [SyncWithPeerT peerURL]\<rparr>)"

definition main_node :: "lib \<Rightarrow> flags \<Rightarrow> 's \<Rightarrow> int \<Rightarrow> 's node" where
  "main_node L f st now =
     boot_peers (split_flag L (fPeers f))
       \<lparr>nStore = st, nPeers = NewPeerList (fMaxPeers f), nSeen = NewGossip, nClock = now, nGos = [], nSent = []\<rparr>"

text \<open>
  \<open>main\<close>: \<open>mkdir\<close> tells whether creating a directory succeeds and \<open>open_store\<close> opens the store;
  \<open>Inl\<close> is the status the program ends with, \<open>Inr\<close> the listen address, the configuration and
  the state of the node when it starts to serve.
\<close>

definition main ::
    "lib \<Rightarrow> (string \<Rightarrow> string) \<Rightarrow> (string \<Rightarrow> bool) \<Rightarrow> (string \<Rightarrow> 's option) \<Rightarrow> int \<Rightarrow> string list \<Rightarrow>
     int + string \<times> config \<times> 's node" where
  "main L getenv mkdir open_store now args =
     (case Parse node_flag_set args of
        Inl code \<Rightarrow> Inl code
      | Inr (fs, _) \<Rightarrow>
          (let f = env_flags getenv (read_flags fs) in
           if (case store_dir (fStoreFile f) of None \<Rightarrow> False | Some d \<Rightarrow> \<not> mkdir d) then Inl 1
           else (case open_store (fStoreFile f) of
             None \<Rightarrow> Inl 1
           | Some st \<Rightarrow> Inr (fAddr f, main_config L f, main_node L f st now))))"

section \<open>Steps\<close>

datatype thread = Handler "response io" | Goroutine "unit io"

text \<open>
  \<open>okE\<close> restricts the entries whose insertion the run may contain; with \<open>okE = (\<lambda>_. True)\<close>
  the steps are those of the node.
\<close>

fun ok_call :: "(SigEntry \<Rightarrow> bool) \<Rightarrow> 'a io \<Rightarrow> bool" where
  "ok_call okE (AddSig fp e k) = okE e"
| "ok_call okE _ = True"

inductive step ::
    "'s store_ops \<Rightarrow> nat \<Rightarrow> lib \<Rightarrow> config \<Rightarrow> (SigEntry \<Rightarrow> bool) \<Rightarrow>
     's node \<times> thread list \<Rightarrow> 's node \<times> thread list \<Rightarrow> bool"
  for ops :: "'s store_ops" and n :: nat and L :: lib and cfg :: config and okE :: "SigEntry \<Rightarrow> bool" where
  request: "step ops n L cfg okE (s, ts) (s, ts @ [Handler (serve n L cfg mth path r)])"
| start: "nGos s = gs @ t # hs \<Longrightarrow>
    step ops n L cfg okE (s, ts) (s\<lparr>nGos := gs @ hs\<rparr>, ts @ [Goroutine (task_prog n L cfg t)])"
| handler: "act ops p s p' s' \<Longrightarrow> ok_call okE p \<Longrightarrow>
    step ops n L cfg okE (s, ts @ Handler p # us) (s', ts @ Handler p' # us)"
| goroutine: "act ops q s q' s' \<Longrightarrow> ok_call okE q \<Longrightarrow>
    step ops n L cfg okE (s, ts @ Goroutine q # us) (s', ts @ Goroutine q' # us)"
| tick: "d \<ge> 0 \<Longrightarrow> step ops n L cfg okE (s, ts) (s\<lparr>nClock := nClock s + d\<rparr>, ts)"

inductive reach ::
    "'s store_ops \<Rightarrow> nat \<Rightarrow> lib \<Rightarrow> config \<Rightarrow> (SigEntry \<Rightarrow> bool) \<Rightarrow>
     's node \<times> thread list \<Rightarrow> 's node \<times> thread list \<Rightarrow> bool"
  for ops :: "'s store_ops" and n :: nat and L :: lib and cfg :: config and okE :: "SigEntry \<Rightarrow> bool" where
  reach_refl: "reach ops n L cfg okE c c"
| reach_step: "reach ops n L cfg okE c c' \<Longrightarrow> step ops n L cfg okE c' c'' \<Longrightarrow> reach ops n L cfg okE c c''"

context store_preorder begin

lemma reach_rel: "reach ops n L cfg okE c c' \<Longrightarrow> rel (nStore (fst c)) (nStore (fst c'))"
proof (induction rule: reach.induct)
  case (reach_step c c' c'')
  from reach_step.hyps(2) have "rel (nStore (fst c')) (nStore (fst c''))"
    by cases (auto intro: refl act_rel)
  with reach_step.IH show ?case by (rule trans)
qed (rule refl)

end

end
