(* ===== verification/Sqlite.thy ===== *)
theory Sqlite
  imports Store "HOL-Library.Multiset"
begin

text \<open>
  The production store (\<open>internal/store/sqlite.go\<close>).  The database is its two tables, with
  the constraints of the schema checked by \<open>INSERT\<close>: \<open>fingerprint\<close> is the primary key and
  \<open>hash\<close> is unique in \<open>blocks\<close>, \<open>hash\<close> is the primary key of \<open>sig_entries\<close>.  SQLite does
  not enforce \<open>REFERENCES\<close> unless asked to, and the code does not ask.  A transaction runs
  as one step (one connection is open).  The rows a \<open>SELECT\<close> without \<open>ORDER BY\<close> returns
  come in the order of the list, about which nothing is assumed.  A statement the driver
  cannot run at all (disk errors) is not modelled.

  The \<open>uids\<close> column holds the JSON text of the list of UIDs: \<open>json.Marshal\<close> replaces the
  bytes of a string that are no UTF-8 by U+FFFD, which \<open>utf8_fix\<close> writes out, and is
  otherwise undone by \<open>json.Unmarshal\<close>; the column is the list that the text encodes.
\<close>

section \<open>The code\<close>

record block_row =
  rFingerprint :: string
  rHash :: string
  rArmoredKey :: string
  rUids :: "string list"
  rSubmitTimestamp :: int64
  rSelfSig :: string
  rSigChainHead :: string
  rRevoked :: int
  rRevocationSig :: string

record sqlite =
  tBlocks :: "block_row list"
  tSigs :: "(string \<times> SigEntry) list"

definition empty_db :: sqlite where
  "empty_db = \<lparr>tBlocks = [], tSigs = []\<rparr>"

definition find_row :: "string \<Rightarrow> sqlite \<Rightarrow> block_row option" where
  "find_row fingerprint s = find (\<lambda>r. rFingerprint r = fingerprint) (tBlocks s)"

definition new_row :: "Block \<Rightarrow> block_row" where
  "new_row block =
     \<lparr>rFingerprint = bFingerprint block, rHash = bHash block, rArmoredKey = bArmoredKey block,
      rUids = map utf8_fix (bUIDs block), rSubmitTimestamp = bSubmitTimestamp block,
      rSelfSig = bSelfSig block, rSigChainHead = [], rRevoked = 0, rRevocationSig = []\<rparr>"

definition sq_Add :: "Block \<Rightarrow> sqlite \<Rightarrow> store_error option \<times> sqlite" where
  "sq_Add block s =
     (if list_ex (\<lambda>r. rFingerprint r = bFingerprint block \<or> rHash r = bHash block) (tBlocks s)
      then (Some InsertBlock, s)
      else (None, s\<lparr>tBlocks := tBlocks s @ [new_row block]\<rparr>))"

definition rows_of :: "sqlite \<Rightarrow> string \<Rightarrow> SigEntry list" where
  "rows_of s fingerprint = map snd (filter (\<lambda>r. fst r = fingerprint) (tSigs s))"

text \<open>
  The walk from the head back along \<open>PrevHash\<close>.  It does not return when the entries form
  a cycle, so its result is optional, and so is that of every read that makes it: \<open>None\<close> is
  a call that never returns, \<open>Some (Inl err)\<close> one that returns an error.
\<close>

partial_function (option) walk ::
    "(string, SigEntry) gomap \<Rightarrow> SigEntry option \<Rightarrow> SigEntry list \<Rightarrow> SigEntry list option" where
  "walk byHash cur ordered =
     (case cur of
        None \<Rightarrow> Some ordered
      | Some e \<Rightarrow> walk byHash (mget byHash (sePrevHash e)) (ordered @ [e]))"

definition by_hash :: "SigEntry list \<Rightarrow> (string, SigEntry) gomap" where
  "by_hash rows = foldl (\<lambda>m e. mset_key (seHash e) e m) [] rows"

text \<open>
  The first entry, in the order in which Go ranges over the map, that no entry points at.  Of a
  chain that forks there are several; the order of the list stands for that of the range.
\<close>

definition find_head :: "(string, SigEntry) gomap \<Rightarrow> SigEntry option" where
  "find_head byHash =
     (let referenced = sePrevHash ` set (map snd byHash) in
      find (\<lambda>e. seHash e \<notin> referenced) (map snd byHash))"

definition order_entries :: "SigEntry list \<Rightarrow> SigEntry list option" where
  "order_entries rows =
     (let byHash = by_hash rows in
      if byHash = [] then Some []
      else (case find_head byHash of
        None \<Rightarrow> Some []
      | Some head \<Rightarrow>
          (case walk byHash (Some head) [] of
             None \<Rightarrow> None
           | Some ordered \<Rightarrow> Some (rev ordered))))"

definition getSigEntries :: "string \<Rightarrow> sqlite \<Rightarrow> (store_error + SigEntry list) option" where
  "getSigEntries fingerprint s = map_option Inr (order_entries (rows_of s fingerprint))"

definition row_block :: "block_row \<Rightarrow> SigEntry list \<Rightarrow> Block" where
  "row_block r entries =
     \<lparr>bHash = rHash r, bFingerprint = rFingerprint r, bArmoredKey = rArmoredKey r,
      bUIDs = rUids r, bSubmitTimestamp = rSubmitTimestamp r, bSelfSig = rSelfSig r,
      bSigChainHead = rSigChainHead r, bSigEntries = entries, bRevoked = (rRevoked r \<noteq> 0),
      bRevocationSig = rRevocationSig r\<rparr>"

definition sq_Get :: "string \<Rightarrow> sqlite \<Rightarrow> (store_error + Block option) option" where
  "sq_Get fingerprint s =
     (case find_row fingerprint s of
        None \<Rightarrow> Some (Inr None)
      | Some r \<Rightarrow>
          (case getSigEntries fingerprint s of
             None \<Rightarrow> None
           | Some (Inl err) \<Rightarrow> Some (Inl err)
           | Some (Inr entries) \<Rightarrow> Some (Inr (Some (row_block r entries)))))"

fun load_all :: "sqlite \<Rightarrow> block_row list \<Rightarrow> (store_error + Block list) option" where
  "load_all s [] = Some (Inr [])"
| "load_all s (r # rs) =
     (case getSigEntries (rFingerprint r) s of
        None \<Rightarrow> None
      | Some (Inl err) \<Rightarrow> Some (Inl err)
      | Some (Inr entries) \<Rightarrow>
          (case load_all s rs of
             None \<Rightarrow> None
           | Some (Inl err) \<Rightarrow> Some (Inl err)
           | Some (Inr bs) \<Rightarrow> Some (Inr (row_block r entries # bs))))"

definition sq_All :: "sqlite \<Rightarrow> (store_error + Block list) option" where
  "sq_All s = load_all s (tBlocks s)"

definition sq_AddSig :: "string \<Rightarrow> SigEntry \<Rightarrow> sqlite \<Rightarrow> store_error option \<times> sqlite" where
  "sq_AddSig fingerprint entry s =
     (if list_ex (\<lambda>r. seHash (snd r) = seHash entry) (tSigs s) then (Some InsertSigEntry, s)
      else (None, s\<lparr>tSigs := tSigs s @ [(fingerprint, entry)],
        tBlocks := map (\<lambda>r. if rFingerprint r = fingerprint
                            then r\<lparr>rSigChainHead := seHash entry\<rparr> else r) (tBlocks s)\<rparr>))"

definition sq_Revoke :: "string \<Rightarrow> string \<Rightarrow> sqlite \<Rightarrow> store_error option \<times> sqlite" where
  "sq_Revoke fingerprint revocationSig s =
     (None, s\<lparr>tBlocks := map (\<lambda>r. if rFingerprint r = fingerprint
                then r\<lparr>rRevoked := 1, rRevocationSig := revocationSig\<rparr> else r) (tBlocks s)\<rparr>)"

definition sq_Hashes :: "sqlite \<Rightarrow> store_error + (string, string) gomap" where
  "sq_Hashes s = Inr (foldl (\<lambda>m r. mset_key (rFingerprint r) (rSigChainHead r) m) [] (tBlocks s))"

definition sqlite_ops :: "sqlite store_ops" where
  "sqlite_ops = \<lparr>opAdd = sq_Add, opGet = sq_Get, opAll = sq_All, opAddSig = sq_AddSig,
     opRevoke = sq_Revoke, opHashes = sq_Hashes\<rparr>"

section \<open>Ordering the entries\<close>

text \<open>\<open>entries_ok\<close>: the rows have distinct hashes and every entry ranks above its predecessor.\<close>

definition entries_ok :: "(string \<Rightarrow> nat) \<Rightarrow> SigEntry list \<Rightarrow> bool" where
  "entries_ok rk rows \<longleftrightarrow>
     distinct (map seHash rows) \<and> (\<forall>e \<in> set rows. rk (sePrevHash e) < rk (seHash e))"

lemma find_unique_Some:
  "x \<in> set xs \<Longrightarrow> P x \<Longrightarrow> (\<And>y. y \<in> set xs \<Longrightarrow> P y \<Longrightarrow> y = x) \<Longrightarrow> find P xs = Some x"
proof (induction xs)
  case (Cons a xs)
  show ?case
  proof (cases "P a")
    case True
    then have "a = x" using Cons.prems(3) by simp
    with True show ?thesis by simp
  next
    case False
    then have "x \<in> set xs" using Cons.prems(1,2) by auto
    then have "find P xs = Some x"
      by (rule Cons.IH) (use Cons.prems(2) in assumption, rule Cons.prems(3), simp_all)
    with False show ?thesis by simp
  qed
qed simp

lemma find_SomeD: "find P xs = Some x \<Longrightarrow> x \<in> set xs \<and> P x"
  by (induction xs) (auto split: if_splits)

lemma foldl_by_hash:
  "is_gomap m \<Longrightarrow> distinct (map seHash rows) \<Longrightarrow>
     is_gomap (foldl (\<lambda>m e. mset_key (seHash e) e m) m rows) \<and>
     mget (foldl (\<lambda>m e. mset_key (seHash e) e m) m rows) k =
       (case find (\<lambda>e. seHash e = k) rows of Some e \<Rightarrow> Some e | None \<Rightarrow> mget m k)"
proof (induction rows arbitrary: m)
  case (Cons e rows)
  have "find (\<lambda>e. seHash e = k) rows = None" if "seHash e = k"
    using Cons.prems(2) that by (auto simp: find_None_iff image_iff)
  with Cons.IH [of "mset_key (seHash e) e m"] Cons.prems show ?case by (auto split: option.splits)
qed simp

lemma is_gomap_by_hash: "distinct (map seHash rows) \<Longrightarrow> is_gomap (by_hash rows)"
  using foldl_by_hash [of "[]" rows] by (simp add: by_hash_def)

lemma mget_by_hash:
  assumes "distinct (map seHash rows)"
  shows "mget (by_hash rows) k = Some e \<longleftrightarrow> e \<in> set rows \<and> seHash e = k"
proof -
  have "mget (by_hash rows) k = find (\<lambda>e. seHash e = k) rows"
    using foldl_by_hash [of "[]" rows k] assms by (simp add: by_hash_def split: option.splits)
  moreover have "find (\<lambda>e. seHash e = k) rows = Some e \<longleftrightarrow> e \<in> set rows \<and> seHash e = k"
    using assms by (induction rows) (auto split: if_splits simp: rev_image_eqI)
  ultimately show ?thesis by simp
qed

lemma mget_by_hash_None:
  "distinct (map seHash rows) \<Longrightarrow> mget (by_hash rows) k = None \<longleftrightarrow> k \<notin> seHash ` set rows"
  using mget_by_hash by (metis (no_types, lifting) image_iff not_Some_eq)

lemma set_by_hash:
  assumes "distinct (map seHash rows)"
  shows "set (map snd (by_hash rows)) = set rows"
proof -
  have *: "(k, e) \<in> set (by_hash rows) \<longleftrightarrow> e \<in> set rows \<and> seHash e = k" for k e
    using assms by (metis mget_Some_iff mget_by_hash is_gomap_by_hash)
  show ?thesis
  proof
    show "set (map snd (by_hash rows)) \<subseteq> set rows" using * by auto
    show "set rows \<subseteq> set (map snd (by_hash rows))"
    proof
      fix e assume "e \<in> set rows"
      then have "(seHash e, e) \<in> set (by_hash rows)" using * by blast
      then show "e \<in> set (map snd (by_hash rows))" by (metis image_eqI set_map snd_conv)
    qed
  qed
qed

lemma by_hash_Nil_iff: "distinct (map seHash rows) \<Longrightarrow> by_hash rows = [] \<longleftrightarrow> rows = []"
  using set_by_hash [of rows] by auto

text \<open>What a read makes of the rows of a block: one branch of its entries, from the root to a tip.\<close>

definition branch :: "SigEntry list \<Rightarrow> SigEntry list \<Rightarrow> bool" where
  "branch rows es \<longleftrightarrow> set es \<subseteq> set rows \<and> distinct es \<and>
     (if es = [] then rows = []
      else linked (sePrevHash (hd es)) es \<and> sePrevHash (hd es) \<notin> seHash ` set rows \<and>
        seHash (last es) \<notin> sePrevHash ` set rows)"

lemma linked_hd: "linked h es \<Longrightarrow> es \<noteq> [] \<Longrightarrow> sePrevHash (hd es) = h"
  by (cases es) auto

lemma linked_rank:
  fixes rk :: "string \<Rightarrow> nat"
  shows "linked h es \<Longrightarrow> \<forall>e \<in> set es. rk (sePrevHash e) < rk (seHash e) \<Longrightarrow> e \<in> set es \<Longrightarrow> rk h < rk (seHash e)"
proof (induction es arbitrary: h)
  case (Cons a es)
  then show ?case by (cases "e = a") (auto intro: less_trans [of _ "rk (seHash a)"])
qed simp

lemma linked_distinct:
  fixes rk :: "string \<Rightarrow> nat"
  shows "linked h es \<Longrightarrow> \<forall>e \<in> set es. rk (sePrevHash e) < rk (seHash e) \<Longrightarrow> distinct es"
proof (induction es arbitrary: h)
  case (Cons a es)
  then have "a \<notin> set es" using linked_rank [of "seHash a" es rk a] by auto
  with Cons show ?case by auto
qed simp

text \<open>The walk ends at the root of the branch it follows.\<close>

lemma walk_branch:
  assumes "entries_ok rk rows" and "e \<in> set rows"
  shows "\<exists>es h. walk (by_hash rows) (Some e) acc = Some (acc @ rev (es @ [e])) \<and> linked h (es @ [e]) \<and>
    set es \<subseteq> set rows \<and> h \<notin> seHash ` set rows"
  using assms(2)
proof (induction "rk (seHash e)" arbitrary: e acc rule: less_induct)
  case less
  have d: "distinct (map seHash rows)" using assms(1) by (simp add: entries_ok_def)
  show ?case
  proof (cases "mget (by_hash rows) (sePrevHash e)")
    case None
    then show ?thesis using mget_by_hash_None [OF d, of "sePrevHash e"]
      by (intro exI [of _ "[]"] exI [of _ "sePrevHash e"]) (simp add: walk.simps)
  next
    case (Some e')
    then have e': "e' \<in> set rows" "seHash e' = sePrevHash e" by (simp_all add: mget_by_hash [OF d])
    have "rk (seHash e') < rk (seHash e)" using assms(1) less.prems e'(2) by (simp add: entries_ok_def)
    from less.hyps [OF this e'(1), of "acc @ [e]"] obtain es h where
      "walk (by_hash rows) (Some e') (acc @ [e]) = Some ((acc @ [e]) @ rev (es @ [e']))"
      "linked h (es @ [e'])" "set es \<subseteq> set rows" "h \<notin> seHash ` set rows" by blast
    then show ?thesis using Some e'
      by (intro exI [of _ "es @ [e']"] exI [of _ h]) (simp add: walk.simps [of _ "Some e"])
  qed
qed

lemma find_head_in: "distinct (map seHash rows) \<Longrightarrow> find_head (by_hash rows) = Some e \<Longrightarrow> e \<in> set rows"
  using set_by_hash [of rows] by (auto simp: find_head_def Let_def dest: find_SomeD)

lemma find_head_tip:
  "distinct (map seHash rows) \<Longrightarrow> find_head (by_hash rows) = Some e \<Longrightarrow> seHash e \<notin> sePrevHash ` set rows"
  using set_by_hash [of rows] by (auto simp: find_head_def Let_def dest!: find_SomeD)

text \<open>There is a tip: an entry whose hash ranks highest.\<close>

lemma find_head_None:
  assumes "entries_ok rk rows" and "find_head (by_hash rows) = None" shows "rows = []"
proof (rule ccontr)
  assume "rows \<noteq> []"
  then have "Max ((\<lambda>e. rk (seHash e)) ` set rows) \<in> (\<lambda>e. rk (seHash e)) ` set rows" by (intro Max_in) auto
  then obtain top where top: "top \<in> set rows" "rk (seHash top) = Max ((\<lambda>e. rk (seHash e)) ` set rows)" by auto
  have d: "distinct (map seHash rows)" using assms(1) by (simp add: entries_ok_def)
  from top(1) have "top \<in> set (map snd (by_hash rows))" unfolding set_by_hash [OF d] .
  then have "seHash top \<in> sePrevHash ` set rows"
    using assms(2) unfolding find_head_def Let_def set_by_hash [OF d] find_None_iff by blast
  then obtain e where "e \<in> set rows" "sePrevHash e = seHash top" by auto
  moreover from this have "rk (seHash e) \<le> rk (seHash top)" unfolding top(2) by (intro Max_ge) auto
  ultimately show False using assms(1) by (force simp: entries_ok_def)
qed

lemma order_entries_branch:
  assumes "entries_ok rk rows"
  shows "\<exists>es. order_entries rows = Some es \<and> branch rows es"
proof (cases "find_head (by_hash rows)")
  case None
  then have "rows = []" by (rule find_head_None [OF assms])
  then show ?thesis by (simp add: order_entries_def by_hash_def branch_def)
next
  case (Some head)
  have d: "distinct (map seHash rows)" using assms by (simp add: entries_ok_def)
  note head = find_head_in [OF d Some] find_head_tip [OF d Some]
  from walk_branch [OF assms head(1), of "[]"] obtain es h where
    es: "walk (by_hash rows) (Some head) [] = Some (rev (es @ [head]))" "linked h (es @ [head])"
    "set es \<subseteq> set rows" "h \<notin> seHash ` set rows" by auto
  have "\<forall>e \<in> set (es @ [head]). rk (sePrevHash e) < rk (seHash e)"
    using assms es(3) head(1) by (auto simp: entries_ok_def)
  with es(2) have "distinct (es @ [head])" by (rule linked_distinct)
  with es head linked_hd [OF es(2)] have "branch rows (es @ [head])" by (simp add: branch_def)
  moreover have "by_hash rows \<noteq> []" using d head(1) by (auto simp: by_hash_Nil_iff)
  then have "order_entries rows = Some (es @ [head])" using es(1) Some by (simp add: order_entries_def Let_def)
  ultimately show ?thesis by blast
qed

lemma linked_prevs: "linked h (es @ [e]) \<Longrightarrow> sePrevHash ` set (es @ [e]) = insert h (seHash ` set es)"
proof (induction es arbitrary: h)
  case (Cons a es)
  then show ?case by auto
qed simp

lemma walk_linked:
  assumes "linked h es" and "\<forall>e \<in> set es. mget m (seHash e) = Some e" and "mget m h = None"
  shows "walk m (mget m (chain_head h es)) acc = Some (acc @ rev es)"
  using assms(1,2)
proof (induction es arbitrary: acc rule: rev_induct)
  case Nil
  then show ?case using assms(3) by (simp add: walk.simps)
next
  case (snoc e es)
  then have "walk m (mget m (sePrevHash e)) (acc @ [e]) = Some ((acc @ [e]) @ rev es)"
    using snoc.IH [of "acc @ [e]"] by simp
  then show ?case using snoc.prems by (simp add: walk.simps [of m "Some e"])
qed

text \<open>
  The rows of a straight chain, returned in any order, are put back into the order of the
  chain.
\<close>

lemma order_entries_linked:
  assumes ok: "entries_ok rk rows" and perm: "mset es = mset rows" and linked: "linked h es"
  shows "order_entries rows = Some es"
proof (cases es rule: rev_cases)
  case Nil
  with perm show ?thesis by (simp add: order_entries_def by_hash_def)
next
  case (snoc es' l)
  have set: "set es = set rows" using perm by (rule mset_eq_setD)
  have d: "distinct (map seHash rows)" and rank: "\<forall>e \<in> set es. rk (sePrevHash e) < rk (seHash e)"
    using ok set by (auto simp: entries_ok_def)
  have "mset (map seHash es) = mset (map seHash rows)" using perm by simp
  with d have de: "distinct (map seHash es)" by (metis mset_eq_imp_distinct_iff)
  have above: "rk h < rk (seHash e)" if "e \<in> set es" for e
    using linked_rank [OF linked rank that] .
  have refs: "sePrevHash ` set rows = insert h (seHash ` set es')"
    using linked_prevs [of h es' l] linked unfolding snoc set [symmetric] .
  have lr: "l \<in> set rows" unfolding set [symmetric] snoc by simp
  have "seHash l \<noteq> h" using above [of l] snoc by auto
  then have l: "seHash l \<notin> sePrevHash ` set rows" using de snoc refs by auto
  have uniq: "e = l" if "e \<in> set rows" "seHash e \<notin> sePrevHash ` set rows" for e
    using that unfolding refs unfolding set [symmetric] snoc by auto
  have "find (\<lambda>e. seHash e \<notin> sePrevHash ` set rows) (map snd (by_hash rows)) = Some l"
    by (rule find_unique_Some) (unfold set_by_hash [OF d], fact lr, fact l, rule uniq)
  then have "find_head (by_hash rows) = Some l"
    unfolding find_head_def Let_def set_by_hash [OF d] .
  moreover have "by_hash rows \<noteq> []" using d lr by (auto simp: by_hash_Nil_iff)
  moreover have "walk (by_hash rows) (Some l) [] = Some (rev es)"
  proof -
    have head: "mget (by_hash rows) (chain_head h es) = Some l"
      using d lr snoc by (simp add: mget_by_hash)
    have base: "mget (by_hash rows) h = None"
      using above set by (auto simp: mget_by_hash_None [OF d])
    have "\<forall>e \<in> set es. mget (by_hash rows) (seHash e) = Some e"
      using d set by (simp add: mget_by_hash)
    from walk_linked [OF linked this base, of "[]"] show ?thesis unfolding head by simp
  qed
  ultimately show ?thesis by (simp add: order_entries_def Let_def)
qed

section \<open>The contract\<close>

definition sq_ledger :: "sqlite \<Rightarrow> string \<Rightarrow> Block option" where
  "sq_ledger s fp = (case sq_Get fp s of Some r \<Rightarrow> drop_err r | None \<Rightarrow> None)"

definition sq_stored :: "sqlite \<Rightarrow> string \<Rightarrow> SigEntry set" where
  "sq_stored s fp = set (rows_of s fp)"

definition sq_norm :: "Block \<Rightarrow> Block" where
  "sq_norm b = b\<lparr>bUIDs := map utf8_fix (bUIDs b)\<rparr>"

definition sq_inv :: "(string \<Rightarrow> nat) \<Rightarrow> sqlite \<Rightarrow> bool" where
  "sq_inv rk s \<longleftrightarrow>
     distinct (map rFingerprint (tBlocks s)) \<and> entries_ok rk (map snd (tSigs s)) \<and>
     (\<forall>(fp, e) \<in> set (tSigs s). fp \<in> rFingerprint ` set (tBlocks s))"

definition row_linear :: "string \<Rightarrow> string \<Rightarrow> SigEntry list \<Rightarrow> bool" where
  "row_linear h head rows \<longleftrightarrow>
     (\<exists>es. linked h es \<and> mset es = mset rows \<and>
        head = (if es = [] then [] else seHash (last es)))"

definition sq_linear :: "sqlite \<Rightarrow> string \<Rightarrow> bool" where
  "sq_linear s fp =
     (case find_row fp s of
        None \<Rightarrow> True
      | Some r \<Rightarrow> row_linear (rHash r) (rSigChainHead r) (rows_of s fp))"

lemma entries_ok_filter:
  "entries_ok rk (map snd sigs) \<Longrightarrow> entries_ok rk (map snd (filter P sigs))"
  by (auto simp: entries_ok_def distinct_map_filter)

lemma entries_ok_rows: "sq_inv rk s \<Longrightarrow> entries_ok rk (rows_of s fp)"
  unfolding sq_inv_def rows_of_def by (blast intro: entries_ok_filter)

lemma getSigEntries_branch:
  "sq_inv rk s \<Longrightarrow> \<exists>es. getSigEntries fp s = Some (Inr es) \<and> branch (rows_of s fp) es"
  using order_entries_branch [OF entries_ok_rows] by (fastforce simp: getSigEntries_def)

lemma getSigEntries_total:
  "sq_inv rk s \<Longrightarrow> \<exists>es. getSigEntries fp s = Some (Inr es) \<and> set es \<subseteq> sq_stored s fp"
  using getSigEntries_branch [of rk s fp] by (auto simp: branch_def sq_stored_def)

lemma find_row_Some: "find_row fp s = Some r \<Longrightarrow> r \<in> set (tBlocks s) \<and> rFingerprint r = fp"
  by (auto simp: find_row_def dest: find_SomeD)

lemma find_row_iff:
  assumes "sq_inv rk s"
  shows "find_row fp s = Some r \<longleftrightarrow> r \<in> set (tBlocks s) \<and> rFingerprint r = fp"
proof
  assume "r \<in> set (tBlocks s) \<and> rFingerprint r = fp"
  then show "find_row fp s = Some r"
    unfolding find_row_def
    by (intro find_unique_Some) (use assms in \<open>auto simp: sq_inv_def distinct_map dest: inj_onD\<close>)
qed (rule find_row_Some)

lemma find_row_None: "find_row fp s = None \<longleftrightarrow> fp \<notin> rFingerprint ` set (tBlocks s)"
  by (auto simp: find_row_def find_None_iff)

text \<open>The block a fingerprint's row stands for.\<close>

lemma sq_Get_row:
  assumes "sq_inv rk s"
  shows "sq_Get fp s = Some (Inr (sq_ledger s fp))"
    and "find_row fp s = None \<Longrightarrow> sq_ledger s fp = None"
    and "find_row fp s = Some r \<Longrightarrow>
      \<exists>es. getSigEntries fp s = Some (Inr es) \<and> set es \<subseteq> sq_stored s fp \<and> sq_ledger s fp = Some (row_block r es)"
  using getSigEntries_total [OF assms, of fp]
  by (auto simp: sq_ledger_def sq_Get_def split: option.splits)

lemma sq_ledger_Some:
  assumes "sq_inv rk s" and "sq_ledger s fp = Some b"
  obtains r es where "find_row fp s = Some r" "getSigEntries fp s = Some (Inr es)"
    "set es \<subseteq> sq_stored s fp" "b = row_block r es" "rFingerprint r = fp"
proof (cases "find_row fp s")
  case None
  with assms sq_Get_row(2) show ?thesis by simp
next
  case (Some r)
  with assms sq_Get_row(3) [OF assms(1) Some] show ?thesis
    using that find_row_Some [OF Some] by auto
qed

lemma sq_ledger_None: "sq_inv rk s \<Longrightarrow> sq_ledger s fp = None \<longleftrightarrow> fp \<notin> rFingerprint ` set (tBlocks s)"
  unfolding find_row_None [symmetric]
  using sq_Get_row(2,3) [of rk s fp] by (cases "find_row fp s") auto

lemma row_block_sel [simp]:
  "bHash (row_block r es) = rHash r" "bFingerprint (row_block r es) = rFingerprint r"
  "bSigChainHead (row_block r es) = rSigChainHead r" "bSigEntries (row_block r es) = es"
  by (simp_all add: row_block_def)

lemma load_all_ledger:
  assumes "sq_inv rk s" and "set rs \<subseteq> set (tBlocks s)"
  shows "\<exists>bs. load_all s rs = Some (Inr bs) \<and> map bFingerprint bs = map rFingerprint rs \<and>
    (\<forall>b \<in> set bs. sq_ledger s (bFingerprint b) = Some b)"
  using assms(2)
proof (induction rs)
  case (Cons r rs)
  then have "find_row (rFingerprint r) s = Some r" using find_row_iff [OF assms(1)] by simp
  from sq_Get_row(3) [OF assms(1) this] Cons show ?case by auto
qed simp

lemma sq_All_ledger:
  assumes "sq_inv rk s"
  shows "\<exists>bs. sq_All s = Some (Inr bs) \<and> distinct (map bFingerprint bs) \<and>
    (\<forall>b. b \<in> set bs \<longleftrightarrow> sq_ledger s (bFingerprint b) = Some b)"
proof -
  obtain bs where bs: "load_all s (tBlocks s) = Some (Inr bs)"
    "map bFingerprint bs = map rFingerprint (tBlocks s)"
    "\<forall>b \<in> set bs. sq_ledger s (bFingerprint b) = Some b"
    using load_all_ledger [OF assms, of "tBlocks s"] by auto
  have "b \<in> set bs" if b: "sq_ledger s (bFingerprint b) = Some b" for b
  proof -
    have "bFingerprint b \<in> rFingerprint ` set (tBlocks s)"
      using b sq_ledger_None [OF assms, of "bFingerprint b"] by auto
    then obtain c where "c \<in> set bs" "bFingerprint c = bFingerprint b"
      by (metis bs(2) image_iff list.set_map)
    with bs(3) b show ?thesis by (metis option.inject)
  qed
  moreover have "distinct (map bFingerprint bs)" using assms bs(2) by (simp only: sq_inv_def)
  ultimately show ?thesis using bs by (auto simp: sq_All_def)
qed

lemma foldl_mset_key:
  "is_gomap m \<Longrightarrow> distinct (map k rs) \<Longrightarrow>
     is_gomap (foldl (\<lambda>m r. mset_key (k r) (v r) m) m rs) \<and>
     mget (foldl (\<lambda>m r. mset_key (k r) (v r) m) m rs) fp =
       (case find (\<lambda>r. k r = fp) rs of Some r \<Rightarrow> Some (v r) | None \<Rightarrow> mget m fp)"
proof (induction rs arbitrary: m)
  case (Cons r rs)
  have "find (\<lambda>r. k r = fp) rs = None" if "k r = fp"
    using Cons.prems(2) that by (auto simp: find_None_iff image_iff)
  with Cons.IH [of "mset_key (k r) (v r) m"] Cons.prems show ?case by (auto split: option.splits)
qed simp

lemma sq_Hashes_ledger:
  assumes "sq_inv rk s"
  shows "\<exists>hs. sq_Hashes s = Inr hs \<and> is_gomap hs \<and>
    (\<forall>fp. mget hs fp = map_option bSigChainHead (sq_ledger s fp))"
proof -
  have "map_option bSigChainHead (sq_ledger s fp) = map_option rSigChainHead (find_row fp s)" for fp
    using sq_Get_row(2,3) [OF assms, of fp] by (cases "find_row fp s") auto
  moreover have "distinct (map rFingerprint (tBlocks s))" using assms by (simp add: sq_inv_def)
  ultimately show ?thesis
    using foldl_mset_key [of "[]" rFingerprint "tBlocks s" rSigChainHead]
    by (auto simp: sq_Hashes_def find_row_def split: option.splits)
qed

text \<open>How the three updates change the two tables.\<close>

lemma find_snoc: "find P (xs @ [x]) = (case find P xs of Some y \<Rightarrow> Some y | None \<Rightarrow> if P x then Some x else None)"
  by (induction xs) auto

lemma find_map_row:
  "(\<And>r. rFingerprint (f r) = rFingerprint r) \<Longrightarrow>
     find (\<lambda>r. rFingerprint r = fp) (map f rs) = map_option f (find (\<lambda>r. rFingerprint r = fp) rs)"
  by (induction rs) auto

lemma sq_inv_update:
  assumes "sq_inv rk s" and f: "\<And>r. rFingerprint (f r) = rFingerprint r"
    and blocks: "tBlocks s' = map f (tBlocks s)" and "entries_ok rk (map snd (tSigs s'))"
    and "\<forall>(fp, e) \<in> set (tSigs s'). fp \<in> rFingerprint ` set (tBlocks s)"
  shows "sq_inv rk s'"
proof -
  have "map rFingerprint (tBlocks s') = map rFingerprint (tBlocks s)"
    by (simp add: blocks f)
  moreover have "rFingerprint ` set (tBlocks s') = rFingerprint ` set (tBlocks s)"
    by (simp add: blocks image_image f)
  ultimately show ?thesis using assms(1,4,5) by (simp only: sq_inv_def)
qed

lemma rows_of_tBlocks [simp]: "rows_of (s\<lparr>tBlocks := bs\<rparr>) fp = rows_of s fp"
  by (simp add: rows_of_def)

lemma rows_of_append [simp]:
  "rows_of (s\<lparr>tSigs := tSigs s @ [(fp, e)]\<rparr>) fp' = rows_of s fp' @ (if fp' = fp then [e] else [])"
  by (simp add: rows_of_def)

lemma sq_ledger_row:
  assumes "find_row fp s' = find_row fp s" and "rows_of s' fp = rows_of s fp"
  shows "sq_ledger s' fp = sq_ledger s fp"
  unfolding sq_ledger_def sq_Get_def getSigEntries_def assms ..

lemma sq_Add_ok:
  assumes inv: "sq_inv rk s" and new: "new_block b" and add: "sq_Add b s = (None, s')"
  shows "sq_inv rk s' \<and> sq_ledger s' = (sq_ledger s)(bFingerprint b \<mapsto> sq_norm b) \<and>
    sq_stored s' = sq_stored s"
proof -
  let ?fp = "bFingerprint b"
  let ?r = "new_row b"
  have s': "s' = s\<lparr>tBlocks := tBlocks s @ [?r]\<rparr>" and fp: "?fp \<notin> rFingerprint ` set (tBlocks s)"
    using add by (auto simp: sq_Add_def list_ex_iff split: if_splits)
  have r: "row_block ?r [] = sq_norm b" and rfp: "rFingerprint ?r = ?fp"
    using new by (cases b, auto simp: new_block_def row_block_def sq_norm_def new_row_def)
  have inv': "sq_inv rk s'" using inv fp rfp by (auto simp: s' sq_inv_def)
  have rows: "rows_of s' = rows_of s" by (simp add: s' fun_eq_iff)
  have "rows_of s ?fp = []"
    using inv fp by (force simp: rows_of_def filter_empty_conv sq_inv_def)
  moreover have "find_row ?fp s' = Some ?r"
    using fp rfp find_row_None [of ?fp s] by (simp add: find_row_def find_snoc s')
  ultimately have "sq_ledger s' ?fp = Some (sq_norm b)"
    using rows r by (simp add: sq_ledger_def sq_Get_def getSigEntries_def order_entries_def by_hash_def)
  moreover have "sq_ledger s' fp' = sq_ledger s fp'" if "fp' \<noteq> ?fp" for fp'
    using that rfp rows by (intro sq_ledger_row) (auto simp: find_row_def find_snoc s' split: option.splits)
  ultimately show ?thesis using inv' rows by (auto simp: fun_eq_iff sq_stored_def)
qed

lemma sq_AddSig_ok:
  assumes inv: "sq_inv rk s" and b: "sq_ledger s fp = Some b"
    and rank: "rk (sePrevHash e) < rk (seHash e)" and add: "sq_AddSig fp e s = (None, s')"
  shows "sq_inv rk s' \<and> sq_stored s' = (sq_stored s)(fp := insert e (sq_stored s fp)) \<and>
    (\<exists>es. sq_ledger s' = (sq_ledger s)(fp \<mapsto> b\<lparr>bSigEntries := es, bSigChainHead := seHash e\<rparr>) \<and>
      getSigEntries fp s' = Some (Inr es))"
proof -
  let ?f = "\<lambda>r. if rFingerprint r = fp then r\<lparr>rSigChainHead := seHash e\<rparr> else r"
  have s': "s' = s\<lparr>tSigs := tSigs s @ [(fp, e)], tBlocks := map ?f (tBlocks s)\<rparr>"
    and fresh: "seHash e \<notin> seHash ` snd ` set (tSigs s)"
    using add by (auto simp: sq_AddSig_def list_ex_iff split: if_splits)
  obtain r where r: "find_row fp s = Some r" "b = row_block r (bSigEntries b)" "rFingerprint r = fp"
    using sq_ledger_Some [OF inv b] by (metis row_block_sel(4))
  have inv': "sq_inv rk s'"
  proof (rule sq_inv_update [OF inv, of ?f])
    show "entries_ok rk (map snd (tSigs s'))"
      using inv fresh rank by (auto simp: s' sq_inv_def entries_ok_def image_image)
    show "\<forall>(fp, e) \<in> set (tSigs s'). fp \<in> rFingerprint ` set (tBlocks s)"
      using inv find_row_Some [OF r(1)] by (auto simp: s' sq_inv_def)
  qed (auto simp: s')
  have rows: "rows_of s' fp' = rows_of s fp' @ (if fp' = fp then [e] else [])" for fp'
    by (simp add: s' rows_of_def)
  have find: "find_row fp' s' = map_option ?f (find_row fp' s)" for fp'
    unfolding find_row_def s' by (simp add: find_map_row)
  then have "find_row fp s' = Some (r\<lparr>rSigChainHead := seHash e\<rparr>)" using r by simp
  from sq_Get_row(3) [OF inv' this] obtain es where es: "getSigEntries fp s' = Some (Inr es)"
    "sq_ledger s' fp = Some (row_block (r\<lparr>rSigChainHead := seHash e\<rparr>) es)" by auto
  have "row_block (r\<lparr>rSigChainHead := seHash e\<rparr>) es = b\<lparr>bSigEntries := es, bSigChainHead := seHash e\<rparr>"
    by (subst r(2)) (simp add: row_block_def)
  moreover have "sq_ledger s' fp' = sq_ledger s fp'" if "fp' \<noteq> fp" for fp'
  proof (rule sq_ledger_row)
    show "find_row fp' s' = find_row fp' s"
      using that find [of fp'] find_row_Some [of fp' s] by (cases "find_row fp' s") auto
  qed (use that rows in simp)
  ultimately show ?thesis using inv' rows es by (auto simp: fun_eq_iff sq_stored_def)
qed

lemma sq_Revoke_ok:
  assumes inv: "sq_inv rk s" and b: "sq_ledger s fp = Some b" and rev: "sq_Revoke fp sig s = (x, s')"
  shows "x = None \<and> sq_inv rk s' \<and> sq_stored s' = sq_stored s \<and>
    sq_ledger s' = (sq_ledger s)(fp \<mapsto> revoked_block b sig)"
proof -
  let ?f = "\<lambda>r. if rFingerprint r = fp then r\<lparr>rRevoked := 1, rRevocationSig := sig\<rparr> else r"
  have s': "s' = s\<lparr>tBlocks := map ?f (tBlocks s)\<rparr>" and x: "x = None"
    using rev by (auto simp: sq_Revoke_def)
  obtain r where r: "find_row fp s = Some r" "b = row_block r (bSigEntries b)" "rFingerprint r = fp"
    "getSigEntries fp s = Some (Inr (bSigEntries b))"
    using sq_ledger_Some [OF inv b] by (metis row_block_sel(4))
  have inv': "sq_inv rk s'"
    by (rule sq_inv_update [OF inv, of ?f]) (use inv in \<open>auto simp: s' sq_inv_def\<close>)
  have rows: "rows_of s' = rows_of s" by (simp add: s' fun_eq_iff)
  have find: "find_row fp' s' = map_option ?f (find_row fp' s)" for fp'
    unfolding find_row_def s' by (simp add: find_map_row)
  have "sq_ledger s' fp = Some (row_block (r\<lparr>rRevoked := 1, rRevocationSig := sig\<rparr>) (bSigEntries b))"
    using find [of fp] r rows by (simp add: sq_ledger_def sq_Get_def getSigEntries_def)
  moreover have "row_block (r\<lparr>rRevoked := 1, rRevocationSig := sig\<rparr>) (bSigEntries b) = revoked_block b sig"
    by (subst (2) r(2)) (simp add: row_block_def revoked_block_def)
  moreover have "sq_ledger s' fp' = sq_ledger s fp'" if "fp' \<noteq> fp" for fp'
  proof (rule sq_ledger_row)
    show "find_row fp' s' = find_row fp' s"
      using that find [of fp'] find_row_Some [of fp' s] by (cases "find_row fp' s") auto
  qed (use rows in simp)
  ultimately show ?thesis using inv' rows x by (auto simp: fun_eq_iff sq_stored_def)
qed

text \<open>Straight chains stay straight, and are what \<open>Get\<close> returns.\<close>

lemma sq_linear_view:
  assumes inv: "sq_inv rk s" and lin: "sq_linear s fp" and b: "sq_ledger s fp = Some b"
  shows "linked (bHash b) (bSigEntries b) \<and> head_ok b \<and> sq_stored s fp = set (bSigEntries b) \<and>
    mset (bSigEntries b) = mset (rows_of s fp)"
proof -
  obtain r where r: "find_row fp s = Some r" "b = row_block r (bSigEntries b)"
    "getSigEntries fp s = Some (Inr (bSigEntries b))"
    using sq_ledger_Some [OF inv b] by (metis row_block_sel(4))
  with lin obtain es where es: "linked (rHash r) es" "mset es = mset (rows_of s fp)"
    "rSigChainHead r = (if es = [] then [] else seHash (last es))"
    by (auto simp: sq_linear_def row_linear_def)
  then have "getSigEntries fp s = Some (Inr es)"
    using order_entries_linked [OF entries_ok_rows [OF inv]] by (simp add: getSigEntries_def)
  with r(3) have "bSigEntries b = es" by simp
  moreover have "bHash b = rHash r" "bSigChainHead b = rSigChainHead r"
    using arg_cong [OF r(2), of bHash] arg_cong [OF r(2), of bSigChainHead]
    by (simp_all only: row_block_sel)
  ultimately show ?thesis
    using es mset_eq_setD [OF es(2)] unfolding head_ok_def sq_stored_def by metis
qed

lemma sq_linear_row:
  "map_option (\<lambda>r. (rHash r, rSigChainHead r)) (find_row fp s') =
     map_option (\<lambda>r. (rHash r, rSigChainHead r)) (find_row fp s) \<Longrightarrow>
   rows_of s' fp = rows_of s fp \<Longrightarrow> sq_linear s' fp = sq_linear s fp"
  by (cases "find_row fp s"; cases "find_row fp s'") (simp_all add: sq_linear_def)

lemma sq_linear_Add:
  assumes inv: "sq_inv rk s" and add: "sq_Add b s = (None, s')"
  shows "sq_linear s' (bFingerprint b) \<and>
    (\<forall>fp. fp \<noteq> bFingerprint b \<longrightarrow> sq_linear s' fp = sq_linear s fp)"
proof -
  let ?r = "new_row b"
  have s': "s' = s\<lparr>tBlocks := tBlocks s @ [?r]\<rparr>" and fp: "bFingerprint b \<notin> rFingerprint ` set (tBlocks s)"
    using add by (auto simp: sq_Add_def list_ex_iff split: if_splits)
  have r: "rFingerprint ?r = bFingerprint b" "rSigChainHead ?r = []" by (simp_all add: new_row_def)
  have "rows_of s' (bFingerprint b) = []"
    using inv fp by (force simp: s' rows_of_def filter_empty_conv sq_inv_def)
  moreover have "find_row fp s' = (if fp = bFingerprint b then Some ?r else find_row fp s)" for fp
    using r fp find_row_None [of "bFingerprint b" s]
    by (auto simp: s' find_row_def find_snoc split: option.splits dest: find_SomeD)
  moreover have "rows_of s' = rows_of s" by (simp add: s' fun_eq_iff)
  ultimately show ?thesis
    using r by (auto simp: sq_linear_def row_linear_def split: option.splits)
qed

lemma sq_linear_AddSig:
  assumes inv: "sq_inv rk s" and b: "sq_ledger s fp = Some b" and lin: "sq_linear s fp"
    and link: "sePrevHash e = chain_head (bHash b) (bSigEntries b)"
    and rank: "rk (sePrevHash e) < rk (seHash e)"
    and fresh: "\<forall>fp'. \<forall>e' \<in> sq_stored s fp'. seHash e' \<noteq> seHash e"
  shows "\<exists>s'. sq_AddSig fp e s = (None, s') \<and> sq_linear s' fp \<and>
    sq_ledger s' = (sq_ledger s)(fp \<mapsto> with_entry b e)"
proof -
  let ?f = "\<lambda>r. if rFingerprint r = fp then r\<lparr>rSigChainHead := seHash e\<rparr> else r"
  have "seHash e \<noteq> seHash (snd r)" if "r \<in> set (tSigs s)" for r
  proof -
    have "snd r \<in> sq_stored s (fst r)" using that by (auto simp: sq_stored_def rows_of_def)
    with fresh show ?thesis by metis
  qed
  then have "\<not> list_ex (\<lambda>r. seHash (snd r) = seHash e) (tSigs s)" unfolding list_ex_iff by metis
  moreover define s' where s': "s' = s\<lparr>tSigs := tSigs s @ [(fp, e)], tBlocks := map ?f (tBlocks s)\<rparr>"
  ultimately have add: "sq_AddSig fp e s = (None, s')" by (simp add: sq_AddSig_def)
  obtain es where inv': "sq_inv rk s'"
    and es: "sq_ledger s' = (sq_ledger s)(fp \<mapsto> b\<lparr>bSigEntries := es, bSigChainHead := seHash e\<rparr>)"
      "getSigEntries fp s' = Some (Inr es)"
    using sq_AddSig_ok [OF inv b rank add] by blast
  obtain r where r: "find_row fp s = Some r" "bHash b = rHash r" "rFingerprint r = fp"
    using sq_ledger_Some [OF inv b] by (metis row_block_sel(1))
  have rows: "rows_of s' fp = rows_of s fp @ [e]" by (simp add: s' rows_of_def)
  have "linked (bHash b) (bSigEntries b)" "mset (bSigEntries b) = mset (rows_of s fp)"
    using sq_linear_view [OF inv lin b] by blast+
  then have view: "linked (rHash r) (bSigEntries b @ [e])"
    "mset (bSigEntries b @ [e]) = mset (rows_of s' fp)"
    using link r(2) by (simp_all add: rows)
  have "find_row fp s' = Some (r\<lparr>rSigChainHead := seHash e\<rparr>)"
    using r by (simp add: find_row_def s' find_map_row)
  moreover have "row_linear (rHash r) (seHash e) (rows_of s' fp)"
    unfolding row_linear_def using view by (intro exI [of _ "bSigEntries b @ [e]"]) simp
  ultimately have "sq_linear s' fp" by (simp add: sq_linear_def)
  moreover have "es = bSigEntries b @ [e]"
    using order_entries_linked [OF entries_ok_rows [OF inv'] view(2,1)] es(2)
    by (simp add: getSigEntries_def)
  ultimately show ?thesis using add es by (auto simp: with_entry_def)
qed

lemma sq_linear_AddSig_frame:
  assumes "sq_AddSig fp e s = (r, s')" and "fp' \<noteq> fp"
  shows "sq_linear s' fp' = sq_linear s fp'"
proof (rule sq_linear_row)
  show "map_option (\<lambda>r. (rHash r, rSigChainHead r)) (find_row fp' s') =
     map_option (\<lambda>r. (rHash r, rSigChainHead r)) (find_row fp' s)"
    using assms find_row_Some [of fp' s]
    by (cases "find_row fp' s") (auto simp: sq_AddSig_def find_row_def find_map_row split: if_splits)
  show "rows_of s' fp' = rows_of s fp'"
    using assms by (auto simp: sq_AddSig_def rows_of_def split: if_splits)
qed

lemma sq_linear_Revoke:
  assumes "sq_Revoke fp sig s = (r, s')"
  shows "sq_linear s' fp' = sq_linear s fp'"
proof (rule sq_linear_row)
  show "map_option (\<lambda>r. (rHash r, rSigChainHead r)) (find_row fp' s') =
     map_option (\<lambda>r. (rHash r, rSigChainHead r)) (find_row fp' s)"
    using assms by (cases "find_row fp' s") (auto simp: sq_Revoke_def find_row_def find_map_row)
  show "rows_of s' fp' = rows_of s fp'" using assms by (auto simp: sq_Revoke_def)
qed

lemma sq_norm_uids: "sq_norm b = b\<lparr>bUIDs := bUIDs (sq_norm b)\<rparr>"
  by (simp add: sq_norm_def)

lemma sq_unstored: "sq_inv rk s \<Longrightarrow> sq_ledger s fp = None \<Longrightarrow> sq_stored s fp = {}"
  by (force simp: sq_ledger_None sq_stored_def rows_of_def filter_empty_conv sq_inv_def)

lemma sq_Add_dup:
  assumes "sq_inv rk s" and "sq_ledger s (bFingerprint b) \<noteq> None"
  shows "sq_Add b s = (Some InsertBlock, s)"
  using assms sq_ledger_None [OF assms(1), of "bFingerprint b"] by (force simp: sq_Add_def list_ex_iff)

lemma sq_Add_new:
  assumes inv: "sq_inv rk s" and new: "sq_ledger s (bFingerprint b) = None"
    and hash: "\<forall>fp c. sq_ledger s fp = Some c \<longrightarrow> bHash c \<noteq> bHash b"
  shows "fst (sq_Add b s) = None"
proof -
  have "rHash r \<noteq> bHash b" if "r \<in> set (tBlocks s)" for r
    using sq_Get_row(3) [OF inv, of "rFingerprint r" r] find_row_iff [OF inv] hash that by fastforce
  moreover have "bFingerprint b \<notin> rFingerprint ` set (tBlocks s)"
    using new sq_ledger_None [OF inv] by simp
  ultimately show ?thesis by (auto simp: sq_Add_def list_ex_iff image_iff)
qed

interpretation sql: linear_store sqlite_ops "sq_inv rk" sq_ledger sq_stored sq_norm
    "\<lambda>e. rk (sePrevHash e) < rk (seHash e)" sq_linear
  for rk :: "string \<Rightarrow> nat"
proof (unfold_locales, goal_cases)
  case (1 b) show ?case by (rule sq_norm_uids)
next
  case (2 s fp b) then show ?case using sq_ledger_Some [of rk s fp b] by (metis row_block_sel(2))
next
  case (3 s fp b) then show ?case using sq_ledger_Some [of rk s fp b] by (metis row_block_sel(4))
next
  case (4 s fp) then show ?case by (rule sq_unstored)
next
  case (5 s fp) then show ?case by (simp add: sqlite_ops_def sq_Get_row(1))
next
  case (6 s) then show ?case by (simp add: sqlite_ops_def sq_All_ledger)
next
  case (7 s) then show ?case by (simp add: sqlite_ops_def sq_Hashes_ledger)
next
  case (8 s b) then show ?case by (simp add: sqlite_ops_def sq_Add_dup)
next
  case (9 s b) then show ?case by (simp add: sqlite_ops_def sq_Add_new)
next
  case (10 s b r s') then show ?case by (auto simp: sqlite_ops_def sq_Add_def split: if_splits)
next
  case (11 s b s') then show ?case using sq_Add_ok [of rk s b s'] by (simp add: sqlite_ops_def)
next
  case (12 s fp b e r s') then show ?case by (auto simp: sqlite_ops_def sq_AddSig_def split: if_splits)
next
  case (13 s fp b e s') then show ?case
    using sq_AddSig_ok [of rk s fp b e s'] by (auto simp: sqlite_ops_def)
next
  case (14 s fp b sig) then show ?case
    using sq_Revoke_ok [of rk s fp b sig] by (cases "sq_Revoke fp sig s") (auto simp: sqlite_ops_def)
next
  case (15 s fp b) then show ?case using sq_linear_view by blast
next
  case (16 s b s') then show ?case using sq_linear_Add [of rk s b s'] by (simp add: sqlite_ops_def)
next
  case (17 s fp b e s')
  then have "list_all (\<lambda>r. seHash (snd r) \<noteq> seHash e) (tSigs s)"
    by (auto simp: sqlite_ops_def sq_AddSig_def list_ex_iff list_all_iff split: if_splits)
  then have "\<forall>fp'. \<forall>e' \<in> sq_stored s fp'. seHash e' \<noteq> seHash e"
    by (auto simp: sq_stored_def rows_of_def list_all_iff)
  with 17 show ?case using sq_linear_AddSig [of rk s fp b e] by (auto simp: sqlite_ops_def)
next
  case (18 s fp b e)
  then have "\<forall>(fp', e') \<in> set (tSigs s). seHash e' \<noteq> seHash e"
    by (force simp: sq_stored_def rows_of_def)
  then show ?case by (auto simp: sqlite_ops_def sq_AddSig_def list_ex_iff)
next
  case (19 s fp b e r s' fp') then show ?case
    using sq_linear_AddSig_frame [of fp e s r s' fp'] by (simp add: sqlite_ops_def)
next
  case (20 s fp b sig r s' fp') then show ?case
    using sq_linear_Revoke [of fp sig s r s' fp'] by (simp add: sqlite_ops_def)
qed

section \<open>Properties\<close>

definition chain_entry :: "string \<Rightarrow> string \<Rightarrow> SigEntry" where
  "chain_entry prev h = \<lparr>seHash = h, sePrevHash = prev, seSigner = [], seSig = [], seTimestamp = 0,
     seSignerKey = [], seSourceNode = []\<rparr>"

definition sample_row :: block_row where
  "sample_row = \<lparr>rFingerprint = ''F'', rHash = ''a'', rArmoredKey = [], rUids = [], rSubmitTimestamp = 0,
     rSelfSig = [], rSigChainHead = [], rRevoked = 0, rRevocationSig = []\<rparr>"

text \<open>A walk that enters a cycle of hashes never returns, and nor does a read that makes it.\<close>

lemma walk_cycle:
  assumes cycle: "\<And>h. h \<in> C \<Longrightarrow> \<exists>e. mget m h = Some e \<and> sePrevHash e \<in> C" and "sePrevHash e \<in> C"
  shows "walk m (Some e) acc = None"
proof (rule ccontr)
  assume "walk m (Some e) acc \<noteq> None"
  then obtain es where "walk m (Some e) acc = Some es" by blast
  then have "m = m \<longrightarrow> \<not> (\<exists>d. Some e = Some d \<and> sePrevHash d \<in> C)"
  proof (rule walk.raw_induct [of "\<lambda>m' cur acc es. m' = m \<longrightarrow> \<not> (\<exists>d. cur = Some d \<and> sePrevHash d \<in> C)", rotated])
    fix walk' m' cur acc es
    assume IH: "\<And>m' cur acc es. walk' m' cur acc = Some es \<Longrightarrow> m' = m \<longrightarrow> \<not> (\<exists>d. cur = Some d \<and> sePrevHash d \<in> C)"
      and step: "(case cur of None \<Rightarrow> Some acc | Some e \<Rightarrow> walk' m' (mget m' (sePrevHash e)) (acc @ [e])) = Some es"
    show "m' = m \<longrightarrow> \<not> (\<exists>d. cur = Some d \<and> sePrevHash d \<in> C)"
    proof (intro impI notI, elim exE conjE)
      fix d assume m: "m' = m" and d: "cur = Some d" "sePrevHash d \<in> C"
      from cycle [OF d(2)] obtain d' where d': "mget m (sePrevHash d) = Some d'" "sePrevHash d' \<in> C" by blast
      from step d(1) m d'(1) have "walk' m (Some d') (acc @ [d]) = Some es" by simp
      with IH [OF this] d'(2) show False by blast
    qed
  qed
  with assms(2) show False by blast
qed

lemma hung_read:
  "sq_Get ''F'' \<lparr>tBlocks = [sample_row], tSigs = [(''F'', chain_entry ''b'' ''a''), (''F'', chain_entry ''a'' ''b''),
     (''F'', chain_entry ''a'' ''c'')]\<rparr> = None"
proof -
  let ?rows = "[chain_entry ''b'' ''a'', chain_entry ''a'' ''b'', chain_entry ''a'' ''c'']"
  have "walk (by_hash ?rows) (Some (chain_entry ''a'' ''c'')) [] = None"
    by (rule walk_cycle [of "{''a'', ''b''}"])
      (auto simp: by_hash_def chain_entry_def mset_key_def mget_def split: if_splits)
  moreover have "find_head (by_hash ?rows) = Some (chain_entry ''a'' ''c'')" "by_hash ?rows \<noteq> []"
    by (simp_all add: find_head_def Let_def by_hash_def chain_entry_def mset_key_def)
  ultimately have "order_entries ?rows = None" by (simp add: order_entries_def Let_def)
  then show ?thesis by (simp add: sq_Get_def find_row_def sample_row_def getSigEntries_def rows_of_def)
qed

text \<open>
  C19.  Round trip of a chain through the database: when the entries of a block form a chain
  that starts at any hash, \<open>getSigEntries\<close> returns exactly this chain in order, whatever the
  order in which SQLite returns the rows, and it stops.
\<close>

theorem sqlite_chain_roundtrip:
  assumes "linked h es" and "mset (rows_of s fp) = mset es"
    and "distinct (map seHash es)" and "\<forall>e \<in> set es. rk (sePrevHash e) < (rk (seHash e) :: nat)"
  shows "getSigEntries fp s = Some (Inr es)"
proof -
  have "distinct (map seHash (rows_of s fp))"
    using assms(2,3) by (metis distinct_map mset_eq_imp_distinct_iff set_mset_mset)
  moreover have "set (rows_of s fp) = set es" using assms(2) by (rule mset_eq_setD)
  ultimately have "entries_ok rk (rows_of s fp)" using assms(4) by (simp add: entries_ok_def)
  then show ?thesis
    using order_entries_linked [of rk "rows_of s fp" es h] assms(1,2) by (simp add: getSigEntries_def)
qed

theorem sqlite_chain_roundtrip_witness:
  "getSigEntries ''F'' \<lparr>tBlocks = [], tSigs = [(''F'', chain_entry ''aa'' ''aaa''), (''G'', chain_entry ''a'' ''b''),
      (''F'', chain_entry ''a'' ''aa'')]\<rparr> = Some (Inr [chain_entry ''a'' ''aa'', chain_entry ''aa'' ''aaa''])"
  by (rule sqlite_chain_roundtrip [where h = "''a''" and rk = length])
    (simp_all add: chain_entry_def rows_of_def)

text \<open>
  C33.  Every read of the database returns, and returns what is stored: in a database whose
  entry hashes rank above the hashes they point at, the walk along \<open>PrevHash\<close> ends.  \<open>Get\<close>
  returns the columns of the row of the fingerprint with one whole branch of the rows recorded
  for it: entries that point at each other one after the other, from one that points at no
  recorded entry to one that no recorded entry points at, and none only if none is recorded.
  \<open>All\<close> returns, row by row, what \<open>Get\<close> returns.
\<close>

theorem sqlite_reads_terminate:
  assumes "sq_inv rk s"
  shows "(case find_row fp s of
      None \<Rightarrow> sq_Get fp s = Some (Inr None)
    | Some r \<Rightarrow> \<exists>es. sq_Get fp s = Some (Inr (Some (row_block r es))) \<and> branch (rows_of s fp) es) \<and>
    (\<exists>bs. sq_All s = Some (Inr bs) \<and>
       list_all2 (\<lambda>r b. sq_Get (rFingerprint r) s = Some (Inr (Some b))) (tBlocks s) bs)"
proof
  show "case find_row fp s of
      None \<Rightarrow> sq_Get fp s = Some (Inr None)
    | Some r \<Rightarrow> \<exists>es. sq_Get fp s = Some (Inr (Some (row_block r es))) \<and> branch (rows_of s fp) es"
    using getSigEntries_branch [OF assms, of fp] by (auto simp: sq_Get_def split: option.split)
  have "\<exists>bs. load_all s rs = Some (Inr bs) \<and>
      list_all2 (\<lambda>r b. sq_Get (rFingerprint r) s = Some (Inr (Some b))) rs bs" if "set rs \<subseteq> set (tBlocks s)" for rs
    using that
  proof (induction rs)
    case (Cons r rs)
    then have "find_row (rFingerprint r) s = Some r" using find_row_iff [OF assms] by simp
    with Cons getSigEntries_total [OF assms, of "rFingerprint r"] show ?case
      by (auto simp: sq_Get_def list_all2_Cons1)
  qed simp
  then show "\<exists>bs. sq_All s = Some (Inr bs) \<and>
      list_all2 (\<lambda>r b. sq_Get (rFingerprint r) s = Some (Inr (Some b))) (tBlocks s) bs"
    by (simp add: sq_All_def)
qed

theorem sqlite_reads_terminate_witness:
  "sq_Get ''F'' \<lparr>tBlocks = [sample_row], tSigs = [(''F'', chain_entry ''a'' ''aa'')]\<rparr> =
     Some (Inr (Some (row_block sample_row [chain_entry ''a'' ''aa''])))"
proof -
  let ?s = "\<lparr>tBlocks = [sample_row], tSigs = [(''F'', chain_entry ''a'' ''aa'')]\<rparr>"
  have "sq_inv length ?s" by (auto simp: sq_inv_def entries_ok_def chain_entry_def sample_row_def)
  moreover have "find_row ''F'' ?s = Some sample_row" by (simp add: find_row_def sample_row_def)
  moreover have "rows_of ?s ''F'' = [chain_entry ''a'' ''aa'']" by (simp add: rows_of_def)
  ultimately obtain es where es: "sq_Get ''F'' ?s = Some (Inr (Some (row_block sample_row es)))"
    "branch [chain_entry ''a'' ''aa''] es" using sqlite_reads_terminate [of length ?s "''F''"] by auto
  from es(2) have "es = [chain_entry ''a'' ''aa'']"
    by (cases es; cases "tl es") (auto simp: branch_def split: if_splits)
  with es(1) show ?thesis by simp
qed

text \<open>
  C32.  Both stores implement the append of a linked signature alike: on a block whose
  entries form a straight chain, adding an entry that points at the head and whose hash is
  new makes \<open>Get\<close> return the old chain with the entry at its end, the head moved to it, and
  changes no other block.
\<close>

theorem stores_append_signature:
  assumes "rk (sePrevHash e) < (rk (seHash e) :: nat)" and "sePrevHash e = chain_head (bHash b) (bSigEntries b)"
  shows "(mem_inv m \<and> mget m fp = Some b \<and> mem_linear m fp \<longrightarrow>
      (\<exists>m'. mem_AddSig fp e m = (None, m') \<and> mem_linear m' fp \<and> mem_Get fp m' = Inr (Some (with_entry b e)) \<and>
        (\<forall>fp'. fp' \<noteq> fp \<longrightarrow> mem_Get fp' m' = mem_Get fp' m))) \<and>
    (sq_inv rk s \<and> sq_Get fp s = Some (Inr (Some b)) \<and> sq_linear s fp \<and>
       (\<forall>(fp', e') \<in> set (tSigs s). seHash e' \<noteq> seHash e) \<longrightarrow>
      (\<exists>s'. sq_AddSig fp e s = (None, s') \<and> sq_linear s' fp \<and> sq_Get fp s' = Some (Inr (Some (with_entry b e))) \<and>
        (\<forall>fp'. fp' \<noteq> fp \<longrightarrow> sq_Get fp' s' = sq_Get fp' s)))"
proof (intro conjI impI; elim conjE)
  assume "mem_inv m" "mget m fp = Some b" "mem_linear m fp"
  then show "\<exists>m'. mem_AddSig fp e m = (None, m') \<and> mem_linear m' fp \<and>
      mem_Get fp m' = Inr (Some (with_entry b e)) \<and> (\<forall>fp'. fp' \<noteq> fp \<longrightarrow> mem_Get fp' m' = mem_Get fp' m)"
    using assms(2) by (auto simp: mem_AddSig_def mem_Get_def with_entry_def mem_linear_def head_ok_def)
next
  assume inv: "sq_inv rk s" and "sq_Get fp s = Some (Inr (Some b))" and lin: "sq_linear s fp"
    and new: "\<forall>(fp', e') \<in> set (tSigs s). seHash e' \<noteq> seHash e"
  then have b: "sq_ledger s fp = Some b" by (simp add: sq_ledger_def)
  have "\<forall>fp'. \<forall>e' \<in> sq_stored s fp'. seHash e' \<noteq> seHash e"
    using new by (auto simp: sq_stored_def rows_of_def)
  from sq_linear_AddSig [OF inv b lin assms(2,1) this]
  obtain s' where s': "sq_AddSig fp e s = (None, s')" "sq_linear s' fp"
    "sq_ledger s' = (sq_ledger s)(fp \<mapsto> with_entry b e)" by blast
  moreover have "sq_inv rk s'" using sq_AddSig_ok [OF inv b assms(1) s'(1)] by blast
  ultimately show "\<exists>s'. sq_AddSig fp e s = (None, s') \<and> sq_linear s' fp \<and>
      sq_Get fp s' = Some (Inr (Some (with_entry b e))) \<and> (\<forall>fp'. fp' \<noteq> fp \<longrightarrow> sq_Get fp' s' = sq_Get fp' s)"
    using sq_Get_row(1) [OF inv] sq_Get_row(1) [of rk s'] by (intro exI [of _ s']) simp
qed

theorem stores_append_signature_witness:
  "(\<exists>m'. mem_AddSig ''F'' (chain_entry ''a'' ''aa'') [(''F'', row_block sample_row [])] = (None, m') \<and>
      mem_Get ''F'' m' = Inr (Some (with_entry (row_block sample_row []) (chain_entry ''a'' ''aa'')))) \<and>
   (\<exists>s'. sq_AddSig ''F'' (chain_entry ''a'' ''aa'') \<lparr>tBlocks = [sample_row], tSigs = []\<rparr> = (None, s') \<and>
      sq_Get ''F'' s' = Some (Inr (Some (with_entry (row_block sample_row []) (chain_entry ''a'' ''aa'')))))"
proof -
  let ?m = "[(''F'', row_block sample_row [])]" and ?s = "\<lparr>tBlocks = [sample_row], tSigs = []\<rparr>"
  let ?b = "row_block sample_row []" and ?e = "chain_entry ''a'' ''aa''"
  have m: "mem_inv ?m" "mget ?m ''F'' = Some ?b" "mem_linear ?m ''F''"
    by (simp_all add: mem_inv_def is_gomap_def mget_def mem_linear_def head_ok_def row_block_def sample_row_def)
  have q: "sq_inv length ?s" "sq_linear ?s ''F''" "sq_Get ''F'' ?s = Some (Inr (Some ?b))"
    by (simp_all add: sq_inv_def entries_ok_def sq_linear_def find_row_def sample_row_def row_linear_def
        rows_of_def sq_Get_def getSigEntries_def order_entries_def by_hash_def)
  have e: "length (sePrevHash ?e) < length (seHash ?e)" "sePrevHash ?e = chain_head (bHash ?b) (bSigEntries ?b)"
    by (simp_all add: chain_entry_def row_block_def sample_row_def)
  have new: "\<forall>(fp', e') \<in> set (tSigs ?s). seHash e' \<noteq> seHash ?e" by simp
  show ?thesis
    using stores_append_signature [of length, OF e, of ?m "''F''" ?s] m q new by blast
qed

end
