(* ===== verification/Safety.thy ===== *)
theory Safety
  imports Node Sqlite
begin

text \<open>
  What every interleaving preserves.  \<open>safe K p\<close> says that the program \<open>p\<close> only ever makes
  calls on the store that are justified, where \<open>K\<close> holds the blocks the program has read so
  far: a block is added only when its key, hash and self-signature were checked, an entry
  and a revocation only when the signature was checked against the hash and the key of a
  block that was read.  It says too that \<open>p\<close> never panics: what a later read of a block in \<open>K\<close>
  returns is dereferenced.  Since no block disappears and the submitted fields of a block never
  change, what a program has read stays true whatever other programs do in between, so the
  justification still holds when the call is made.
\<close>

section \<open>Valid ledgers\<close>

definition key_allowed :: "lib \<Rightarrow> config \<Rightarrow> string list \<Rightarrow> bool" where
  "key_allowed L cfg uids \<longleftrightarrow> cAllowAll cfg \<or> domainAllowed (ExtractEmailDomains L uids) (cDomains cfg)"

definition block_valid :: "lib \<Rightarrow> config \<Rightarrow> Block \<Rightarrow> bool" where
  "block_valid L cfg b \<longleftrightarrow>
     (\<exists>uids. ParseArmoredKey L (bArmoredKey b) = Inr (bFingerprint b, uids) \<and> key_allowed L cfg uids) \<and>
     CheckKeyStrength L (bArmoredKey b) = None \<and>
     block_hash_ok (Sum256 L) b \<and>
     (\<exists>now. VerifyDetachedSig L now (SubmitPayload L (bFingerprint b) (bArmoredKey b) (bSubmitTimestamp b))
        (bSelfSig b) (bArmoredKey b))"

definition signer_key :: "Block set \<Rightarrow> SigEntry \<Rightarrow> string \<Rightarrow> bool" where
  "signer_key K e key \<longleftrightarrow>
     (if seSignerKey e \<noteq> [] then key = seSignerKey e
      else \<exists>sb \<in> K. bFingerprint sb = seSigner e \<and> bArmoredKey sb = key)"

definition entry_valid :: "lib \<Rightarrow> Block set \<Rightarrow> Block \<Rightarrow> SigEntry \<Rightarrow> bool" where
  "entry_valid L K b e \<longleftrightarrow>
     entry_hash_ok (Sum256 L) e \<and>
     (\<exists>now key. signer_key K e key \<and>
        VerifyDetachedSig L now (TrustPayload (bHash b) (seSigner e) (seTimestamp e)) (seSig e) key)"

definition revocation_valid :: "lib \<Rightarrow> Block \<Rightarrow> string \<Rightarrow> bool" where
  "revocation_valid L b sig \<longleftrightarrow>
     (\<exists>now. VerifyDetachedSig L now (RevokePayload (bFingerprint b) (bHash b)) sig (bArmoredKey b))"

definition blocks_of :: "(string \<Rightarrow> Block option) \<Rightarrow> Block set" where
  "blocks_of l = {b. l (bFingerprint b) = Some b}"

definition ledger_valid :: "lib \<Rightarrow> config \<Rightarrow> (string \<Rightarrow> Block option) \<Rightarrow> (string \<Rightarrow> SigEntry set) \<Rightarrow> bool" where
  "ledger_valid L cfg l st \<longleftrightarrow>
     (\<forall>fp b. l fp = Some b \<longrightarrow>
        block_valid L cfg b \<and> (\<forall>e \<in> st fp. entry_valid L (blocks_of l) b e) \<and>
        (bRevoked b \<longrightarrow> revocation_valid L b (bRevocationSig b)))"

definition known :: "(string \<Rightarrow> Block option) \<Rightarrow> Block set \<Rightarrow> bool" where
  "known l K \<longleftrightarrow> (\<forall>b \<in> K. \<exists>b'. l (bFingerprint b) = Some b' \<and> core b' = core b)"

text \<open>
  A configuration as \<open>main\<close> sets it up: syncing uses that of the handlers, and the fanout of gossip
  is not negative.
\<close>

definition wired :: "config \<Rightarrow> bool" where
  "wired cfg \<longleftrightarrow> scAllowAll (cSync cfg) = cAllowAll cfg \<and> scDomains (cSync cfg) = cDomains cfg \<and> 0 \<le> cFanout cfg"

lemma wired_main [simp]: "wired (main_config L f)"
  by (simp add: wired_def main_config_def Let_def)

section \<open>Safe programs\<close>

primrec safe :: "lib \<Rightarrow> config \<Rightarrow> Block set \<Rightarrow> 'a io \<Rightarrow> bool" where
  "safe L cfg K (Ret x) = True"
| "safe L cfg K Panic = False"
| "safe L cfg K NoFuel = True"
| "safe L cfg K (Now k) = (\<forall>r. safe L cfg K (k r))"
| "safe L cfg K (Get fp k) =
     ((\<forall>r. drop_err r = None \<longrightarrow> fp \<notin> bFingerprint ` K \<longrightarrow> safe L cfg K (k r)) \<and>
      (\<forall>b. bFingerprint b = fp \<longrightarrow> safe L cfg (insert b K) (k (Inr (Some b)))))"
| "safe L cfg K (All k) = (\<forall>r. safe L cfg K (k r))"
| "safe L cfg K (Hashes k) = (\<forall>r. safe L cfg K (k r))"
| "safe L cfg K (Add b k) = (block_valid L cfg b \<and> new_block b \<and> (\<forall>r. safe L cfg K (k r)))"
| "safe L cfg K (AddSig fp e k) =
     ((\<exists>b \<in> K. bFingerprint b = fp \<and> entry_valid L K b e) \<and> (\<forall>r. safe L cfg K (k r)))"
| "safe L cfg K (Revoke fp sig k) =
     ((\<exists>b \<in> K. bFingerprint b = fp \<and> revocation_valid L b sig) \<and> (\<forall>r. safe L cfg K (k r)))"
| "safe L cfg K (PeersAll k) = (\<forall>r. safe L cfg K (k r))"
| "safe L cfg K (PeersAdd url k) = (\<forall>r. safe L cfg K (k r))"
| "safe L cfg K (PeersLen k) = (\<forall>r. safe L cfg K (k r))"
| "safe L cfg K (PeersContains url k) = (\<forall>r. safe L cfg K (k r))"
| "safe L cfg K (PeersSetMeta url m p) = safe L cfg K p"
| "safe L cfg K (PeersMeta k) = (\<forall>r. safe L cfg K (k r))"
| "safe L cfg K (IsSeen i k) = (\<forall>r. safe L cfg K (k r))"
| "safe L cfg K (MarkSeen i p) = safe L cfg K p"
| "safe L cfg K (Shuffle xs k) = (\<forall>r. safe L cfg K (k r))"
| "safe L cfg K (LookupHost h k) = (\<forall>r. safe L cfg K (k r))"
| "safe L cfg K (HttpGet url k) = (\<forall>r. safe L cfg K (k r))"
| "safe L cfg K (HttpPost url body k) = (\<forall>r. safe L cfg K (k r))"
| "safe L cfg K (Go t p) = safe L cfg K p"

lemma signer_key_mono: "signer_key K e key \<Longrightarrow> K \<subseteq> K' \<Longrightarrow> signer_key K' e key"
  by (auto simp: signer_key_def split: if_splits)

lemma entry_valid_mono: "entry_valid L K b e \<Longrightarrow> K \<subseteq> K' \<Longrightarrow> entry_valid L K' b e"
  unfolding entry_valid_def by (blast intro: signer_key_mono)

lemma safe_union: "safe L cfg K p \<Longrightarrow> safe L cfg (K \<union> J) p"
proof (induction p arbitrary: K)
  case (Get fp k)
  have "safe L cfg (insert b (K \<union> J)) (k (Inr (Some b)))" if "bFingerprint b = fp" for b
    using Get.IH [OF rangeI, of "insert b K"] Get.prems that by simp
  with Get show ?case by (simp add: image_Un)
next
  case (AddSig fp e k)
  then show ?case by (auto intro: entry_valid_mono)
qed auto

lemma safe_mono: "safe L cfg K p \<Longrightarrow> K \<subseteq> K' \<Longrightarrow> safe L cfg K' p"
  using safe_union [of L cfg K p K'] by (simp add: Un_absorb1)

lemma safe_bind:
  assumes "safe L cfg K p" and "\<And>x K'. K \<subseteq> K' \<Longrightarrow> safe L cfg K' (f x)"
  shows "safe L cfg K (bind p f)"
  using assms
proof (induction p arbitrary: K)
  case (Get fp k)
  have "safe L cfg (insert b K) (bind (k (Inr (Some b))) f)" if "bFingerprint b = fp" for b
    by (rule Get.IH [OF rangeI]) (use Get.prems that in auto)
  with Get show ?case by auto
qed auto

lemma safe_go_all [simp]: "safe L cfg K (go_all ts)"
  by (induction ts) auto

lemma safe_Get:
  assumes "\<And>r. drop_err r = None \<Longrightarrow> fp \<notin> bFingerprint ` K \<Longrightarrow> safe L cfg K (k r)"
    and "\<And>b. bFingerprint b = fp \<Longrightarrow> safe L cfg (insert b K) (k (Inr (Some b)))"
  shows "safe L cfg K (Get fp k)"
  using assms by simp

text \<open>The programs of \<open>p2p.go\<close>.\<close>

lemma safe_postJSON [simp]: "safe L cfg K (postJSON url body)"
  by (simp add: postJSON_def)

lemma safe_gossip [simp]:
  assumes "0 \<le> n"
  shows "safe L cfg K (GossipBlock n b origin)" "safe L cfg K (GossipSig n fp e origin)"
    "safe L cfg K (GossipRevoke n fp sig origin)"
  using assms
  by (simp_all add: GossipBlock_def GossipSig_def GossipRevoke_def pickTargets_def postJSON_def Let_def)

lemma safe_check_entry:
  assumes "block \<in> K" and "bFingerprint block = fp"
    and "if getString eMap ''signer_armored_key'' \<noteq> [] then key = getString eMap ''signer_armored_key''
         else \<exists>sb \<in> K. bFingerprint sb = getString eMap ''signer_fingerprint'' \<and> bArmoredKey sb = key"
    and "safe L cfg K skip" and "\<And>b. bFingerprint b = fp \<Longrightarrow> safe L cfg (insert b K) (added b)"
  shows "safe L cfg K (check_entry L fp block eMap skip added key)"
proof -
  define e where "e ts = \<lparr>seHash = ComputeSigEntryHash (Sum256 L) (getString eMap ''prev_hash'')
        (getString eMap ''signer_fingerprint'') (getString eMap ''sig'') ts,
      sePrevHash = getString eMap ''prev_hash'', seSigner = getString eMap ''signer_fingerprint'',
      seSig = getString eMap ''sig'', seTimestamp = ts,
      seSignerKey = getString eMap ''signer_armored_key'', seSourceNode = getString eMap ''source_node''\<rparr>" for ts
  have "signer_key K (e ts) key" for ts using assms(3) by (simp add: signer_key_def e_def)
  then have "\<exists>b \<in> K. bFingerprint b = fp \<and> entry_valid L K b (e ts)"
    if "VerifyDetachedSig L now (TrustPayload (bHash block) (getString eMap ''signer_fingerprint'') ts)
      (getString eMap ''sig'') key" for now ts
    using assms(1,2) that by (auto simp: entry_valid_def entry_hash_ok_def e_def intro!: bexI [of _ block])
  then show ?thesis
    using assms(4,5) by (auto simp: check_entry_def Let_def e_def split: option.splits)
qed

lemma safe_apply_loop:
  assumes fetch: "\<And>K base fp. safe L cfg K (fetch base fp)"
  shows "block \<in> K \<Longrightarrow> bFingerprint block = fp \<Longrightarrow>
    safe L cfg K (apply_loop L fetch fp fetchBase raws block existing)"
proof (induction raws arbitrary: block existing K)
  case (Cons raw raws)
  let ?skip = "apply_loop L fetch fp fetchBase raws block existing"
  have skip: "safe L cfg K' ?skip" if "K \<subseteq> K'" for K'
    using Cons.IH Cons.prems that by blast
  show ?case
  proof (cases raw)
    case (AObj eMap)
    let ?signer = "getString eMap ''signer_fingerprint''" and ?key = "getString eMap ''signer_armored_key''"
    let ?check = "check_entry L fp block eMap ?skip
      (\<lambda>block'. apply_loop L fetch fp fetchBase raws block' (insert ?signer existing))"
    have check: "safe L cfg K' (?check key)" if "K \<subseteq> K'"
      "if ?key \<noteq> [] then key = ?key else \<exists>sb \<in> K'. bFingerprint sb = ?signer \<and> bArmoredKey sb = key" for K' key
      by (rule safe_check_entry) (use Cons that skip in auto)
    have found: "safe L cfg (insert sb K') (?check (bArmoredKey sb))"
      if "K \<subseteq> K'" "?key = []" "bFingerprint sb = ?signer" for K' sb
      by (rule check) (use that in auto)
    have refetch: "safe L cfg K' (Get ?signer (\<lambda>r. case drop_err r of None \<Rightarrow> ?skip
        | Some signerBlock \<Rightarrow> ?check (bArmoredKey signerBlock)))" if "K \<subseteq> K'" "?key = []" for K'
      using found skip that by (intro safe_Get) auto
    have "safe L cfg K (Get ?signer (\<lambda>r. case drop_err r of
          Some signerBlock \<Rightarrow> ?check (bArmoredKey signerBlock)
        | None \<Rightarrow> if fetchBase \<noteq> [] then bind (fetch fetchBase ?signer) (\<lambda>_. Get ?signer (\<lambda>r.
              case drop_err r of None \<Rightarrow> ?skip | Some signerBlock \<Rightarrow> ?check (bArmoredKey signerBlock)))
            else ?skip))" if "?key = []"
      using found [OF order_refl] skip refetch that by (intro safe_Get) (auto intro!: safe_bind fetch)
    with AObj skip check show ?thesis by (auto simp: Let_def)
  qed (use skip in \<open>simp_all add: Let_def\<close>)
qed simp

lemma safe_applySigEntries:
  assumes "\<And>K base fp. safe L cfg K (fetch base fp)"
  shows "safe L cfg K (applySigEntries L fetch fp raws fetchBase)"
  unfolding applySigEntries_def by (rule safe_Get) (auto intro: safe_apply_loop assms)

lemma domainAllowed_eq: "api_domainAllowed = domainAllowed"
  by (simp add: fun_eq_iff api_domainAllowed_def domainAllowed_def)

lemma block_valid_make:
  assumes "ParseArmoredKey L k = Inr (fp, uids)" and "CheckKeyStrength L k = None"
    and "key_allowed L cfg uids" and "VerifyDetachedSig L now (SubmitPayload L fp k ts) selfSig k"
  shows "block_valid L cfg (make_block L fp k uids ts selfSig)"
  using assms by (auto simp: block_valid_def make_block_def block_hash_ok_def)

lemma new_block_make [simp]: "new_block (make_block L fp k uids ts selfSig)"
  by (simp add: new_block_def make_block_def)

lemma safe_validateAndStore:
  assumes "wired cfg" and "\<And>K base fp. safe L cfg K (fetch base fp)"
  shows "safe L cfg K (validateAndStore L (cSync cfg) fetch data base)"
proof -
  have "safe L cfg K' (case get data ''sig_chain'' of AArr raws \<Rightarrow> applySigEntries L fetch fp raws base | _ \<Rightarrow> Ret ())"
    for K' fp
    by (auto split: any.splits intro!: safe_applySigEntries assms)
  moreover have "key_allowed L cfg uids"
    if "scAllowAll (cSync cfg) \<or> domainAllowed (ExtractEmailDomains L uids) (scDomains (cSync cfg))" for uids
    using that assms(1) by (auto simp: key_allowed_def wired_def)
  ultimately show ?thesis
    unfolding validateAndStore_def Let_def
    by (auto split: sum.splits option.splits intro!: block_valid_make)
qed

lemma safe_fetch [simp]:
  assumes "wired cfg"
  shows "safe L cfg K (fetchAndStoreBlock n L (cSync cfg) base fp)"
proof (induction n arbitrary: K base fp)
  case (Suc n)
  then have "safe L cfg K' (validateAndStore L (cSync cfg) (fetchAndStoreBlock n L (cSync cfg)) data base)" for K' data
    by (rule safe_validateAndStore [OF assms])
  then show ?case by (auto split: reply.splits option.splits)
qed simp

lemma safe_fetch_loop [simp]:
  "wired cfg \<Longrightarrow> safe L cfg K (fetch_loop n L (cSync cfg) fp peers)"
proof (induction peers arbitrary: K)
  case (Cons p peers)
  then show ?case unfolding fetch_loop.simps Let_def by (intro safe_bind safe_Get) auto
qed simp

lemma safe_pull_loop [simp]:
  assumes "wired cfg" shows "safe L cfg K (pull_loop n L (cSync cfg) base lh ph)"
proof (induction ph arbitrary: K)
  case (Cons h ph)
  have "safe L cfg K' (syncSigChain n L (cSync cfg) base fp)" for K' fp
    using assms by (auto simp: syncSigChain_def split: reply.splits option.splits any.splits
        intro!: safe_applySigEntries)
  with Cons assms show ?case by (cases h) (auto intro!: safe_bind split: option.splits)
qed simp

lemma safe_push_loop [simp]: "safe L cfg K (push_loop base ph lh)"
proof (induction lh arbitrary: K)
  case (Cons h lh)
  then show ?case by (cases h) (auto split: option.splits)
qed simp

lemma safe_sync [simp]:
  assumes "wired cfg"
  shows "safe L cfg K (SyncWithPeer n L (cSync cfg) url)" "safe L cfg K (FetchBlockFromPeers n L (cSync cfg) fp)"
  using assms by (auto simp: SyncWithPeer_def FetchBlockFromPeers_def Let_def
      split: reply.splits sum.splits prod.splits intro!: safe_bind)

text \<open>The handlers.\<close>

lemma safe_writeJSON [simp]: "safe L cfg K (writeJSON st v)" "safe L cfg K (errJSON st msg)"
  by (simp_all add: writeJSON_def errJSON_def)

lemma safe_respond [simp]: "fp \<in> bFingerprint ` K \<Longrightarrow> safe L cfg K (respond_updated fp)"
  by (auto simp: respond_updated_def split: option.splits)

lemma safe_decodeBody: "(\<And>body. safe L cfg K (h body)) \<Longrightarrow> safe L cfg K (decodeBody r h)"
  by (auto simp: decodeBody_def split: option.splits)

lemma safe_timestamp: "(\<And>ts. safe L cfg K (h ts)) \<Longrightarrow> safe L cfg K (timestamp L' body key h)"
  by (auto simp: timestamp_def split: prod.splits)

lemma safe_reads [simp]:
  "safe L cfg K handleListBlocks" "safe L cfg K (handleGetBlock fp)" "safe L cfg K (handleSearch L' r)"
  "safe L cfg K (handleWellKnown c)" "safe L cfg K handleListPeers" "safe L cfg K handleP2PHashes"
  "safe L cfg K (handleP2PGetBlock h)" "safe L cfg K handleP2PSync" "safe L cfg K (FetchMeta L' url)"
  "safe L cfg K (registerSelfWithPeer url nd)"
  by (auto simp: handleListBlocks_def handleGetBlock_def handleSearch_def handleWellKnown_def
      handleListPeers_def handleP2PHashes_def handleP2PGetBlock_def handleP2PSync_def FetchMeta_def
      registerSelfWithPeer_def Let_def split: sum.splits option.splits reply.splits intro!: safe_bind)

lemma safe_handleAddPeer [simp]: "safe L cfg K (handleAddPeer L' c r)"
  unfolding handleAddPeer_def Let_def
  by (rule safe_decodeBody) (auto split: option.splits prod.splits reply.splits)

lemma key_allowedI: "(\<not> cAllowAll cfg \<longrightarrow> api_domainAllowed (ExtractEmailDomains L uids) (cDomains cfg)) \<Longrightarrow>
    key_allowed L cfg uids"
  by (auto simp: key_allowed_def domainAllowed_eq)

lemma safe_handleAddBlock [simp]: "safe L cfg K (handleAddBlock L cfg r)"
  unfolding handleAddBlock_def Let_def
  by (rule safe_decodeBody)
    (auto split: sum.splits option.splits intro!: safe_timestamp block_valid_make key_allowedI)

lemma safe_handleP2PReceiveBlock [simp]: "safe L cfg K (handleP2PReceiveBlock L cfg r)"
  unfolding handleP2PReceiveBlock_def Let_def
  by (rule safe_decodeBody)
    (auto split: any.splits sum.splits option.splits intro!: safe_timestamp block_valid_make key_allowedI)

lemma safe_revokes [simp]:
  "safe L cfg K (handleRevokeBlock L fp r)" "safe L cfg K (handleP2PReceiveRevoke L r)"
  unfolding handleRevokeBlock_def handleP2PReceiveRevoke_def Let_def
  by (rule safe_decodeBody, auto split: option.splits simp: revocation_valid_def)+

lemma entry_validI:
  assumes "signer_key K e key" and "entry_hash_ok (Sum256 L) e" and "block \<in> K" and "bFingerprint block = fp"
    and "VerifyDetachedSig L now (TrustPayload (bHash block) (seSigner e) (seTimestamp e)) (seSig e) key"
  shows "\<exists>b \<in> K. bFingerprint b = fp \<and> entry_valid L K b e"
  using assms by (auto simp: entry_valid_def)

lemma safe_sign_with_key:
  assumes "block \<in> K" and "bFingerprint block = fp"
    and "if getString body ''signer_armored_key'' \<noteq> [] then key = getString body ''signer_armored_key''
         else \<exists>sb \<in> K. bFingerprint sb = getString body ''signer_fingerprint'' \<and> bArmoredKey sb = key"
  shows "safe L cfg K (sign_with_key L fp block body ts key)"
    and "safe L cfg K (receive_with_key L origin fp block body key)"
  using assms unfolding sign_with_key_def receive_with_key_def Let_def
  by (auto intro!: entry_validI [where block = block and key = key] simp: signer_key_def entry_hash_ok_def)

lemma safe_handleSignBlock [simp]: "safe L cfg K (handleSignBlock L fp r)"
  unfolding handleSignBlock_def Let_def
  by (rule safe_decodeBody) (auto split: option.splits intro!: safe_timestamp safe_sign_with_key)

lemma safe_handleP2PReceiveSig [simp]:
  "wired cfg \<Longrightarrow> safe L cfg K (handleP2PReceiveSig n L cfg r)"
  unfolding handleP2PReceiveSig_def Let_def
  by (rule safe_decodeBody) (auto split: any.splits option.splits intro!: safe_sign_with_key safe_bind)

lemma safe_dispatch:
  "\<forall>(m, pat, h) \<in> set rs. \<forall>ps. safe L cfg K (h ps r) \<Longrightarrow> safe L cfg K (dispatch rs mth segs r other)"
  by (induction rs mth segs r other rule: dispatch.induct) (auto split: option.splits)

lemma safe_serve [simp]: "wired cfg \<Longrightarrow> safe L cfg K (serve n L cfg mth path r)"
  unfolding serve_def by (rule safe_dispatch) (simp add: NewRouter_def)

lemma safe_task [simp]: "wired cfg \<Longrightarrow> safe L cfg K (task_prog n L cfg t)"
  by (cases t) (simp_all add: wired_def [THEN iffD1])

section \<open>Every step keeps the ledger valid\<close>

lemma known_grows: "known l K \<Longrightarrow> ledger_grows l l' \<Longrightarrow> known l' K"
  unfolding known_def ledger_grows_def by (metis (no_types, lifting))

lemma known_insert: "known l K \<Longrightarrow> l (bFingerprint b) = Some b \<Longrightarrow> known l (insert b K)"
  by (simp add: known_def)

lemma entry_valid_core:
  assumes "entry_valid L K b e" and "known l K" and "core b' = core b"
    and key: "\<And>fp b. l fp = Some b \<Longrightarrow> bFingerprint b = fp"
  shows "entry_valid L (blocks_of l) b' e"
proof -
  have "signer_key (blocks_of l) e k" if "signer_key K e k" for k
  proof (cases "seSignerKey e = []")
    case True
    with that obtain sb where sb: "sb \<in> K" "bFingerprint sb = seSigner e" "bArmoredKey sb = k"
      by (auto simp: signer_key_def)
    with assms(2) obtain sb' where "l (bFingerprint sb) = Some sb'" "core sb' = core sb"
      unfolding known_def by blast
    with sb have "sb' \<in> blocks_of l" "bFingerprint sb' = seSigner e" "bArmoredKey sb' = k"
      by (auto simp: blocks_of_def)
    with True show ?thesis unfolding signer_key_def by auto
  qed (use that in \<open>simp add: signer_key_def\<close>)
  with assms(1,3) show ?thesis by (auto simp: entry_valid_def)
qed

lemma block_valid_core:
  assumes "bHash b' = bHash b" "bFingerprint b' = bFingerprint b" "bArmoredKey b' = bArmoredKey b"
    "bSubmitTimestamp b' = bSubmitTimestamp b" "bSelfSig b' = bSelfSig b"
  shows "block_valid L cfg b' = block_valid L cfg b"
  using assms by (simp add: block_valid_def block_hash_ok_def)

lemma revocation_valid_core:
  "bHash b' = bHash b \<Longrightarrow> bFingerprint b' = bFingerprint b \<Longrightarrow> bArmoredKey b' = bArmoredKey b \<Longrightarrow>
    revocation_valid L b' sig = revocation_valid L b sig"
  by (simp add: revocation_valid_def)

lemma known_blocks: "known l (blocks_of l)"
  by (auto simp: known_def blocks_of_def)

lemma entry_valid_grows:
  assumes "entry_valid L (blocks_of l) b e" and "ledger_grows l l'" and "core b' = core b"
    and "\<And>fp b. l' fp = Some b \<Longrightarrow> bFingerprint b = fp"
  shows "entry_valid L (blocks_of l') b' e"
  using assms known_grows [OF known_blocks] by (blast intro: entry_valid_core)

lemma ledger_validI:
  "(\<And>fp b. l fp = Some b \<Longrightarrow> block_valid L cfg b \<and> (\<forall>e \<in> st fp. entry_valid L (blocks_of l) b e) \<and>
      (bRevoked b \<longrightarrow> revocation_valid L b (bRevocationSig b))) \<Longrightarrow> ledger_valid L cfg l st"
  unfolding ledger_valid_def by blast

lemma ledger_validD:
  assumes "ledger_valid L cfg l st" and "l fp = Some b"
  shows "block_valid L cfg b" and "e \<in> st fp \<Longrightarrow> entry_valid L (blocks_of l) b e"
    and "bRevoked b \<Longrightarrow> revocation_valid L b (bRevocationSig b)"
  using assms unfolding ledger_valid_def by blast+

fun thread_safe :: "lib \<Rightarrow> config \<Rightarrow> Block set \<Rightarrow> thread \<Rightarrow> bool" where
  "thread_safe L cfg K (Handler p) = safe L cfg K p"
| "thread_safe L cfg K (Goroutine p) = safe L cfg K p"

context store_contract begin

lemma Add_valid:
  assumes inv: "inv s" and valid: "ledger_valid L cfg (ledger s) (stored s)"
    and b: "block_valid L cfg b" "new_block b" and add: "opAdd ops b s = (r, s')"
  shows "ledger_valid L cfg (ledger s') (stored s')"
proof (cases r)
  case None
  with Add_ok [OF inv b(2)] add have s': "ledger s' = (ledger s)(bFingerprint b \<mapsto> norm b)"
    "stored s' = stored s" "inv s'" by auto
  have none: "ledger s (bFingerprint b) = None"
    using Add_dup [OF inv] add None by (metis option.distinct(1) prod.inject)
  have grows: "ledger_grows (ledger s) (ledger s')" using Add_grows [OF inv b(2) add] by blast
  show ?thesis
  proof (rule ledger_validI)
    fix fp c assume c: "ledger s' fp = Some c"
    show "block_valid L cfg c \<and> (\<forall>e \<in> stored s' fp. entry_valid L (blocks_of (ledger s')) c e) \<and>
        (bRevoked c \<longrightarrow> revocation_valid L c (bRevocationSig c))"
    proof (cases "fp = bFingerprint b")
      case True
      with c s'(1) have "c = norm b" by simp
      with True b none s'(2) unstored [OF inv none] show ?thesis
        using block_valid_core [of "norm b" b L cfg] by (simp add: norm_core new_block_def)
    next
      case False
      with c s'(1) have "ledger s fp = Some c" by simp
      from ledger_validD [OF valid this] show ?thesis
        using entry_valid_grows [OF _ grows refl] key [OF s'(3)] s'(2) by auto
    qed
  qed
next
  case (Some e)
  with Add_err [OF inv] add valid show ?thesis by blast
qed

lemma AddSig_valid:
  assumes inv: "inv s" and valid: "ledger_valid L cfg (ledger s) (stored s)"
    and K: "known (ledger s) K" "\<exists>b \<in> K. bFingerprint b = fp \<and> entry_valid L K b e"
    and okE: "okE e" and add: "opAddSig ops fp e s = (r, s')"
  shows "inv s' \<and> ledger_grows (ledger s) (ledger s') \<and> ledger_valid L cfg (ledger s') (stored s')"
proof -
  from K obtain b b0 where b: "ledger s fp = Some b" "core b = core b0" "entry_valid L K b0 e"
    unfolding known_def by blast
  have grows: "inv s' \<and> ledger_grows (ledger s) (ledger s')" using AddSig_grows [OF inv b(1) okE add] by blast
  moreover have "ledger_valid L cfg (ledger s') (stored s')"
  proof (cases r)
    case None
    with AddSig_ok [OF inv b(1) okE] add obtain es where
      s': "ledger s' = (ledger s)(fp \<mapsto> b\<lparr>bSigEntries := es, bSigChainHead := seHash e\<rparr>)"
      "stored s' = (stored s)(fp := insert e (stored s fp))" by blast
    note ent = entry_valid_grows [OF _ conjunct2 [OF grows] _ key [OF conjunct1 [OF grows]]]
    show ?thesis
    proof (rule ledger_validI)
      fix fp' c assume c: "ledger s' fp' = Some c"
      have new: "entry_valid L (blocks_of (ledger s)) b e"
        by (rule entry_valid_core [OF b(3) K(1) b(2)]) (rule key [OF inv])
      show "block_valid L cfg c \<and> (\<forall>e \<in> stored s' fp'. entry_valid L (blocks_of (ledger s')) c e) \<and>
          (bRevoked c \<longrightarrow> revocation_valid L c (bRevocationSig c))"
      proof (cases "fp' = fp")
        case True
        with c s'(1) have c': "c = b\<lparr>bSigEntries := es, bSigChainHead := seHash e\<rparr>" by simp
        note old = ledger_validD [OF valid b(1)]
        have "entry_valid L (blocks_of (ledger s')) c f" if "f \<in> stored s' fp'" for f
          using that old(2) new s'(2) True c' by (intro ent [where b = b]) auto
        moreover have "block_valid L cfg c" using old(1) block_valid_core [of c b L cfg] c' by simp
        moreover have "bRevoked c \<longrightarrow> revocation_valid L c (bRevocationSig c)"
          using old(3) revocation_valid_core [of c b L] c' by simp
        ultimately show ?thesis by blast
      next
        case False
        with c s'(1) have "ledger s fp' = Some c" by simp
        note old = ledger_validD [OF valid this]
        have "entry_valid L (blocks_of (ledger s')) c f" if "f \<in> stored s' fp'" for f
          using that old(2) s'(2) False by (intro ent [where b = c]) auto
        with old show ?thesis by blast
      qed
    qed
  next
    case (Some err)
    with AddSig_err [OF inv b(1)] add valid show ?thesis by blast
  qed
  ultimately show ?thesis by blast
qed

lemma Revoke_valid:
  assumes inv: "inv s" and valid: "ledger_valid L cfg (ledger s) (stored s)"
    and K: "known (ledger s) K" "\<exists>b \<in> K. bFingerprint b = fp \<and> revocation_valid L b sig"
    and rev: "opRevoke ops fp sig s = (r, s')"
  shows "inv s' \<and> ledger_grows (ledger s) (ledger s') \<and> ledger_valid L cfg (ledger s') (stored s')"
proof -
  from K obtain b b0 where b: "ledger s fp = Some b" "core b = core b0" "revocation_valid L b0 sig"
    unfolding known_def by blast
  from Revoke [OF inv b(1), of sig] rev have s': "inv s'" "stored s' = stored s"
    "ledger s' = (ledger s)(fp \<mapsto> revoked_block b sig)" by auto
  have grows: "ledger_grows (ledger s) (ledger s')" using Revoke_grows [OF inv b(1) rev] by blast
  note ent = entry_valid_grows [OF _ grows _ key [OF s'(1)]]
  have "ledger_valid L cfg (ledger s') (stored s')"
  proof (rule ledger_validI)
    fix fp' c assume c: "ledger s' fp' = Some c"
    show "block_valid L cfg c \<and> (\<forall>e \<in> stored s' fp'. entry_valid L (blocks_of (ledger s')) c e) \<and>
        (bRevoked c \<longrightarrow> revocation_valid L c (bRevocationSig c))"
    proof (cases "fp' = fp")
      case True
      with c s'(3) have c': "c = revoked_block b sig" by simp
      note old = ledger_validD [OF valid b(1)]
      have "entry_valid L (blocks_of (ledger s')) c f" if "f \<in> stored s' fp'" for f
        using that old(2) s'(2) True c' by (intro ent [where b = b]) (auto simp: revoked_block_def)
      moreover have "block_valid L cfg c"
        using old(1) block_valid_core [of c b L cfg] c' by (simp add: revoked_block_def)
      moreover have "revocation_valid L c (bRevocationSig c)"
        using b(2,3) revocation_valid_core [of c b0 L] c' by (simp add: revoked_block_def)
      ultimately show ?thesis by blast
    next
      case False
      with c s'(3) have "ledger s fp' = Some c" by simp
      note old = ledger_validD [OF valid this]
      have "entry_valid L (blocks_of (ledger s')) c f" if "f \<in> stored s' fp'" for f
        using that old(2) s'(2) by (intro ent [where b = c]) auto
      with old show ?thesis by blast
    qed
  qed
  with s' grows show ?thesis by blast
qed

text \<open>A call of a safe program keeps the ledger valid, and what is left of the program safe.\<close>

lemma act_valid:
  assumes "act ops p s p' s'" and "safe L cfg K p" and "known (ledger (nStore s)) K"
    and "inv (nStore s)" and "ledger_valid L cfg (ledger (nStore s)) (stored (nStore s))"
    and "ok_call okE p"
  shows "inv (nStore s') \<and> ledger_grows (ledger (nStore s)) (ledger (nStore s')) \<and>
    ledger_valid L cfg (ledger (nStore s')) (stored (nStore s')) \<and>
    (\<exists>K'. known (ledger (nStore s')) K' \<and> safe L cfg K' p')"
  using assms
proof cases
  case (Get fp k)
  show ?thesis
  proof (cases "ledger (nStore s) fp")
    case None
    with assms(3) have "fp \<notin> bFingerprint ` K" by (auto simp: known_def)
    with None show ?thesis using assms Get by (auto simp: store_contract.Get [OF store_contract_axioms])
  next
    case (Some b)
    then have "opGet ops fp (nStore s) = Some (Inr (Some b))" "bFingerprint b = fp"
      using assms(4) by (auto simp: store_contract.Get [OF store_contract_axioms] key)
    then show ?thesis using assms Get Some known_insert [OF assms(3), of b] by auto
  qed
next
  case (Add b r st k)
  with assms show ?thesis
    using Add_grows [of "nStore s" b r st] Add_valid [of "nStore s" L cfg b r st]
    by (auto intro!: exI [of _ K] dest: known_grows)
next
  case (AddSig fp e r st k)
  with assms show ?thesis
    using AddSig_valid [of "nStore s" L cfg K fp e r st] by (auto intro!: exI [of _ K] dest: known_grows)
next
  case (Revoke fp sig r st k)
  with assms show ?thesis
    using Revoke_valid [of "nStore s" L cfg K fp sig r st] by (auto intro!: exI [of _ K] dest: known_grows)
qed auto

definition sys_inv :: "lib \<Rightarrow> config \<Rightarrow> 's node \<times> thread list \<Rightarrow> bool" where
  "sys_inv L cfg c \<longleftrightarrow>
     inv (nStore (fst c)) \<and> ledger_valid L cfg (ledger (nStore (fst c))) (stored (nStore (fst c))) \<and>
     (\<forall>t \<in> set (snd c). \<exists>K. known (ledger (nStore (fst c))) K \<and> thread_safe L cfg K t)"

lemma sys_inv_thread:
  assumes "sys_inv L cfg (s, ts @ t # us)" and "inv (nStore s')"
    and "ledger_grows (ledger (nStore s)) (ledger (nStore s'))"
    and "ledger_valid L cfg (ledger (nStore s')) (stored (nStore s'))"
    and "\<exists>K. known (ledger (nStore s')) K \<and> thread_safe L cfg K t'"
  shows "sys_inv L cfg (s', ts @ t' # us)"
  using assms known_grows [OF _ assms(3)] unfolding sys_inv_def by (auto, blast+)

lemma step_valid:
  assumes "step ops n L cfg okE c c'" and "sys_inv L cfg c" and "wired cfg"
  shows "sys_inv L cfg c' \<and> ledger_grows (ledger (nStore (fst c))) (ledger (nStore (fst c')))"
  using assms
proof cases
  case (request s ts mth path r)
  have "known (ledger (nStore s)) {}" by (simp add: known_def)
  with request assms show ?thesis by (auto simp: sys_inv_def intro!: exI [of _ "{}"])
next
  case (start s gs t hs ts)
  have "known (ledger (nStore s)) {}" by (simp add: known_def)
  with start assms show ?thesis by (auto simp: sys_inv_def intro!: exI [of _ "{}"])
next
  case (handler p s p' s' ts us)
  from assms(2) handler(1) obtain K where "known (ledger (nStore s)) K" "safe L cfg K p"
    by (auto simp: sys_inv_def)
  from act_valid [OF handler(3) this(2,1) _ _ handler(4)] assms(2) handler(1) have
    "inv (nStore s')" "ledger_grows (ledger (nStore s)) (ledger (nStore s'))"
    "ledger_valid L cfg (ledger (nStore s')) (stored (nStore s'))"
    "\<exists>K. known (ledger (nStore s')) K \<and> thread_safe L cfg K (Handler p')" by (auto simp: sys_inv_def)
  with assms(2) sys_inv_thread [of L cfg s ts "Handler p" us s'] handler show ?thesis by auto
next
  case (goroutine q s q' s' ts us)
  from assms(2) goroutine(1) obtain K where "known (ledger (nStore s)) K" "safe L cfg K q"
    by (auto simp: sys_inv_def)
  from act_valid [OF goroutine(3) this(2,1) _ _ goroutine(4)] assms(2) goroutine(1) have
    "inv (nStore s')" "ledger_grows (ledger (nStore s)) (ledger (nStore s'))"
    "ledger_valid L cfg (ledger (nStore s')) (stored (nStore s'))"
    "\<exists>K. known (ledger (nStore s')) K \<and> thread_safe L cfg K (Goroutine q')" by (auto simp: sys_inv_def)
  with assms(2) sys_inv_thread [of L cfg s ts "Goroutine q" us s'] goroutine show ?thesis by auto
next
  case (tick d s ts)
  with assms show ?thesis by (auto simp: sys_inv_def)
qed

lemma reach_valid:
  assumes "reach ops n L cfg okE c c'" and "sys_inv L cfg c" and "wired cfg"
  shows "sys_inv L cfg c' \<and> ledger_grows (ledger (nStore (fst c))) (ledger (nStore (fst c')))"
  using assms
proof induction
  case (reach_step c c' c'')
  then show ?case using step_valid ledger_grows_trans by blast
qed simp

lemma sys_inv_init:
  assumes "inv (nStore s)" and "ledger (nStore s) = Map.empty" shows "sys_inv L cfg (s, [])"
  using assms by (simp add: sys_inv_def ledger_valid_def)

text \<open>What a reader of the store sees of a reachable node.\<close>

lemma sys_inv_view:
  assumes "sys_inv L cfg (s, ts)" and "opGet ops fp (nStore s) = Some (Inr (Some b))"
  shows "bFingerprint b = fp \<and> block_valid L cfg b \<and>
    (\<forall>e \<in> set (bSigEntries b). entry_valid L (blocks_of (ledger (nStore s))) b e) \<and>
    (bRevoked b \<longrightarrow> revocation_valid L b (bRevocationSig b))"
proof -
  from assms have inv: "inv (nStore s)" and b: "ledger (nStore s) fp = Some b"
    and valid: "ledger_valid L cfg (ledger (nStore s)) (stored (nStore s))"
    by (auto simp: sys_inv_def Get)
  from ledger_validD [OF valid b] visible [OF inv b] key [OF inv b] show ?thesis by blast
qed

end

section \<open>Nothing gets stuck\<close>

text \<open>
  A program is done when it has its result or the bound on its depth is used up; a thread
  proceeds when it is done or can make its next call.  One that panicked can do neither.
\<close>

definition io_done :: "'a io \<Rightarrow> bool" where
  "io_done p \<longleftrightarrow> p = NoFuel \<or> (\<exists>x. p = Ret x)"

fun proceeds :: "'s store_ops \<Rightarrow> 's node \<Rightarrow> thread \<Rightarrow> bool" where
  "proceeds ops s (Handler p) = (io_done p \<or> (\<exists>p' s'. act ops p s p' s'))"
| "proceeds ops s (Goroutine p) = (io_done p \<or> (\<exists>p' s'. act ops p s p' s'))"

lemma panicked_stuck: "\<not> proceeds ops s (Handler Panic)" "\<not> proceeds ops s (Goroutine Panic)"
  by (auto simp: io_done_def elim: act.cases)

context store_contract begin

text \<open>The reads of a store return on the states of the contract, so nothing waits for one forever.\<close>

lemma act_progress:
  assumes "inv (nStore s)" and "p \<noteq> Panic"
  shows "io_done p \<or> (\<exists>p' s'. act ops p s p' s')"
proof (cases p)
  case (Get fp k)
  with act.Get [OF store_contract.Get [OF store_contract_axioms assms(1)]] show ?thesis by blast
next
  case (All k)
  obtain bs where "opAll ops (nStore s) = Some (Inr bs)" using store_contract.All [OF store_contract_axioms assms(1)] by blast
  with act.All [OF this] All show ?thesis by blast
next
  case (Add b k)
  then show ?thesis by (cases "opAdd ops b (nStore s)") (auto intro: act.intros)
next
  case (AddSig fp e k)
  then show ?thesis by (cases "opAddSig ops fp e (nStore s)") (auto intro: act.intros)
next
  case (Revoke fp sig k)
  then show ?thesis by (cases "opRevoke ops fp sig (nStore s)") (auto intro: act.intros)
next
  case (PeersAdd url k)
  then show ?thesis by (cases "pl_Add url (nPeers s)") (auto intro: act.intros)
next
  case (IsSeen i k)
  then show ?thesis by (cases "isSeen (nClock s) i (nSeen s)") (auto intro: act.intros)
qed (use assms(2) in \<open>auto simp: io_done_def intro: act.intros\<close>)

lemma thread_safe_proceeds:
  assumes "inv (nStore s)" and "thread_safe L cfg K t" shows "proceeds ops s t"
proof (cases t)
  case (Handler p)
  with assms(2) have "p \<noteq> Panic" by auto
  with act_progress [OF assms(1)] Handler show ?thesis by auto
next
  case (Goroutine p)
  with assms(2) have "p \<noteq> Panic" by auto
  with act_progress [OF assms(1)] Goroutine show ?thesis by auto
qed

lemma sys_inv_proceeds: "sys_inv L cfg (s, ts) \<Longrightarrow> list_all (proceeds ops s) ts"
  unfolding sys_inv_def list_all_iff by (auto intro: thread_safe_proceeds)

end

end
