(* ===== verification/Handlers.thy ===== *)
theory Handlers
  imports Safety
begin

text \<open>
  Single requests, served with nobody in between: what each handler answers and what it
  leaves behind, and the chains that a sequence of client requests builds.
\<close>

section \<open>Running the pieces\<close>

lemma run_JSON [simp]:
  "run ops w (writeJSON st v) s = (Done (Response st v), s)"
  "run ops w (errJSON st msg) s = (Done (Response st (AObj [(''error'', AStr msg)])), s)"
  by (simp_all add: writeJSON_def errJSON_def)

lemma run_decodeBody [simp]:
  "run ops w (decodeBody r h) s =
     (case decode_map (rqBody r) of
        None \<Rightarrow> run ops w (errJSON 400 ''invalid JSON body'') s
      | Some body \<Rightarrow> run ops w (h body) s)"
  by (simp add: decodeBody_def split: option.splits)

text \<open>The timestamp a request is served with.\<close>

definition request_time :: "lib \<Rightarrow> (string, any) gomap \<Rightarrow> string \<Rightarrow> int \<Rightarrow> int64" where
  "request_time L body key clock = (case getInt64 L body key of (ts, ok) \<Rightarrow> if ok then ts else Unix clock)"

lemma run_timestamp [simp]:
  "run ops w (timestamp L body key h) s = run ops w (h (request_time L body key (nClock s))) s"
  by (simp add: timestamp_def request_time_def split: prod.splits)

section \<open>Errors change nothing\<close>

text \<open>A store whose failing operations leave it alone.\<close>

definition atomic_ops :: "'s store_ops \<Rightarrow> bool" where
  "atomic_ops ops \<longleftrightarrow>
     (\<forall>b s e s'. opAdd ops b s = (Some e, s') \<longrightarrow> s' = s)"

lemma atomic_memory [simp]: "atomic_ops memory_ops"
  by (auto simp: atomic_ops_def mem_defs split: option.splits)

lemmas handler_defs = handleListBlocks_def handleGetBlock_def handleAddBlock_def handleSignBlock_def
  handleRevokeBlock_def handleSearch_def handleWellKnown_def handleListPeers_def handleAddPeer_def
  handleP2PSync_def handleP2PHashes_def handleP2PGetBlock_def handleP2PReceiveBlock_def
  handleP2PReceiveSig_def handleP2PReceiveRevoke_def

lemma error_reads:
  assumes "400 \<le> rsStatus resp"
  shows "run ops w handleListBlocks s = (Done resp, s') \<Longrightarrow> s' = s"
    "run ops w (handleGetBlock fp) s = (Done resp, s') \<Longrightarrow> s' = s"
    "run ops w (handleSearch L r) s = (Done resp, s') \<Longrightarrow> s' = s"
    "run ops w (handleWellKnown cfg) s = (Done resp, s') \<Longrightarrow> s' = s"
    "run ops w handleListPeers s = (Done resp, s') \<Longrightarrow> s' = s"
    "run ops w handleP2PHashes s = (Done resp, s') \<Longrightarrow> s' = s"
    "run ops w (handleP2PGetBlock h) s = (Done resp, s') \<Longrightarrow> s' = s"
    "run ops w handleP2PSync s = (Done resp, s') \<Longrightarrow> s' = s"
  using assms by (auto simp: handler_defs run_bind Let_def split: sum.splits option.splits)

lemma error_handleAddBlock:
  assumes "run ops w (handleAddBlock L cfg r) s = (Done resp, s')" and "400 \<le> rsStatus resp"
    and "atomic_ops ops"
  shows "s' = s"
  using assms
  by (auto simp: handleAddBlock_def Let_def atomic_ops_def split: option.splits sum.splits if_splits prod.splits)

lemma error_sign_with_key:
  assumes "run ops w (sign_with_key L fp block body ts key) s = (Done resp, s')" and "400 \<le> rsStatus resp"
  shows "s' = s"
  using assms
  by (auto simp: sign_with_key_def respond_updated_def Let_def split: option.splits if_splits prod.splits)

lemma error_handleSignBlock:
  assumes "run ops w (handleSignBlock L fp r) s = (Done resp, s')" and "400 \<le> rsStatus resp"
  shows "s' = s"
  using assms
  by (auto simp: handleSignBlock_def Let_def split: option.splits if_splits dest: error_sign_with_key)

lemma error_handleRevokeBlock:
  assumes "run ops w (handleRevokeBlock L fp r) s = (Done resp, s')" and "400 \<le> rsStatus resp"
  shows "s' = s"
  using assms
  by (auto simp: handleRevokeBlock_def respond_updated_def Let_def split: option.splits if_splits prod.splits)

lemma error_handleAddPeer:
  assumes "run ops w (handleAddPeer L cfg r) s = (Done resp, s')" and "400 \<le> rsStatus resp"
  shows "s' = s"
  using assms
  by (auto simp: handleAddPeer_def ok_body_def Let_def
      split: option.splits if_splits prod.splits reply.splits)

lemma error_handleP2PReceiveBlock:
  assumes "run ops w (handleP2PReceiveBlock L cfg r) s = (Done resp, s')" and "400 \<le> rsStatus resp"
  shows "s' = s"
  using assms
  by (auto simp: handleP2PReceiveBlock_def Let_def
      split: any.splits option.splits sum.splits if_splits prod.splits)

lemma error_handleP2PReceiveRevoke:
  assumes "run ops w (handleP2PReceiveRevoke L r) s = (Done resp, s')" and "400 \<le> rsStatus resp"
  shows "s' = s"
  using assms
  by (auto simp: handleP2PReceiveRevoke_def Let_def split: option.splits if_splits prod.splits)

text \<open>All routes but \<open>POST /p2p/sign\<close>, which may fetch and store blocks before it fails.\<close>

lemma error_dispatch:
  assumes "run ops w (dispatch rs mth segs r other) s = (Done resp, s')" and "400 \<le> rsStatus resp"
    and "\<forall>(m, pat, h) \<in> set rs. m = mth \<longrightarrow> (\<forall>ps. match_path pat segs = Some ps \<longrightarrow>
      run ops w (h ps r) s = (Done resp, s') \<longrightarrow> s' = s)"
  shows "s' = s"
  using assms by (induction rs mth segs r other rule: dispatch.induct) (auto split: option.splits if_splits)

section \<open>What a request does to the store\<close>

inductive store_effect :: "'s store_ops \<Rightarrow> (string \<Rightarrow> string) \<Rightarrow> 's \<Rightarrow> task list \<Rightarrow> 's \<Rightarrow> bool"
  for ops :: "'s store_ops" and H :: "string \<Rightarrow> string" and st :: 's and gos :: "task list" where
  none: "store_effect ops H st gos st"
| add: "new_block b \<Longrightarrow> block_hash_ok H b \<Longrightarrow> opAdd ops b st = (r, st') \<Longrightarrow> store_effect ops H st gos st'"
| sign: "opGet ops fp st = Some (Inr (Some b)) \<Longrightarrow> entry_hash_ok H e \<Longrightarrow>
    sePrevHash e = (if bSigChainHead b = [] then bHash b else bSigChainHead b) \<Longrightarrow>
    seSigner e \<notin> seSigner ` set (bSigEntries b) \<Longrightarrow> GossipSigT fp e [] \<in> set gos \<Longrightarrow>
    opAddSig ops fp e st = (r, st') \<Longrightarrow> store_effect ops H st gos st'"
| revoke: "opGet ops fp st = Some (Inr (Some b)) \<Longrightarrow> opRevoke ops fp sig st = (r, st') \<Longrightarrow>
    store_effect ops H st gos st'"

lemma drop_err_Some: "drop_err r = Some b \<longleftrightarrow> r = Inr (Some b)"
  by (cases r) auto

lemma effect_reads:
  "run ops w handleListBlocks s = (out, s') \<Longrightarrow> nStore s' = nStore s"
  "run ops w (handleGetBlock fp) s = (out, s') \<Longrightarrow> nStore s' = nStore s"
  "run ops w (handleSearch L r) s = (out, s') \<Longrightarrow> nStore s' = nStore s"
  "run ops w (handleWellKnown cfg) s = (out, s') \<Longrightarrow> nStore s' = nStore s"
  "run ops w handleListPeers s = (out, s') \<Longrightarrow> nStore s' = nStore s"
  "run ops w handleP2PHashes s = (out, s') \<Longrightarrow> nStore s' = nStore s"
  "run ops w (handleP2PGetBlock h) s = (out, s') \<Longrightarrow> nStore s' = nStore s"
  "run ops w handleP2PSync s = (out, s') \<Longrightarrow> nStore s' = nStore s"
  "run ops w (handleAddPeer L cfg r) s = (out, s') \<Longrightarrow> nStore s' = nStore s"
  by (auto simp: handler_defs run_bind Let_def split: sum.splits option.splits prod.splits reply.splits if_splits)

lemma effect_add_block:
  "run ops w (handleAddBlock L cfg r) s = (out, s') \<Longrightarrow>
     store_effect ops (Sum256 L) (nStore s) (nGos s') (nStore s')"
  "run ops w (handleP2PReceiveBlock L cfg r) s = (out, s') \<Longrightarrow>
     store_effect ops (Sum256 L) (nStore s) (nGos s') (nStore s')"
  by (auto simp: handler_defs Let_def split: any.splits sum.splits option.splits prod.splits if_splits
      intro!: store_effect.none intro: store_effect.add [OF new_block_make]
      simp: block_hash_ok_def make_block_def)

lemma run_respond_updated:
  "run ops w (respond_updated fp) s = (out, s') \<Longrightarrow> s' = s"
  by (auto simp: respond_updated_def split: option.splits)

lemma effect_sign_with_key:
  assumes "run ops w (sign_with_key L fp b body ts key) s = (out, s')" and "opGet ops fp (nStore s) = Some (Inr (Some b))"
  shows "store_effect ops (Sum256 L) (nStore s) (nGos s') (nStore s')"
proof -
  define prev where "prev = (if bSigChainHead b = [] then bHash b else bSigChainHead b)"
  define e where "e = \<lparr>seHash = ComputeSigEntryHash (Sum256 L) prev (getString body ''signer_fingerprint'')
        (getString body ''sig'') ts,
      sePrevHash = prev, seSigner = getString body ''signer_fingerprint'', seSig = getString body ''sig'',
      seTimestamp = ts, seSignerKey = getString body ''signer_armored_key'',
      seSourceNode = getString body ''source_node''\<rparr>"
  have "s' = s \<or> (seSigner e \<notin> seSigner ` set (bSigEntries b) \<and> (\<exists>r st. opAddSig ops fp e (nStore s) = (r, st) \<and>
      s' = s\<lparr>nStore := st, nGos := nGos s @ [GossipSigT fp e []]\<rparr>))"
    using assms(1) unfolding sign_with_key_def Let_def prev_def [symmetric] e_def [symmetric]
    by (auto simp: list_ex_iff e_def split: if_splits prod.splits dest!: run_respond_updated)
  then show ?thesis
  proof
    assume e: "seSigner e \<notin> seSigner ` set (bSigEntries b) \<and> (\<exists>r st. opAddSig ops fp e (nStore s) = (r, st) \<and>
      s' = s\<lparr>nStore := st, nGos := nGos s @ [GossipSigT fp e []]\<rparr>)"
    then obtain r where r: "opAddSig ops fp e (nStore s) = (r, nStore s')"
      and announced: "GossipSigT fp e [] \<in> set (nGos s')"
      by auto
    show ?thesis
      by (rule store_effect.sign [OF assms(2) _ _ _ announced r])
        (use e in \<open>simp_all add: e_def prev_def entry_hash_ok_def\<close>)
  qed (simp add: store_effect.none)
qed

lemma effect_handleSignBlock:
  "run ops w (handleSignBlock L fp r) s = (out, s') \<Longrightarrow>
     store_effect ops (Sum256 L) (nStore s) (nGos s') (nStore s')"
  by (auto simp: handleSignBlock_def Let_def drop_err_Some split: option.splits if_splits
      intro!: store_effect.none dest!: effect_sign_with_key)

lemma effect_revoke:
  "run ops w (handleRevokeBlock L fp r) s = (out, s') \<Longrightarrow>
     store_effect ops (Sum256 L) (nStore s) (nGos s') (nStore s')"
  "run ops w (handleP2PReceiveRevoke L r) s = (out, s') \<Longrightarrow>
     store_effect ops (Sum256 L) (nStore s) (nGos s') (nStore s')"
  by (auto simp: handler_defs Let_def drop_err_Some split: option.splits if_splits prod.splits
      intro!: store_effect.none dest!: run_respond_updated intro: store_effect.revoke)

text \<open>Every request but \<open>POST /p2p/sign\<close> has one of these effects on the store.\<close>

definition is_p2p_sign :: "string \<Rightarrow> string \<Rightarrow> bool" where
  "is_p2p_sign mth path \<longleftrightarrow> mth = ''POST'' \<and> tl (Split (CHR ''/'') path) = [''p2p'', ''sign'']"

lemma dispatch_cases:
  assumes "\<And>st. P (writeJSON st ANil)"
  shows "\<forall>(m, pat, h) \<in> set rs. m = mth \<longrightarrow> (\<forall>ps. match_path pat segs = Some ps \<longrightarrow> P (h ps r)) \<Longrightarrow>
    P (dispatch rs mth segs r other)"
  by (induction rs mth segs r other rule: dispatch.induct) (auto split: option.splits simp: assms)

lemma match_two: "match_path [Lit a, Lit b] segs = Some ps \<Longrightarrow> segs = [a, b]"
  by (cases segs; cases "tl segs"; cases "tl (tl segs)") (auto split: if_splits)

lemma serve_cases:
  assumes "\<not> is_p2p_sign mth path"
    and "P handleListBlocks" "\<And>fp. P (handleGetBlock fp)" "P (handleAddBlock L cfg r)"
    "\<And>fp. P (handleSignBlock L fp r)" "\<And>fp. P (handleRevokeBlock L fp r)" "P (handleSearch L r)"
    "P (handleWellKnown cfg)" "P handleListPeers" "P (handleAddPeer L cfg r)" "P handleP2PHashes"
    "\<And>h. P (handleP2PGetBlock h)" "P (handleP2PReceiveBlock L cfg r)" "P (handleP2PReceiveRevoke L r)"
    "P handleP2PSync" "\<And>st. P (writeJSON st ANil)"
  shows "P (serve n L cfg mth path r)"
  unfolding serve_def
proof (rule dispatch_cases [where P = P, OF assms(16)])
  show "\<forall>(m, pat, h) \<in> set (NewRouter n L cfg). m = mth \<longrightarrow>
      (\<forall>ps. match_path pat (tl (Split (CHR ''/'') path)) = Some ps \<longrightarrow> P (h ps r))"
    using assms(1-15) by (auto simp: NewRouter_def is_p2p_sign_def dest: match_two)
qed

lemma store_effect_same: "nStore s' = nStore s \<Longrightarrow> store_effect ops H (nStore s) gos (nStore s')"
  by (simp add: store_effect.none)

lemmas effects = effect_reads [THEN store_effect_same] effect_add_block effect_handleSignBlock effect_revoke

lemma serve_effect:
  assumes "run ops w (serve n L cfg mth path r) s = (out, s')" and "\<not> is_p2p_sign mth path"
  shows "store_effect ops (Sum256 L) (nStore s) (nGos s') (nStore s')"
proof -
  have "\<forall>out s'. run ops w (serve n L cfg mth path r) s = (out, s') \<longrightarrow>
      store_effect ops (Sum256 L) (nStore s) (nGos s') (nStore s')"
    by (rule serve_cases [OF assms(2)]; intro allI impI) (erule effects | simp add: store_effect.none)+
  with assms(1) show ?thesis by blast
qed

text \<open>On a node whose stores fail cleanly, an error answer leaves the whole state as it was.\<close>

lemmas errors = error_reads [rotated] error_handleAddBlock error_handleSignBlock error_handleRevokeBlock
  error_handleAddPeer error_handleP2PReceiveBlock error_handleP2PReceiveRevoke

lemma serve_error:
  assumes "run ops w (serve n L cfg mth path r) s = (Done resp, s')" and "\<not> is_p2p_sign mth path"
    and "400 \<le> rsStatus resp" and "atomic_ops ops"
  shows "s' = s"
proof -
  have "\<forall>s'. run ops w (serve n L cfg mth path r) s = (Done resp, s') \<longrightarrow> s' = s"
    by (rule serve_cases [OF assms(2)]; intro allI impI)
      ((erule errors; rule assms(3,4)) | simp)+
  with assms(1) show ?thesis by blast
qed

section \<open>Chains stay well-formed\<close>

definition signers_distinct :: "Block \<Rightarrow> bool" where
  "signers_distinct b \<longleftrightarrow> distinct (map seSigner (bSigEntries b))"

text \<open>A hash of something is not the empty string; all the chains need of the hash function.\<close>

definition hashes :: "(string \<Rightarrow> string) \<Rightarrow> bool" where
  "hashes H \<longleftrightarrow> (\<forall>x. x \<noteq> [] \<longrightarrow> H x \<noteq> [])"

lemma entry_hash_nonempty:
  assumes "hashes H" and "entry_hash_ok H e" shows "seHash e \<noteq> []"
proof -
  have "entry_input e \<noteq> []" by (simp add: joinFields_nulls)
  then have "length (H (entry_input e)) > 0" using assms(1) by (simp add: hashes_def)
  then have "length (hexSHA256 H (entry_input e)) > 0" by (simp add: length_hexSHA256)
  with assms(2) show ?thesis by (auto simp: entry_hash_ok_def ComputeSigEntryHash_def)
qed

context linear_store begin

definition chains_ok :: "(string \<Rightarrow> string) \<Rightarrow> 's \<Rightarrow> bool" where
  "chains_ok H st \<longleftrightarrow> inv st \<and> (\<forall>fp. linear st fp) \<and>
     (\<forall>fp b. ledger st fp = Some b \<longrightarrow> block_ok H b \<and> signers_distinct b)"

lemma chains_okI:
  assumes "inv st'" and "\<And>fp. linear st' fp" and "ledger st' = (ledger st)(fp \<mapsto> c)"
    and "block_ok H c" and "signers_distinct c" and "chains_ok H st"
  shows "chains_ok H st'"
  using assms unfolding chains_ok_def by (metis fun_upd_apply option.inject)

lemma chains_add:
  assumes ok: "chains_ok H st" and b: "new_block b" "block_hash_ok H b" and add: "opAdd ops b st = (r, st')"
  shows "chains_ok H st'"
proof (cases r)
  case None
  from ok have inv: "inv st" and lin: "\<And>fp. linear st fp" by (auto simp: chains_ok_def)
  from Add_ok [OF inv b(1)] add None have st': "inv st'" "ledger st' = (ledger st)(bFingerprint b \<mapsto> norm b)"
    by auto
  have "linear st' fp" for fp
    using linear_Add [OF inv b(1)] add None lin by (cases "fp = bFingerprint b") auto
  moreover have "block_ok H (norm b) \<and> signers_distinct (norm b)"
    using b by (simp add: block_ok_def block_hash_ok_def head_ok_def signers_distinct_def new_block_def norm_core)
  ultimately show ?thesis using ok st' by (blast intro: chains_okI)
next
  case (Some e)
  from ok have "inv st" by (simp add: chains_ok_def)
  from Add_err [OF this] Some add ok show ?thesis by blast
qed

lemma chains_sign:
  assumes ok: "chains_ok H st" and H: "hashes H" and b: "ledger st fp = Some b"
    and e: "entry_hash_ok H e" "sePrevHash e = (if bSigChainHead b = [] then bHash b else bSigChainHead b)"
    "seSigner e \<notin> seSigner ` set (bSigEntries b)" "okE e"
    and add: "opAddSig ops fp e st = (r, st')"
  shows "chains_ok H st'"
proof (cases r)
  case None
  from ok have inv: "inv st" and lin: "\<And>fp. linear st fp" and bok: "block_ok H b" "signers_distinct b"
    using b by (auto simp: chains_ok_def)
  from bok have "head_ok b" "\<forall>e \<in> set (bSigEntries b). seHash e \<noteq> []"
    using entry_hash_nonempty [OF H] by (auto simp: block_ok_def chain_ok_def)
  from chain_head_block [OF this] e(2) have prev: "sePrevHash e = chain_head (bHash b) (bSigEntries b)" by simp
  from linear_AddSig [OF inv b lin prev e(4)] add None
  have st': "linear st' fp" "ledger st' = (ledger st)(fp \<mapsto> with_entry b e)" by auto
  moreover have "inv st'" using AddSig_grows [OF inv b e(4) add] by blast
  moreover have "linear st' fp'" if "fp' \<noteq> fp" for fp'
    using linear_AddSig_frame [OF inv b add that] lin by simp
  moreover have "block_ok H (with_entry b e)"
    using bok(1) e(1) prev by (auto simp: block_ok_def with_entry_def block_hash_ok_def head_ok_def chain_ok_def)
  moreover have "signers_distinct (with_entry b e)"
    using bok(2) e(3) by (auto simp: signers_distinct_def with_entry_def)
  ultimately show ?thesis using ok by (metis chains_okI)
next
  case (Some err)
  from ok have "inv st" by (simp add: chains_ok_def)
  from AddSig_err [OF this b] Some add ok show ?thesis by blast
qed

lemma chains_revoke:
  assumes ok: "chains_ok H st" and b: "ledger st fp = Some b" and rev: "opRevoke ops fp sig st = (r, st')"
  shows "chains_ok H st'"
proof -
  from ok have inv: "inv st" by (simp add: chains_ok_def)
  from Revoke [OF inv b, of sig] rev have st': "inv st'" "ledger st' = (ledger st)(fp \<mapsto> revoked_block b sig)"
    by auto
  moreover have "linear st' fp'" for fp' using linear_Revoke [OF inv b rev] ok by (simp add: chains_ok_def)
  moreover have "block_ok H (revoked_block b sig) \<and> signers_distinct (revoked_block b sig)"
  proof -
    have "block_ok H (revoked_block b sig) = block_ok H b"
      by (simp add: block_ok_def block_hash_ok_def head_ok_def revoked_block_def)
    moreover have "signers_distinct (revoked_block b sig) = signers_distinct b"
      by (simp add: signers_distinct_def revoked_block_def)
    ultimately show ?thesis using ok b by (auto simp: chains_ok_def)
  qed
  ultimately show ?thesis using ok by (auto simp: chains_ok_def)
qed

lemma chains_effect:
  assumes "store_effect ops H st gos st'" and "chains_ok H st" and "hashes H"
    and "\<forall>fp e origin. GossipSigT fp e origin \<in> set gos \<longrightarrow> okE e"
  shows "chains_ok H st'"
  using assms(1)
proof cases
  case none
  with assms(2) show ?thesis by simp
next
  case (add b r)
  with chains_add [OF assms(2)] show ?thesis by blast
next
  case (sign fp b e r)
  then have "ledger st fp = Some b" "okE e" using assms(2,4) by (auto simp: chains_ok_def Get)
  with sign chains_sign [OF assms(2,3), of fp b e] show ?thesis by blast
next
  case (revoke fp b sig r)
  then have "ledger st fp = Some b" using assms(2) by (auto simp: chains_ok_def Get)
  with revoke chains_revoke [OF assms(2)] show ?thesis by blast
qed

end

text \<open>
  What happens on a node one thing at a time: a request is served to its end, or a goroutine
  runs to its end, before the next.  \<open>lone\<close> leaves out the two that can store entries another
  node made up the links of: \<open>POST /p2p/sign\<close> and the goroutine that syncs with a peer.
\<close>

datatype activity = Request world string string request | Background world task

primrec perform :: "'s store_ops \<Rightarrow> nat \<Rightarrow> lib \<Rightarrow> config \<Rightarrow> activity \<Rightarrow> 's node \<Rightarrow> 's node" where
  "perform ops n L cfg (Request w mth path r) s = snd (run ops w (serve n L cfg mth path r) s)"
| "perform ops n L cfg (Background w t) s = snd (run ops w (task_prog n L cfg t) s)"

fun perform_all :: "'s store_ops \<Rightarrow> nat \<Rightarrow> lib \<Rightarrow> config \<Rightarrow> activity list \<Rightarrow> 's node \<Rightarrow> 's node" where
  "perform_all ops n L cfg [] s = s"
| "perform_all ops n L cfg (a # as) s = perform_all ops n L cfg as (perform ops n L cfg a s)"

fun lone :: "activity \<Rightarrow> bool" where
  "lone (Request w mth path r) \<longleftrightarrow> \<not> is_p2p_sign mth path"
| "lone (Background w (SyncWithPeerT url)) \<longleftrightarrow> False"
| "lone (Background w t) \<longleftrightarrow> True"

lemma task_keeps_store:
  assumes "lone (Background w t)" shows "nStore (snd (run ops w (task_prog n L cfg t) s)) = nStore s"
  using assms
  by (cases t) (auto simp: GossipBlock_def GossipSig_def GossipRevoke_def pickTargets_def postJSON_def FetchMeta_def
      registerSelfWithPeer_def run_bind Let_def split: prod.splits option.splits reply.splits)

lemma run_nGos: "set (nGos s) \<subseteq> set (nGos (snd (run ops w p s)))"
proof (induction p arbitrary: s)
  case (Add b k) then show ?case by (fastforce simp: Let_def split: prod.splits)
next
  case (AddSig fp e k) then show ?case by (fastforce simp: Let_def split: prod.splits)
next
  case (Revoke fp sig k) then show ?case by (fastforce simp: Let_def split: prod.splits)
next
  case (PeersAdd url k) then show ?case by (fastforce simp: Let_def split: prod.splits)
next
  case (IsSeen i k) then show ?case by (fastforce simp: Let_def split: prod.splits)
next
  case (Get fp k) then show ?case by (cases "opGet ops fp (nStore s)") auto
next
  case (All k) then show ?case by (cases "opAll ops (nStore s)") auto
qed (simp_all, fastforce+)

lemma perform_nGos: "set (nGos s) \<subseteq> set (nGos (perform ops n L cfg a s))"
  by (cases a) (simp_all add: run_nGos)

lemma perform_all_nGos: "set (nGos s) \<subseteq> set (nGos (perform_all ops n L cfg as s))"
proof (induction ops n L cfg as s rule: perform_all.induct)
  case (2 ops n L cfg a as s)
  then show ?case using perform_nGos [of s ops n L cfg a] by auto
qed simp

lemma perform_effect:
  assumes "lone a"
  shows "store_effect ops (Sum256 L) (nStore s) (nGos (perform ops n L cfg a s)) (nStore (perform ops n L cfg a s))"
proof (cases a)
  case (Request w mth path r)
  obtain out s' where run: "run ops w (serve n L cfg mth path r) s = (out, s')" by fastforce
  from serve_effect [OF run] assms Request run show ?thesis by simp
next
  case (Background w t)
  with assms task_keeps_store [of w t ops n L cfg s] show ?thesis by (simp add: store_effect.none)
qed

context linear_store begin

lemma chains_perform_all:
  assumes "chains_ok (Sum256 L) (nStore s)" and "hashes (Sum256 L)" and "list_all lone as"
    and "\<forall>fp e origin. GossipSigT fp e origin \<in> set (nGos (perform_all ops n L cfg as s)) \<longrightarrow> okE e"
  shows "chains_ok (Sum256 L) (nStore (perform_all ops n L cfg as s))"
  using assms
proof (induction as arbitrary: s)
  case (Cons a as)
  let ?s = "perform ops n L cfg a s"
  have "\<forall>fp e origin. GossipSigT fp e origin \<in> set (nGos ?s) \<longrightarrow> okE e"
    using Cons.prems(4) perform_all_nGos [of ?s ops n L cfg as] by auto
  with chains_effect [OF perform_effect Cons.prems(1,2)] Cons.prems(3)
  have "chains_ok (Sum256 L) (nStore ?s)" by simp
  with Cons.IH [of ?s] Cons.prems show ?case by simp
qed simp

end

end
