(* ===== verification/Samples.thy ===== *)
theory Samples
  imports Handlers
begin

text \<open>
  A sample node on the toy libraries of \<open>Gpg\<close>, at which the properties about running nodes
  are applied; and the link between runs and steps: whatever a run does, the steps of a node
  can do.
\<close>

section \<open>A run is a sequence of steps\<close>

lemma reach_trans: "reach ops n L cfg okE b c \<Longrightarrow> reach ops n L cfg okE a b \<Longrightarrow> reach ops n L cfg okE a c"
  by (induction rule: reach.induct) (auto intro: reach.intros)

lemma reach_one: "step ops n L cfg okE a b \<Longrightarrow> reach ops n L cfg okE a b"
  by (rule reach_step [OF reach_refl])

definition shuffles :: "world \<Rightarrow> bool" where
  "shuffles w \<longleftrightarrow> (\<forall>xs. mset (wShuffle w xs) = mset xs)"

primrec children :: "'a io \<Rightarrow> 'a io set" where
  "children (Ret x) = {}"
| "children Panic = {}"
| "children NoFuel = {}"
| "children (Now k) = range k"
| "children (Get fp k) = range k"
| "children (All k) = range k"
| "children (Hashes k) = range k"
| "children (Add b k) = range k"
| "children (AddSig fp e k) = range k"
| "children (Revoke fp sig k) = range k"
| "children (PeersAll k) = range k"
| "children (PeersAdd url k) = range k"
| "children (PeersLen k) = range k"
| "children (PeersContains url k) = range k"
| "children (PeersSetMeta url m q) = {q}"
| "children (PeersMeta k) = range k"
| "children (IsSeen i k) = range k"
| "children (MarkSeen i q) = {q}"
| "children (Shuffle xs k) = range k"
| "children (LookupHost h k) = range k"
| "children (HttpGet url k) = range k"
| "children (HttpPost url body k) = range k"
| "children (Go t q) = {q}"

lemma children_induct:
  assumes step: "\<And>p. (\<And>q. q \<in> children p \<Longrightarrow> P q) \<Longrightarrow> P p"
  shows "P p"
proof (induction p)
qed (rule step, auto)+

lemma run_act:
  assumes "shuffles w" and "children p \<noteq> {}"
  shows "(\<exists>p' s'. p' \<in> children p \<and> act ops p s p' s' \<and> run ops w p' s' = run ops w p s) \<or>
    run ops w p s = (Hung, s)"
proof (cases p)
  case (Now k)
  then show ?thesis using act.Now [of ops k s] by fastforce
next
  case (Get fp k)
  then show ?thesis using act.Get [of ops fp s _ k] by (cases "opGet ops fp (nStore s)") fastforce+
next
  case (All k)
  then show ?thesis using act.All [of ops s _ k] by (cases "opAll ops (nStore s)") fastforce+
next
  case (Hashes k)
  then show ?thesis using act.Hashes [of ops k s] by fastforce
next
  case (PeersAll k)
  then show ?thesis using act.PeersAll [of ops k s] by fastforce
next
  case (PeersLen k)
  then show ?thesis using act.PeersLen [of ops k s] by fastforce
next
  case (PeersContains url k)
  then show ?thesis using act.PeersContains [of ops url k s] by fastforce
next
  case (PeersMeta k)
  then show ?thesis using act.PeersMeta [of ops k s] by fastforce
next
  case (LookupHost h k)
  then show ?thesis using act.LookupHost [of ops h k s "wLookup w h"] by fastforce
next
  case (HttpGet url k)
  then show ?thesis using act.HttpGet [of ops url k s "wGet w url"] by fastforce
next
  case (HttpPost url body k)
  then show ?thesis using act.HttpPost [of ops url body k s "wPost w url body"] by fastforce
next
  case (PeersSetMeta url m q)
  then show ?thesis using act.PeersSetMeta [of ops url m q s] by fastforce
next
  case (MarkSeen i q)
  then show ?thesis using act.MarkSeen [of ops i q s] by fastforce
next
  case (Go t q)
  then show ?thesis using act.Go [of ops t q s] by fastforce
next
  case (Add b k)
  obtain r st where "opAdd ops b (nStore s) = (r, st)" by fastforce
  with act.Add [OF this, of k] Add show ?thesis by fastforce
next
  case (AddSig fp e k)
  obtain r st where "opAddSig ops fp e (nStore s) = (r, st)" by fastforce
  with act.AddSig [OF this, of k] AddSig show ?thesis by fastforce
next
  case (Revoke fp sig k)
  obtain r st where "opRevoke ops fp sig (nStore s) = (r, st)" by fastforce
  with act.Revoke [OF this, of k] Revoke show ?thesis by fastforce
next
  case (PeersAdd url k)
  obtain r q where "pl_Add url (nPeers s) = (r, q)" by fastforce
  with act.PeersAdd [OF this, of ops k] PeersAdd show ?thesis by fastforce
next
  case (IsSeen i k)
  obtain r q where "isSeen (nClock s) i (nSeen s) = (r, q)" by fastforce
  with act.IsSeen [OF this, of ops k] IsSeen show ?thesis by fastforce
next
  case (Shuffle xs k)
  have "mset (wShuffle w xs) = mset xs" using assms(1) by (simp add: shuffles_def)
  with act.Shuffle [OF this, of ops k s] Shuffle show ?thesis by fastforce
qed (use assms(2) in simp_all)

lemma run_end: "children p = {} \<Longrightarrow> run ops w p s = (out, s') \<Longrightarrow> s' = s \<and> (\<forall>x. out = Done x \<longrightarrow> p = Ret x)"
  by (cases p) auto

text \<open>Programs all of whose insertions satisfy \<open>okE\<close>.\<close>

primrec all_ok :: "(SigEntry \<Rightarrow> bool) \<Rightarrow> 'a io \<Rightarrow> bool" where
  "all_ok okE (Ret x) = True"
| "all_ok okE Panic = True"
| "all_ok okE NoFuel = True"
| "all_ok okE (Now k) = (\<forall>r. all_ok okE (k r))"
| "all_ok okE (Get fp k) = (\<forall>r. all_ok okE (k r))"
| "all_ok okE (All k) = (\<forall>r. all_ok okE (k r))"
| "all_ok okE (Hashes k) = (\<forall>r. all_ok okE (k r))"
| "all_ok okE (Add b k) = (\<forall>r. all_ok okE (k r))"
| "all_ok okE (AddSig fp e k) = (okE e \<and> (\<forall>r. all_ok okE (k r)))"
| "all_ok okE (Revoke fp sig k) = (\<forall>r. all_ok okE (k r))"
| "all_ok okE (PeersAll k) = (\<forall>r. all_ok okE (k r))"
| "all_ok okE (PeersAdd url k) = (\<forall>r. all_ok okE (k r))"
| "all_ok okE (PeersLen k) = (\<forall>r. all_ok okE (k r))"
| "all_ok okE (PeersContains url k) = (\<forall>r. all_ok okE (k r))"
| "all_ok okE (PeersSetMeta url m q) = all_ok okE q"
| "all_ok okE (PeersMeta k) = (\<forall>r. all_ok okE (k r))"
| "all_ok okE (IsSeen i k) = (\<forall>r. all_ok okE (k r))"
| "all_ok okE (MarkSeen i q) = all_ok okE q"
| "all_ok okE (Shuffle xs k) = (\<forall>r. all_ok okE (k r))"
| "all_ok okE (LookupHost h k) = (\<forall>r. all_ok okE (k r))"
| "all_ok okE (HttpGet url k) = (\<forall>r. all_ok okE (k r))"
| "all_ok okE (HttpPost url body k) = (\<forall>r. all_ok okE (k r))"
| "all_ok okE (Go t q) = all_ok okE q"

lemma all_ok_children: "all_ok okE p \<Longrightarrow> ok_call okE p \<and> (\<forall>q \<in> children p. all_ok okE q)"
  by (cases p) auto

lemma all_ok_True: "all_ok (\<lambda>_. True) p"
  by (induction p) auto

lemma run_reach:
  assumes w: "shuffles w" and "run ops w p s = (out, s')" and "all_ok okE p"
  shows "\<exists>q. reach ops n L cfg okE (s, ts @ Handler p # us) (s', ts @ Handler q # us) \<and>
    (\<forall>x. out = Done x \<longrightarrow> q = Ret x)"
  using assms(2,3)
proof (induction p arbitrary: s rule: children_induct)
  case (1 p)
  from all_ok_children [OF 1(3)] have ok: "ok_call okE p" "\<And>q. q \<in> children p \<Longrightarrow> all_ok okE q" by auto
  show ?case
  proof (cases "children p = {}")
    case True
    from run_end [OF this 1(2)] show ?thesis by (auto intro: reach_refl)
  next
    case False
    show ?thesis
    proof (cases "run ops w p s = (Hung, s)")
      case True
      with 1(2) show ?thesis by (auto intro: reach_refl)
    next
      case hung: False
      with run_act [OF w False, of ops s] obtain p' s1 where p': "p' \<in> children p" "act ops p s p' s1"
        "run ops w p' s1 = run ops w p s" by blast
      from 1(1) [OF p'(1), of s1] p'(3) 1(2) ok(2) [OF p'(1)] obtain q where
        q: "reach ops n L cfg okE (s1, ts @ Handler p' # us) (s', ts @ Handler q # us)"
        "\<forall>x. out = Done x \<longrightarrow> q = Ret x" by auto
      from reach_trans [OF q(1) reach_one [OF step.handler [OF p'(2) ok(1)]]] q(2) show ?thesis by blast
    qed
  qed
qed

section \<open>The sample node\<close>

definition sample_flags :: flags where
  "sample_flags = \<lparr>fAddr = [], fStoreFile = [], fPeers = [], fDomains = [], fAllowAll = True, fNodeURL = [],
     fAllowPrivatePeers = False, fMaxPeers = 50\<rparr>"

definition sample_config :: config where
  "sample_config = main_config sample_lib sample_flags"

definition sample_world :: world where
  "sample_world = \<lparr>wGet = (\<lambda>_. Unreachable), wPost = (\<lambda>_ _. Unreachable), wLookup = (\<lambda>_. None),
     wShuffle = (\<lambda>xs. xs)\<rparr>"

definition sample_fp :: "string \<Rightarrow> string" where
  "sample_fp key = map upper_char (fmt_x key)"

definition sample_self_sig :: "string \<Rightarrow> string" where
  "sample_self_sig key = EncodeToString (key @ SubmitPayload sample_lib (sample_fp key) key 0)"

definition sample_key_block :: "string \<Rightarrow> Block" where
  "sample_key_block key =
     make_block sample_lib (sample_fp key) key [key @ ''@example.org''] 0 (sample_self_sig key)"

definition add_request :: "string \<Rightarrow> request" where
  "add_request key =
     \<lparr>rqBody = Some (AObj [(''armored_key'', AStr key), (''self_sig'', AStr (sample_self_sig key)),
        (''submit_timestamp'', AFloat 0 0)]), rqQ = [], rqForwardedFor = []\<rparr>"

lemma sample_config_simps [simp]:
  "cAllowAll sample_config" "wired sample_config"
  by (simp_all add: sample_config_def) (simp add: main_config_def sample_flags_def Let_def)

lemma sample_parse: "key \<noteq> [] \<Longrightarrow>
    ParseArmoredKey sample_lib key = Inr (sample_fp key, [key @ ''@example.org'']) \<and>
    CheckKeyStrength sample_lib key = None"
  by (simp add: ParseArmoredKey_def CheckKeyStrength_def readEntity_def sample_lib_def sample_fp_def)

lemma sample_verify:
  "key \<noteq> [] \<Longrightarrow> VerifyDetachedSig sample_lib now payload (EncodeToString (key @ payload)) key"
  by (simp add: VerifyDetachedSig_def readEntity_def sample_lib_def DecodeString_Encode)

lemma sample_self_sig_nonempty: "key \<noteq> [] \<Longrightarrow> sample_self_sig key \<noteq> []"
  by (metis DecodeString_Encode append_is_Nil_conv sample_self_sig_def EncodeToString.simps(1) option.inject)

lemma sample_time [simp]: "float_to_int64 L 0 0 = 0"
  by (simp add: float_to_int64_def float_trunc_def Let_def)

lemma sample_domains: "key = ''A'' \<or> key = ''B'' \<Longrightarrow>
    ExtractEmailDomains sample_lib [key @ ''@example.org''] = [''example.org'']"
proof -
  have "ExtractEmailDomains sample_lib [''A@example.org''] = [''example.org'']"
    "ExtractEmailDomains sample_lib [''B@example.org''] = [''example.org'']" by code_simp+
  then show "key = ''A'' \<or> key = ''B'' \<Longrightarrow>
    ExtractEmailDomains sample_lib [key @ ''@example.org''] = [''example.org'']" by auto
qed

lemma run_add_sample:
  assumes key: "key = ''A'' \<or> key = ''B''" and "opGet ops (sample_fp key) (nStore s) = Some (Inr None)"
    and "opAdd ops (sample_key_block key) (nStore s) = (None, st)"
  shows "run ops w (handleAddBlock sample_lib sample_config (add_request key)) s =
    (Done (Response 201 (blockToMap (sample_key_block key))),
     s\<lparr>nStore := st, nGos := nGos s @ [GossipBlockT (sample_key_block key) []]\<rparr>)"
proof -
  from key have ne: "key \<noteq> []" by auto
  note sample_parse [OF ne] sample_self_sig_nonempty [OF ne] sample_domains [OF key]
  moreover have "VerifyDetachedSig sample_lib now (SubmitPayload sample_lib (sample_fp key) key 0)
      (sample_self_sig key) key" for now
    unfolding sample_self_sig_def by (rule sample_verify [OF ne])
  ultimately show ?thesis using assms ne
    by (simp add: handleAddBlock_def add_request_def getString_def Let_def request_time_def getInt64_def
        sample_key_block_def)
qed

text \<open>A sample node that has served the submission of a key.\<close>

definition node0 :: "'s \<Rightarrow> 's node" where
  "node0 st = main_node sample_lib sample_flags st 0"

lemma node0_simps [simp]: "nStore (node0 st) = st" "nGos (node0 st) = []" "nClock (node0 st) = 0"
  "nPeers (node0 st) = NewPeerList 50"
  by (simp_all add: node0_def main_node_def sample_flags_def split_flag_def)

lemma nStore_boot [simp]: "nStore (boot_peers urls s) = nStore s"
  by (induction urls arbitrary: s) auto

lemma nStore_main [simp]: "nStore (main_node L f st now) = st"
  by (simp add: main_node_def)

lemma shuffles_sample [simp]: "shuffles sample_world"
  by (simp add: shuffles_def sample_world_def)

lemma serve_add_block: "serve n L cfg ''POST'' ''/block'' r = handleAddBlock L cfg r"
  by (simp add: serve_def NewRouter_def)

lemma serve_p2p_sign: "serve n L cfg ''POST'' ''/p2p/sign'' r = handleP2PReceiveSig n L cfg r"
  by (simp add: serve_def NewRouter_def)

text \<open>Serving one request is a run of steps that adds one thread, which has returned.\<close>

lemma run_serve_reach:
  assumes "run ops w (serve n L cfg mth path r) s = (Done x, s')" and "shuffles w"
    and "reach ops n L cfg okE c (s, ts)" and "all_ok okE (serve n L cfg mth path r)"
  shows "reach ops n L cfg okE c (s', ts @ [Handler (Ret x)])"
proof -
  have "reach ops n L cfg okE c (s, ts @ [Handler (serve n L cfg mth path r)])"
    by (rule reach_step [OF assms(3)]) (rule step.request)
  moreover from run_reach [OF assms(2,1,4), of n L cfg ts "[]"]
  have "reach ops n L cfg okE (s, ts @ [Handler (serve n L cfg mth path r)]) (s', ts @ [Handler (Ret x)])"
    by auto
  ultimately show ?thesis by (metis reach_trans)
qed

definition node_A :: "MemoryStore node" where
  "node_A = (node0 NewMemoryStore)\<lparr>nStore := [(''41'', sample_key_block ''A'')],
     nGos := [GossipBlockT (sample_key_block ''A'') []]\<rparr>"

lemma sample_fp_A: "sample_fp ''A'' = ''41''" and sample_fp_B: "sample_fp ''B'' = ''42''"
  by code_simp+

lemma sample_key_block_fp [simp]: "bFingerprint (sample_key_block key) = sample_fp key"
  by (simp add: sample_key_block_def make_block_def)

lemma run_add_A:
  "run memory_ops sample_world (serve n sample_lib sample_config ''POST'' ''/block'' (add_request ''A''))
     (node0 NewMemoryStore) = (Done (Response 201 (blockToMap (sample_key_block ''A''))), node_A)"
  unfolding serve_add_block
  by (subst run_add_sample [of "''A''"])
    (simp_all add: mem_defs sample_fp_A NewMemoryStore_def mget_def mset_key_def node_A_def)

lemma reach_node_A:
  "reach memory_ops n sample_lib sample_config (\<lambda>_. True) (node0 NewMemoryStore, [])
     (node_A, [Handler (Ret (Response 201 (blockToMap (sample_key_block ''A''))))])"
  using run_serve_reach [where ts = "[]", OF run_add_A shuffles_sample reach_refl all_ok_True] by simp

text \<open>
  Signing a block with a key given in the request.  Nothing ties the fingerprint that the
  request names to that key.
\<close>

definition sample_sig :: "string \<Rightarrow> string \<Rightarrow> string \<Rightarrow> string" where
  "sample_sig key h signerFP = EncodeToString (key @ TrustPayload h signerFP 0)"

definition sign_request :: "string \<Rightarrow> string \<Rightarrow> string \<Rightarrow> request" where
  "sign_request signerFP key h =
     \<lparr>rqBody = Some (AObj [(''signer_fingerprint'', AStr signerFP), (''sig'', AStr (sample_sig key h signerFP)),
        (''timestamp'', AFloat 0 0), (''signer_armored_key'', AStr key)]), rqQ = [], rqForwardedFor = []\<rparr>"

definition sample_signed :: "Block \<Rightarrow> string \<Rightarrow> string \<Rightarrow> SigEntry" where
  "sample_signed b signerFP key =
     (let prev = (if bSigChainHead b = [] then bHash b else bSigChainHead b) in
      \<lparr>seHash = ComputeSigEntryHash (Sum256 sample_lib) prev signerFP (sample_sig key (bHash b) signerFP) 0,
       sePrevHash = prev, seSigner = signerFP, seSig = sample_sig key (bHash b) signerFP,
       seTimestamp = 0, seSignerKey = key, seSourceNode = []\<rparr>)"

lemma EncodeToString_nonempty: "bs \<noteq> [] \<Longrightarrow> EncodeToString bs \<noteq> []"
  by (metis DecodeString_Encode EncodeToString.simps(1) option.inject)

lemma run_sign_sample:
  assumes key: "key \<noteq> []" and "signerFP \<noteq> []" and b: "mget (nStore s) fp = Some b" and "\<not> bRevoked b"
    and "signerFP \<notin> seSigner ` set (bSigEntries b)"
  shows "run memory_ops w (handleSignBlock sample_lib fp (sign_request signerFP key (bHash b))) s =
    (Done (Response 200 (blockToMap (with_entry b (sample_signed b signerFP key)))),
     s\<lparr>nStore := mset_key fp (with_entry b (sample_signed b signerFP key)) (nStore s),
       nGos := nGos s @ [GossipSigT fp (sample_signed b signerFP key) []]\<rparr>)"
proof -
  have sig: "sample_sig key (bHash b) signerFP \<noteq> []"
    using key by (simp add: sample_sig_def EncodeToString_nonempty)
  have verify: "VerifyDetachedSig sample_lib now (TrustPayload (bHash b) signerFP 0)
      (sample_sig key (bHash b) signerFP) key" for now
    unfolding sample_sig_def by (rule sample_verify [OF key])
  have new: "\<not> list_ex (\<lambda>e. seSigner e = signerFP) (bSigEntries b)"
    using assms(5) by (auto simp: list_ex_iff)
  define e where "e = sample_signed b signerFP key"
  have e: "\<lparr>seHash = ComputeSigEntryHash (Sum256 sample_lib) (if bSigChainHead b = [] then bHash b else bSigChainHead b)
        signerFP (sample_sig key (bHash b) signerFP) 0,
      sePrevHash = (if bSigChainHead b = [] then bHash b else bSigChainHead b), seSigner = signerFP,
      seSig = sample_sig key (bHash b) signerFP, seTimestamp = 0, seSignerKey = key, seSourceNode = []\<rparr> = e"
    by (simp add: e_def sample_signed_def Let_def)
  have "run memory_ops w (sign_with_key sample_lib fp b
      [(''signer_fingerprint'', AStr signerFP), (''sig'', AStr (sample_sig key (bHash b) signerFP)),
        (''timestamp'', AFloat 0 0), (''signer_armored_key'', AStr key)] 0 key) s =
    (Done (Response 200 (blockToMap (with_entry b e))),
     s\<lparr>nStore := mset_key fp (with_entry b e) (nStore s), nGos := nGos s @ [GossipSigT fp e []]\<rparr>)"
    using verify new b
    by (simp add: sign_with_key_def Let_def getString_def e mem_defs respond_updated_def with_entry_def)
  then show ?thesis
    using assms sample_parse [OF key] sig
    by (simp add: handleSignBlock_def sign_request_def getString_def Let_def request_time_def getInt64_def
        mem_defs flip: e_def)
qed

lemma serve_sign_41: "serve n L cfg ''POST'' ''/block/41/sign'' r = handleSignBlock L ''41'' r"
  by (simp add: serve_def NewRouter_def)

definition node_AB :: "string \<Rightarrow> MemoryStore node" where
  "node_AB key =
     (let e = sample_signed (sample_key_block ''A'') ''42'' key in
      node_A\<lparr>nStore := [(''41'', with_entry (sample_key_block ''A'') e)],
        nGos := nGos node_A @ [GossipSigT ''41'' e []]\<rparr>)"

lemma run_sign_A:
  assumes "key \<noteq> []"
  shows "run memory_ops sample_world (serve n sample_lib sample_config ''POST'' ''/block/41/sign''
      (sign_request ''42'' key (bHash (sample_key_block ''A'')))) node_A =
    (Done (Response 200 (blockToMap (with_entry (sample_key_block ''A'')
       (sample_signed (sample_key_block ''A'') ''42'' key)))), node_AB key)"
  unfolding serve_sign_41
  by (subst run_sign_sample) (use assms in \<open>simp_all add: node_A_def node_AB_def mget_def mset_key_def Let_def
      sample_key_block_def make_block_def\<close>)

lemma reach_node_AB:
  assumes "key \<noteq> []"
  shows "\<exists>ts. reach memory_ops n sample_lib sample_config (\<lambda>_. True) (node0 NewMemoryStore, []) (node_AB key, ts)"
  using run_serve_reach [OF run_sign_A [OF assms] shuffles_sample reach_node_A all_ok_True] by blast

text \<open>The owner revokes the block.\<close>

definition sample_revocation :: string where
  "sample_revocation = EncodeToString (''A'' @ RevokePayload ''41'' (bHash (sample_key_block ''A'')))"

definition revoke_request :: request where
  "revoke_request = \<lparr>rqBody = Some (AObj [(''sig'', AStr sample_revocation)]), rqQ = [], rqForwardedFor = []\<rparr>"

definition node_AR :: "MemoryStore node" where
  "node_AR = node_A\<lparr>nStore := [(''41'', revoked_block (sample_key_block ''A'') sample_revocation)],
     nGos := nGos node_A @ [GossipRevokeT ''41'' sample_revocation []]\<rparr>"

lemma serve_revoke_41: "serve n L cfg ''POST'' ''/block/41/revoke'' r = handleRevokeBlock L ''41'' r"
  by (simp add: serve_def NewRouter_def)

lemma run_revoke_A:
  "run memory_ops sample_world (serve n sample_lib sample_config ''POST'' ''/block/41/revoke'' revoke_request) node_A =
    (Done (Response 200 (blockToMap (revoked_block (sample_key_block ''A'') sample_revocation))), node_AR)"
proof -
  have sig: "sample_revocation \<noteq> []" by (simp add: sample_revocation_def EncodeToString_nonempty)
  have "bArmoredKey (sample_key_block ''A'') = ''A''" "\<not> bRevoked (sample_key_block ''A'')"
    by (simp_all add: sample_key_block_def make_block_def)
  moreover have "VerifyDetachedSig sample_lib now (RevokePayload ''41'' (bHash (sample_key_block ''A'')))
      sample_revocation ''A''" for now
    unfolding sample_revocation_def by (rule sample_verify) simp
  ultimately show ?thesis using sig
    by (simp add: serve_revoke_41 handleRevokeBlock_def revoke_request_def getString_def Let_def mem_defs
        respond_updated_def node_A_def node_AR_def mget_def mset_key_def revoked_block_def)
qed

lemma reach_node_AR:
  "\<exists>ts. reach memory_ops n sample_lib sample_config (\<lambda>_. True) (node0 NewMemoryStore, []) (node_AR, ts)"
  using run_serve_reach [OF run_revoke_A shuffles_sample reach_node_A all_ok_True] by blast

text \<open>The same submission to a node on the database store.\<close>

definition db_A :: sqlite where
  "db_A = \<lparr>tBlocks = [new_row (sample_key_block ''A'')], tSigs = []\<rparr>"

lemma all_ok_handleAddBlock: "all_ok okE (handleAddBlock L cfg r)"
  by (auto simp: handleAddBlock_def decodeBody_def timestamp_def writeJSON_def errJSON_def Let_def
      split: option.splits sum.splits prod.splits)

lemma reach_db_A:
  "\<exists>s ts. reach sqlite_ops n sample_lib sample_config okE (node0 empty_db, []) (s, ts) \<and> nStore s = db_A"
proof -
  have "run sqlite_ops sample_world (serve n sample_lib sample_config ''POST'' ''/block'' (add_request ''A''))
      (node0 empty_db) = (Done (Response 201 (blockToMap (sample_key_block ''A''))),
      (node0 empty_db)\<lparr>nStore := db_A, nGos := nGos (node0 empty_db) @ [GossipBlockT (sample_key_block ''A'') []]\<rparr>)"
    unfolding serve_add_block
    by (rule run_add_sample) (simp_all add: sqlite_ops_def sq_Get_def find_row_def empty_db_def sq_Add_def db_A_def)
  from run_serve_reach [OF this shuffles_sample reach_refl] all_ok_handleAddBlock show ?thesis
    by (force simp: serve_add_block)
qed

lemma db_A_get: "\<exists>b. sq_Get ''41'' db_A = Some (Inr (Some b)) \<and> bArmoredKey b = ''A''"
  by (simp add: sq_Get_def find_row_def db_A_def new_row_def getSigEntries_def rows_of_def order_entries_def
      by_hash_def row_block_def sample_fp_A) (simp add: sample_key_block_def make_block_def)

end
