(* ===== verification/Exchange.thy ===== *)
theory Exchange
  imports Samples
begin

text \<open>
  Peers and gossip: who gets into the peer list, what a goroutine of \<open>Gossip\<close> sends and how
  often, and what a peer makes of it.
\<close>

section \<open>The peer list\<close>

lemma act_peers: "act ops p s p' s' \<Longrightarrow> peers_ok (nPeers s) \<Longrightarrow> peers_ok (nPeers s')"
  by (cases rule: act.cases, assumption) (auto, metis peers_ok_Add snd_conv)

lemma act_maxSize: "act ops p s p' s' \<Longrightarrow> plMaxSize (nPeers s') = plMaxSize (nPeers s)"
  by (cases rule: act.cases, assumption) (auto simp: pl_Add_def SetMeta_def split: if_splits)

lemma reach_peers:
  assumes "reach ops n L cfg okE c c'"
  shows "plMaxSize (nPeers (fst c')) = plMaxSize (nPeers (fst c)) \<and>
    (peers_ok (nPeers (fst c)) \<longrightarrow> peers_ok (nPeers (fst c')))"
  using assms
proof induction
  case (reach_step c c' c'')
  from reach_step(2) show ?case
    by cases (use reach_step.IH in \<open>auto dest: act_peers act_maxSize\<close>)
qed simp

lemma boot_peers_ok:
  "peers_ok (nPeers s) \<Longrightarrow> peers_ok (nPeers (boot_peers urls s)) \<and>
     plMaxSize (nPeers (boot_peers urls s)) = plMaxSize (nPeers s)"
proof (induction urls arbitrary: s)
  case (Cons u urls)
  have "plMaxSize (snd (pl_Add u (nPeers s))) = plMaxSize (nPeers s)" by (simp add: pl_Add_def)
  with Cons show ?case by simp
qed simp

text \<open>
  C16.  In every reachable state the peer list holds no URL twice and never more than
  \<open>max-peers\<close> of them, whatever requests and goroutines do at the same time.
\<close>

theorem peer_list_bounded:
  assumes "reach ops n L cfg okE (main_node L f st now, []) (s, ts)"
  shows "distinct (plPeers (nPeers s)) \<and> int (length (plPeers (nPeers s))) \<le> max 0 (fMaxPeers f)"
proof -
  have "peers_ok (nPeers (main_node L f st now)) \<and> plMaxSize (nPeers (main_node L f st now)) = fMaxPeers f"
    using boot_peers_ok [of "\<lparr>nStore = st, nPeers = NewPeerList (fMaxPeers f), nSeen = [], nClock = now,
        nGos = [], nSent = []\<rparr>" "split_flag L (fPeers f)"]
    by (simp add: main_node_def) (simp add: NewPeerList_def)
  with reach_peers [OF assms] have "peers_ok (nPeers s)" "plMaxSize (nPeers s) = fMaxPeers f" by simp_all
  then show ?thesis by (simp add: peers_ok_def)
qed

theorem peer_list_bounded_witness:
  "distinct (plPeers (nPeers node_A)) \<and> int (length (plPeers (nPeers node_A))) \<le> 50"
  using peer_list_bounded [OF reach_node_A [of 0, unfolded node0_def]] by (simp add: sample_flags_def)

lemma check_addrs_None:
  "check_addrs L p addrs = None \<longleftrightarrow>
     (\<forall>a \<in> set addrs. \<forall>ip. parseIP L a = Some ip \<longrightarrow>
        \<not> IsLoopback ip \<and> (\<not> p \<longrightarrow> \<not> IsPrivate ip \<and> \<not> IsLinkLocalUnicast ip))"
  by (induction addrs) (auto split: option.splits)

text \<open>
  C15.  What \<open>POST /peers\<close> admits: the list changes only by one new URL at its end, with
  scheme http or https, whose host resolved to no loopback address and, unless private peers
  are allowed, to no private or link-local one, and which answered \<open>GET /peers\<close> with 200.
\<close>

theorem admitted_peer_checked:
  assumes "run ops w (handleAddPeer L cfg r) s = (out, s')" and "plPeers (nPeers s') \<noteq> plPeers (nPeers s)"
  shows "\<exists>body addr scheme host addrs st b.
    decode_map (rqBody r) = Some body \<and> addr = getString body ''addr'' \<and>
    plPeers (nPeers s') = plPeers (nPeers s) @ [addr] \<and>
    urlParse L addr = Some (scheme, host) \<and> scheme \<in> {''http'', ''https''} \<and>
    wLookup w host = Some addrs \<and>
    (\<forall>a \<in> set addrs. \<forall>ip. parseIP L a = Some ip \<longrightarrow>
       \<not> IsLoopback ip \<and> (\<not> cAllowPrivatePeers cfg \<longrightarrow> \<not> IsPrivate ip \<and> \<not> IsLinkLocalUnicast ip)) \<and>
    wGet w (TrimRightSlash addr @ ''/peers'') = Reply 200 b"
  using assms
  by (auto simp: handleAddPeer_def Let_def pl_Add_def check_addrs_None [symmetric]
      split: option.splits prod.splits if_splits reply.splits)

definition peer_world :: world where
  "peer_world = sample_world\<lparr>wLookup := (\<lambda>h. Some [''abcd'']), wGet := (\<lambda>u. Reply 200 None)\<rparr>"

definition peer_request :: request where
  "peer_request = \<lparr>rqBody = Some (AObj [(''addr'', AStr ''http://p'')]), rqQ = [], rqForwardedFor = []\<rparr>"

theorem admitted_peer_checked_witness:
  "\<exists>scheme host. urlParse sample_lib ''http://p'' = Some (scheme, host) \<and> scheme \<in> {''http'', ''https''}"
proof -
  have "\<exists>out s'. run memory_ops peer_world (handleAddPeer sample_lib sample_config peer_request) (node0 []) = (out, s') \<and>
      plPeers (nPeers s') \<noteq> plPeers (nPeers (node0 []))"
    by (simp add: handleAddPeer_def peer_request_def getString_def Let_def sample_lib_def peer_world_def
        sample_config_def main_config_def sample_flags_def pl_Len_def NewPeerList_def pl_Add_def
        IsLoopback_def To4_def IsPrivate_def IsLinkLocalUnicast_def byte_def)
  then show ?thesis
    using admitted_peer_checked [of memory_ops peer_world sample_lib sample_config peer_request "node0 []"]
    by (auto simp: peer_request_def getString_def)
qed

section \<open>Gossip\<close>

lemma run_pickTargets:
  assumes "shuffles w" and "0 \<le> fanout" and "distinct (plPeers (nPeers s))"
  shows "\<exists>ts. run ops w (pickTargets fanout origin) s = (Done ts, s) \<and> distinct ts \<and>
    set ts \<subseteq> set (plPeers (nPeers s)) - {origin} \<and>
    int (length ts) = min fanout (int (card (set (plPeers (nPeers s)) - {origin})))"
proof -
  let ?cs = "filter (\<lambda>p. p \<noteq> origin) (plPeers (nPeers s))"
  let ?sh = "wShuffle w ?cs" and ?k = "nat (min fanout (int (length ?cs)))"
  have m: "mset ?sh = mset ?cs" using assms(1) by (simp add: shuffles_def)
  then have d: "distinct ?sh" "set ?sh = set (plPeers (nPeers s)) - {origin}" "length ?sh = length ?cs"
    using assms(3) mset_eq_imp_distinct_iff [OF m] mset_eq_setD [OF m] mset_eq_length [OF m] by auto
  have "length ?cs = card (set (plPeers (nPeers s)) - {origin})"
    using d by (metis distinct_card)
  then have "int (length (take ?k ?sh)) = min fanout (int (card (set (plPeers (nPeers s)) - {origin})))"
    using assms(2) d(3) by simp
  moreover have "run ops w (pickTargets fanout origin) s = (Done (take ?k ?sh), s)"
    using assms(2) d(3) by (simp add: pickTargets_def Let_def pl_All_def min_def)
  moreover have "distinct (take ?k ?sh)" "set (take ?k ?sh) \<subseteq> set (plPeers (nPeers s)) - {origin}"
    using d by (auto dest: in_set_takeD)
  ultimately show ?thesis by blast
qed

text \<open>The three announcements, and the deliveries each starts.\<close>

datatype news = BlockNews Block | SigNews string SigEntry | RevokeNews string string

fun announce :: "int \<Rightarrow> news \<Rightarrow> string \<Rightarrow> unit io" where
  "announce fanout (BlockNews b) origin = GossipBlock fanout b origin"
| "announce fanout (SigNews fp e) origin = GossipSig fanout fp e origin"
| "announce fanout (RevokeNews fp sig) origin = GossipRevoke fanout fp sig origin"

fun news_id :: "news \<Rightarrow> string" where
  "news_id (BlockNews b) = bHash b"
| "news_id (SigNews fp e) = seHash e"
| "news_id (RevokeNews fp sig) = fp @ ''.revoke''"

fun news_task :: "news \<Rightarrow> string \<Rightarrow> task" where
  "news_task (BlockNews b) p = PostJSONT (p @ ''/p2p/block'') (AObj [(''block'', blockToMap b)])"
| "news_task (SigNews fp e) p =
     PostJSONT (p @ ''/p2p/sign'') (AObj [(''fingerprint'', AStr fp), (''entry'', sigEntryToMap e)])"
| "news_task (RevokeNews fp sig) p =
     PostJSONT (p @ ''/p2p/revoke'') (AObj [(''fingerprint'', AStr fp), (''revocation_sig'', AStr sig)])"

definition spread :: "int \<Rightarrow> news \<Rightarrow> string \<Rightarrow> unit io" where
  "spread fanout x origin =
     MarkSeen (news_id x) (bind (pickTargets fanout origin) (\<lambda>targets. go_all (map (news_task x) targets)))"

lemma announce_eq:
  "announce fanout x origin = IsSeen (news_id x) (\<lambda>seen. if seen then Ret () else spread fanout x origin)"
proof -
  have "news_task (BlockNews b) = (\<lambda>p. PostJSONT (p @ ''/p2p/block'') (AObj [(''block'', blockToMap b)]))"
    "news_task (SigNews fp e) = (\<lambda>p. PostJSONT (p @ ''/p2p/sign'')
       (AObj [(''fingerprint'', AStr fp), (''entry'', sigEntryToMap e)]))"
    "news_task (RevokeNews fp sig) = (\<lambda>p. PostJSONT (p @ ''/p2p/revoke'')
       (AObj [(''fingerprint'', AStr fp), (''revocation_sig'', AStr sig)]))" for b fp e sig
    by (rule ext, simp)+
  then show ?thesis
    by (cases x) (simp_all add: spread_def GossipBlock_def GossipSig_def GossipRevoke_def Let_def cong: if_cong)
qed

lemma run_spread:
  assumes "shuffles w" and "0 \<le> fanout" and "distinct (plPeers (nPeers s))"
  shows "\<exists>ts. run ops w (spread fanout x origin) s = (Done (), s\<lparr>nSeen := markSeen (nClock s) (news_id x) (nSeen s),
      nGos := nGos s @ map (news_task x) ts\<rparr>) \<and>
    distinct ts \<and> set ts \<subseteq> set (plPeers (nPeers s)) - {origin} \<and>
    int (length ts) = min fanout (int (card (set (plPeers (nPeers s)) - {origin})))"
proof -
  let ?s = "s\<lparr>nSeen := markSeen (nClock s) (news_id x) (nSeen s)\<rparr>"
  from run_pickTargets [OF assms(1,2), of ?s ops origin] assms(3) obtain ts where
    ts: "run ops w (pickTargets fanout origin) ?s = (Done ts, ?s)" "distinct ts"
      "set ts \<subseteq> set (plPeers (nPeers s)) - {origin}"
      "int (length ts) = min fanout (int (card (set (plPeers (nPeers s)) - {origin})))" by auto
  then show ?thesis by (intro exI [of _ ts]) (simp add: spread_def run_bind)
qed

text \<open>
  C17.  Gossip is bounded, and stops once the news is known: announcing a block, a signature or
  a revocation whose identity was not seen in the last hour starts one delivery of it to each
  of \<open>fanout\<close> different peers (to all when there are fewer), never to the peer it came from;
  after that, announcing news of the same identity within the hour does nothing, from whatever
  peer it comes.  This is about announcements one after the other: \<open>isSeen\<close> and \<open>markSeen\<close> take
  the mutex separately, so two that overlap can both find the news unseen and both send it.
\<close>

theorem gossip_bounded_once:
  assumes "shuffles w" and "0 \<le> fanout" and "distinct (plPeers (nPeers s))"
    and "fst (isSeen (nClock s) (news_id x) (nSeen s)) = False" and "0 \<le> d" and "d \<le> seenTTL"
    and "news_id y = news_id x"
  shows "\<exists>s' ts. run ops w (announce fanout x origin) s = (Done (), s') \<and>
    nGos s' = nGos s @ map (news_task x) ts \<and>
    distinct ts \<and> set ts \<subseteq> set (plPeers (nPeers s)) - {origin} \<and>
    int (length ts) = min fanout (int (card (set (plPeers (nPeers s)) - {origin}))) \<and>
    run ops w' (announce fanout y origin') (s'\<lparr>nClock := nClock s' + d\<rparr>) = (Done (), s'\<lparr>nClock := nClock s' + d\<rparr>)"
proof -
  obtain sn where seen: "isSeen (nClock s) (news_id x) (nSeen s) = (False, sn)"
    using assms(4) by (metis prod.collapse)
  from run_spread [OF assms(1,2), of "s\<lparr>nSeen := sn\<rparr>" ops x origin] assms(3) obtain ts where
    ts: "run ops w (spread fanout x origin) (s\<lparr>nSeen := sn\<rparr>) =
      (Done (), s\<lparr>nSeen := markSeen (nClock s) (news_id x) sn, nGos := nGos s @ map (news_task x) ts\<rparr>)"
    "distinct ts" "set ts \<subseteq> set (plPeers (nPeers s)) - {origin}"
    "int (length ts) = min fanout (int (card (set (plPeers (nPeers s)) - {origin})))" by auto
  let ?s = "s\<lparr>nSeen := markSeen (nClock s) (news_id x) sn, nGos := nGos s @ map (news_task x) ts\<rparr>"
  have "run ops w (announce fanout x origin) s = (Done (), ?s)"
    using seen ts(1) by (simp add: announce_eq)
  moreover have "run ops w' (announce fanout y origin') (?s\<lparr>nClock := nClock ?s + d\<rparr>) =
      (Done (), ?s\<lparr>nClock := nClock ?s + d\<rparr>)"
    using isSeen_markSeen [of "nClock s + d" "nClock s" "news_id x" sn] assms(6,7) by (simp add: announce_eq)
  ultimately show ?thesis using ts(2-4) by (intro exI [of _ ?s] exI [of _ ts]) simp
qed

theorem gossip_bounded_once_witness:
  "\<exists>s'. run memory_ops sample_world (GossipBlock 3 (sample_key_block ''A'') []) (node0 []) = (Done (), s') \<and>
     run memory_ops sample_world (GossipBlock 3 (sample_key_block ''A'') []) (s'\<lparr>nClock := nClock s' + seenTTL\<rparr>) =
       (Done (), s'\<lparr>nClock := nClock s' + seenTTL\<rparr>)"
proof -
  let ?x = "BlockNews (sample_key_block ''A'')"
  have "fst (isSeen (nClock (node0 [])) (news_id ?x) (nSeen (node0 []))) = False"
    by (simp add: node0_def main_node_def split_flag_def sample_flags_def isSeen_def mget_def)
  moreover have "distinct (plPeers (nPeers (node0 [])))" by (simp add: NewPeerList_def)
  moreover have "0 \<le> seenTTL" by (simp add: seenTTL_def second_def)
  ultimately show ?thesis
    using gossip_bounded_once [of sample_world 3 "node0 []" ?x seenTTL ?x memory_ops "[]" sample_world "[]"]
    by auto
qed

text \<open>Two overlapping announcements of the same news: both find it unseen, and both send it.\<close>

lemma announce_overlap:
  assumes "shuffles w" and "0 \<le> fanout" and "distinct (plPeers (nPeers s))"
    and "fst (isSeen (nClock s) (news_id x) (nSeen s)) = False"
  shows "\<exists>s1 s2 s3 ts us. act ops (announce fanout x o1) s (spread fanout x o1) s1 \<and>
    act ops (announce fanout x o2) s1 (spread fanout x o2) s2 \<and>
    run ops w (spread fanout x o1) s2 = (Done (), s3) \<and> nGos s3 = nGos s @ map (news_task x) ts \<and>
    nGos (snd (run ops w (spread fanout x o2) s3)) = nGos s3 @ map (news_task x) us \<and>
    int (length ts) = min fanout (int (card (set (plPeers (nPeers s)) - {o1}))) \<and>
    int (length us) = min fanout (int (card (set (plPeers (nPeers s)) - {o2})))"
proof -
  obtain sn where sn: "isSeen (nClock s) (news_id x) (nSeen s) = (False, sn)"
    using assms(4) by (metis prod.collapse)
  then have again: "isSeen (nClock s) (news_id x) sn = (False, sn)"
    by (auto simp: isSeen_def Let_def split: option.splits if_splits)
  let ?s = "s\<lparr>nSeen := sn\<rparr>"
  have a1: "act ops (announce fanout x o1) s (spread fanout x o1) ?s"
    using act.IsSeen [OF sn, of ops "\<lambda>seen. if seen then Ret () else spread fanout x o1"] by (simp add: announce_eq)
  have a2: "act ops (announce fanout x o2) ?s (spread fanout x o2) ?s"
    using act.IsSeen [of ?s "news_id x" False sn ops "\<lambda>seen. if seen then Ret () else spread fanout x o2"] again
    by (simp add: announce_eq)
  from run_spread [OF assms(1,2), of ?s ops x o1] assms(3) obtain ts s3 where
    s3: "run ops w (spread fanout x o1) ?s = (Done (), s3)" "nGos s3 = nGos s @ map (news_task x) ts"
    "nPeers s3 = nPeers s" "int (length ts) = min fanout (int (card (set (plPeers (nPeers s)) - {o1})))" by auto
  from run_spread [OF assms(1,2), of s3 ops x o2] assms(3) s3(3) obtain us where
    "nGos (snd (run ops w (spread fanout x o2) s3)) = nGos s3 @ map (news_task x) us"
    "int (length us) = min fanout (int (card (set (plPeers (nPeers s)) - {o2})))" by auto
  with a1 a2 s3 show ?thesis by blast
qed

section \<open>From one node to another\<close>

text \<open>The request a peer receives when a block is delivered to it.\<close>

definition delivered :: "Block \<Rightarrow> string \<Rightarrow> request" where
  "delivered b origin =
     \<lparr>rqBody = Some (wire (AObj [(''block'', blockToMap b)])), rqQ = [], rqForwardedFor = origin\<rparr>"

lemma wire_block:
  assumes "ascii (bArmoredKey b)" and "ascii (bSelfSig b)" and "ascii (bHash b)"
    and "\<bar>sint (bSubmitTimestamp b)\<bar> < 2 ^ 53"
  shows "\<exists>m. wire (blockToMap b) = AObj m \<and> getString m ''armored_key'' = bArmoredKey b \<and>
    getString m ''self_sig'' = bSelfSig b \<and> getString m ''hash'' = bHash b \<and>
    getInt64 L m ''submit_timestamp'' = (bSubmitTimestamp b, True)"
proof -
  have keys: "utf8_fix ''hash'' = ''hash''" "utf8_fix ''fingerprint'' = ''fingerprint''"
    "utf8_fix ''armored_key'' = ''armored_key''" "utf8_fix ''uids'' = ''uids''"
    "utf8_fix ''submit_timestamp'' = ''submit_timestamp''" "utf8_fix ''self_sig'' = ''self_sig''"
    "utf8_fix ''sig_chain_head'' = ''sig_chain_head''" "utf8_fix ''sig_chain'' = ''sig_chain''"
    "utf8_fix ''revoked'' = ''revoked''" "utf8_fix ''revocation_sig'' = ''revocation_sig''"
    by (rule utf8_fix_ascii, simp add: ascii_def byte_def)+
  note fixed = assms(1-3) [THEN utf8_fix_ascii]
  show ?thesis
    unfolding blockToMap_def wire.simps list.map prod.case keys fixed getInt64_toInt64
    using toInt64_wire [OF assms(4), of L] by (simp add: getString_def)
qed

lemma run_receive_block:
  assumes "block_valid L cfg b" and "ascii (bArmoredKey b)" and "ascii (bSelfSig b)" and "ascii (bHash b)"
    and "bArmoredKey b \<noteq> []" and "bSelfSig b \<noteq> []" and "\<bar>sint (bSubmitTimestamp b)\<bar> < 2 ^ 53"
    and "VerifyDetachedSig L (nClock s) (SubmitPayload L (bFingerprint b) (bArmoredKey b) (bSubmitTimestamp b))
      (bSelfSig b) (bArmoredKey b)"
    and "mget (nStore s) (bFingerprint b) = None"
  shows "\<exists>uids. ParseArmoredKey L (bArmoredKey b) = Inr (bFingerprint b, uids) \<and>
    (let c = make_block L (bFingerprint b) (bArmoredKey b) uids (bSubmitTimestamp b) (bSelfSig b) in
    bHash c = bHash b \<and> run memory_ops w (handleP2PReceiveBlock L cfg (delivered b origin)) s = (Done (Response 200 ok_body),
      s\<lparr>nStore := mset_key (bFingerprint b) c (nStore s), nGos := nGos s @ [GossipBlockT c origin]\<rparr>))"
proof -
  obtain m where m: "wire (blockToMap b) = AObj m" "getString m ''armored_key'' = bArmoredKey b"
    "getString m ''self_sig'' = bSelfSig b" "getString m ''hash'' = bHash b"
    "getInt64 L m ''submit_timestamp'' = (bSubmitTimestamp b, True)"
    using wire_block [OF assms(2-4,7)] by blast
  have body: "decode_map (rqBody (delivered b origin)) = Some [(''block'', AObj m)]"
    using m(1) utf8_fix_ascii [of "''block''"] by (simp add: delivered_def ascii_def byte_def)
  have origin: "rqForwardedFor (delivered b origin) = origin" by (simp add: delivered_def)
  from assms(1) obtain uids where uids: "ParseArmoredKey L (bArmoredKey b) = Inr (bFingerprint b, uids)"
    "(\<not> cAllowAll cfg \<and> \<not> api_domainAllowed (ExtractEmailDomains L uids) (cDomains cfg)) = False"
    "CheckKeyStrength L (bArmoredKey b) = None"
    "bHash b = ComputeBlockHash (Sum256 L) (bFingerprint b) (bArmoredKey b) (bSelfSig b)"
    by (auto simp: block_valid_def key_allowed_def domainAllowed_eq block_hash_ok_def)
  have time: "request_time L m ''submit_timestamp'' clock = bSubmitTimestamp b" for clock
    using m(5) by (simp add: request_time_def)
  let ?c = "make_block L (bFingerprint b) (bArmoredKey b) uids (bSubmitTimestamp b) (bSelfSig b)"
  have "run memory_ops w (handleP2PReceiveBlock L cfg (delivered b origin)) s = (Done (Response 200 ok_body),
      s\<lparr>nStore := mset_key (bFingerprint b) ?c (nStore s), nGos := nGos s @ [GossipBlockT ?c origin]\<rparr>)"
    using body m assms(5,6,8,9) uids time
    by (simp add: handleP2PReceiveBlock_def Let_def origin mem_defs) (simp add: make_block_def)
  moreover have "bHash ?c = bHash b" using uids(4) by (simp add: make_block_def)
  ultimately show ?thesis using uids(1) unfolding Let_def by (intro exI [of _ uids] conjI)
qed

text \<open>
  C18.  What one node gossips another accepts, as a fresh block: a valid block, delivered to a
  node on the memory store that lacks its fingerprint and whose policy and clock accept it, is
  answered with 200, and what the store then holds under the fingerprint is that block with the
  user IDs read from its key, without its entries and without its revocation, whatever they
  were; the hash, the key, the self-signature and the timestamp are those delivered.  No other
  block changes, and this block is what is passed on.  (Key and signature are ASCII, and the
  timestamp is one a \<open>float64\<close> can carry.)
\<close>

theorem gossiped_block_accepted:
  assumes "block_valid L cfg b" and "ascii (bArmoredKey b)" and "ascii (bSelfSig b)" and "ascii (bHash b)"
    and "bArmoredKey b \<noteq> []" and "bSelfSig b \<noteq> []" and "\<bar>sint (bSubmitTimestamp b)\<bar> < 2 ^ 53"
    and "VerifyDetachedSig L (nClock s) (SubmitPayload L (bFingerprint b) (bArmoredKey b) (bSubmitTimestamp b))
      (bSelfSig b) (bArmoredKey b)"
    and "mem_Get (bFingerprint b) (nStore s) = Inr None"
  shows "\<exists>s' c uids. run memory_ops w (handleP2PReceiveBlock L cfg (delivered b origin)) s = (Done (Response 200 ok_body), s') \<and>
    ParseArmoredKey L (bArmoredKey b) = Inr (bFingerprint b, uids) \<and>
    c = b\<lparr>bUIDs := uids, bSigChainHead := [], bSigEntries := [], bRevoked := False, bRevocationSig := []\<rparr> \<and>
    mget (nStore s') = (mget (nStore s))(bFingerprint b \<mapsto> c) \<and> nGos s' = nGos s @ [GossipBlockT c origin]"
proof -
  have "mget (nStore s) (bFingerprint b) = None" using assms(9) by (simp add: mem_Get_def)
  from run_receive_block [OF assms(1-8) this, of w origin] obtain uids where
    uids: "ParseArmoredKey L (bArmoredKey b) = Inr (bFingerprint b, uids)"
    and c: "bHash (make_block L (bFingerprint b) (bArmoredKey b) uids (bSubmitTimestamp b) (bSelfSig b)) = bHash b"
    and run: "run memory_ops w (handleP2PReceiveBlock L cfg (delivered b origin)) s = (Done (Response 200 ok_body),
      s\<lparr>nStore := mset_key (bFingerprint b) (make_block L (bFingerprint b) (bArmoredKey b) uids (bSubmitTimestamp b) (bSelfSig b)) (nStore s),
        nGos := nGos s @ [GossipBlockT (make_block L (bFingerprint b) (bArmoredKey b) uids (bSubmitTimestamp b) (bSelfSig b)) origin]\<rparr>)"
    unfolding Let_def by blast
  from c have "make_block L (bFingerprint b) (bArmoredKey b) uids (bSubmitTimestamp b) (bSelfSig b) =
      b\<lparr>bUIDs := uids, bSigChainHead := [], bSigEntries := [], bRevoked := False, bRevocationSig := []\<rparr>"
    by (cases b) (simp add: make_block_def)
  then show ?thesis unfolding run using uids by (simp add: fun_eq_iff)
qed

lemma ascii_b64_char: "n < 64 \<Longrightarrow> byte (b64_char n) < 128"
proof -
  assume "n < 64"
  then consider "n < 26" | "26 \<le> n" "n < 52" | "52 \<le> n" "n < 62" | "n = 62" | "n = 63" by linarith
  then show ?thesis by cases (auto simp: b64_char_def byte_def)
qed

lemma ascii_EncodeToString: "ascii (EncodeToString bs)"
proof -
  have "byte c < 128" if "c \<in> set (EncodeToString bs)" for c
  proof -
    from that EncodeToString_chars [of bs] consider "c = CHR ''=''" | n where "n < 64" "c = b64_char n" by blast
    then show ?thesis by cases (simp add: byte_def, simp add: ascii_b64_char)
  qed
  then show ?thesis by (simp add: ascii_def list_all_iff)
qed

lemma ascii_hash: "ascii (hexSHA256 H x)"
proof -
  have "byte c < 128" if "c \<in> set (hexSHA256 H x)" for c
    using hexSHA256_chars [OF that] by (auto simp: hex_upper_def)
  then show ?thesis by (simp add: ascii_def list_all_iff)
qed

theorem gossiped_block_accepted_witness:
  "\<exists>s'. run memory_ops sample_world (handleP2PReceiveBlock sample_lib sample_config
        (delivered (revoked_block (sample_key_block ''A'') ''r'') [])) (node0 []) = (Done (Response 200 ok_body), s') \<and>
     mget (nStore s') = [''41'' \<mapsto> sample_key_block ''A'']"
proof -
  let ?b = "revoked_block (sample_key_block ''A'') ''r''"
  have sel: "bFingerprint ?b = ''41''" "bArmoredKey ?b = ''A''" "bSelfSig ?b = sample_self_sig ''A''"
    "bSubmitTimestamp ?b = 0" "bHash ?b = ComputeBlockHash (Sum256 sample_lib) ''41'' ''A'' (sample_self_sig ''A'')"
    by (simp_all add: revoked_block_def) (simp_all add: sample_key_block_def make_block_def sample_fp_A)
  have verify: "VerifyDetachedSig sample_lib now (SubmitPayload sample_lib ''41'' ''A'' 0) (sample_self_sig ''A'') ''A''" for now
    using sample_verify [of "''A''"] by (simp add: sample_self_sig_def sample_fp_A)
  have "block_valid sample_lib sample_config ?b"
    using sample_parse [of "''A''"] verify
    by (auto simp: block_valid_def sel block_hash_ok_def key_allowed_def sample_fp_A)
  moreover have "ascii (sample_self_sig ''A'')" by (simp add: sample_self_sig_def ascii_EncodeToString)
  moreover have "ascii (bHash ?b)" by (simp add: sel ComputeBlockHash_def ascii_hash)
  moreover have "ascii ''A''" by (simp add: ascii_def byte_def)
  moreover have uid: "?b\<lparr>bUIDs := [''A@example.org''], bSigChainHead := [], bSigEntries := [], bRevoked := False,
      bRevocationSig := []\<rparr> = sample_key_block ''A''"
    by (simp add: revoked_block_def) (simp add: sample_key_block_def make_block_def)
  moreover have empty: "mget [] = (Map.empty :: string \<Rightarrow> Block option)" by (rule ext) (simp add: mget_def)
  ultimately show ?thesis
    using gossiped_block_accepted [of sample_lib sample_config ?b "node0 []" sample_world "[]"]
      sample_self_sig_nonempty [of "''A''"] verify sample_parse [of "''A''"] uid
    by (auto simp: sel mem_Get_def sample_fp_A empty)
qed

section \<open>What does not hold\<close>

text \<open>
  C34.  A signature by any key counts as the signature of any fingerprint: the handler checks the
  signature under the key in the request and records the fingerprint in the request, and
  nowhere compares the two.  Here \<open>M\<close> signs as \<open>42\<close>, the fingerprint of \<open>B\<close>, and the trust
  graph then takes \<open>B\<close> for a signer of \<open>A\<close>.
\<close>

theorem signer_not_bound_to_key:
  "\<exists>s ts b e. reach memory_ops 0 sample_lib sample_config (\<lambda>_. True) (node0 NewMemoryStore, []) (s, ts) \<and>
     mem_Get ''41'' (nStore s) = Inr (Some b) \<and> e \<in> set (bSigEntries b) \<and> seSigner e = ''42'' \<and>
     seSignerKey e = ''M'' \<and> (\<exists>fp uids. ParseArmoredKey sample_lib (seSignerKey e) = Inr (fp, uids) \<and> fp \<noteq> ''42'')"
proof -
  let ?e = "sample_signed (sample_key_block ''A'') ''42'' ''M''"
  obtain ts where "reach memory_ops 0 sample_lib sample_config (\<lambda>_. True) (node0 NewMemoryStore, []) (node_AB ''M'', ts)"
    using reach_node_AB [of "''M''" 0] by blast
  moreover have "mem_Get ''41'' (nStore (node_AB ''M'')) = Inr (Some (with_entry (sample_key_block ''A'') ?e))"
    by (simp add: node_AB_def Let_def mem_Get_def mget_def)
  moreover have "?e \<in> set (bSigEntries (with_entry (sample_key_block ''A'') ?e))" by (simp add: with_entry_def)
  moreover have "seSigner ?e = ''42''" "seSignerKey ?e = ''M''" by (simp_all add: sample_signed_def Let_def)
  moreover have "ParseArmoredKey sample_lib ''M'' = Inr (sample_fp ''M'', [''M@example.org''])"
    using sample_parse [of "''M''"] by simp
  moreover have "sample_fp ''M'' \<noteq> ''42''" by code_simp
  ultimately show ?thesis by metis
qed

text \<open>A sign request up to the point where it is about to add its entry, and its end.\<close>

lemma sign_two_calls:
  assumes key: "key \<noteq> []" and "signerFP \<noteq> []" and b: "mget (nStore s) fp = Some b" and "\<not> bRevoked b"
    and "signerFP \<notin> seSigner ` set (bSigEntries b)"
  shows "reach memory_ops n L cfg okE
      (s, ts @ Handler (handleSignBlock sample_lib fp (sign_request signerFP key (bHash b))) # us)
      (s, ts @ Handler (AddSig fp (sample_signed b signerFP key)
         (\<lambda>_. Go (GossipSigT fp (sample_signed b signerFP key) []) (respond_updated fp))) # us)"
proof -
  let ?body = "[(''signer_fingerprint'', AStr signerFP), (''sig'', AStr (sample_sig key (bHash b) signerFP)),
      (''timestamp'', AFloat 0 0), (''signer_armored_key'', AStr key)]"
  let ?p = "handleSignBlock sample_lib fp (sign_request signerFP key (bHash b))"
  let ?q = "AddSig fp (sample_signed b signerFP key)
      (\<lambda>_. Go (GossipSigT fp (sample_signed b signerFP key) []) (respond_updated fp))"
  have sig: "sample_sig key (bHash b) signerFP \<noteq> []"
    using key by (simp add: sample_sig_def EncodeToString_nonempty)
  have verify: "VerifyDetachedSig sample_lib now (TrustPayload (bHash b) signerFP 0)
      (sample_sig key (bHash b) signerFP) key" for now
    unfolding sample_sig_def by (rule sample_verify [OF key])
  have new: "\<not> list_ex (\<lambda>e. seSigner e = signerFP) (bSigEntries b)"
    using assms(5) by (auto simp: list_ex_iff)
  have second: "sign_with_key sample_lib fp b ?body 0 key = Now (\<lambda>now. ?q)"
    using verify new
    by (simp add: sign_with_key_def Let_def getString_def sample_signed_def)
  obtain k where k: "?p = Get fp k" "k (Inr (Some b)) = sign_with_key sample_lib fp b ?body 0 key"
    using assms sample_parse [OF key] sig
    by (simp add: handleSignBlock_def decodeBody_def sign_request_def getString_def Let_def timestamp_def getInt64_def)
  have a1: "act memory_ops ?p s (Now (\<lambda>now. ?q)) s"
    using act.Get [of memory_ops fp s "Inr (Some b)" k] k second b by (simp add: memory_ops_def mem_Get_def)
  have a2: "act memory_ops (Now (\<lambda>now. ?q)) s ?q s"
    using act.Now [of memory_ops "\<lambda>now. ?q" s] by simp
  have c1: "ok_call okE ?p" by (simp only: k(1) ok_call.simps)
  have c2: "ok_call okE (Now (\<lambda>now. ?q))" by (simp only: ok_call.simps)
  have "reach memory_ops n L cfg okE (s, ts @ Handler ?p # us) (s, ts @ Handler (Now (\<lambda>now. ?q)) # us)"
    by (rule reach_one) (rule step.handler [OF a1 c1])
  moreover have "reach memory_ops n L cfg okE (s, ts @ Handler (Now (\<lambda>now. ?q)) # us) (s, ts @ Handler ?q # us)"
    by (rule reach_one) (rule step.handler [OF a2 c2])
  ultimately show ?thesis by (blast intro: reach_trans)
qed

lemma sign_finish:
  assumes "mget (nStore s) fp = Some b"
  shows "\<exists>s'. reach memory_ops n L cfg (\<lambda>_. True)
      (s, ts @ Handler (AddSig fp e (\<lambda>_. Go t (respond_updated fp))) # us)
      (s', ts @ Handler (Ret (Response 200 (blockToMap (with_entry b e)))) # us) \<and>
    nStore s' = mset_key fp (with_entry b e) (nStore s)"
proof -
  let ?s = "s\<lparr>nStore := mset_key fp (with_entry b e) (nStore s), nGos := nGos s @ [t]\<rparr>"
  have "run memory_ops sample_world (AddSig fp e (\<lambda>_. Go t (respond_updated fp))) s =
      (Done (Response 200 (blockToMap (with_entry b e))), ?s)"
    using assms by (simp add: mem_defs respond_updated_def with_entry_def)
  from run_reach [OF shuffles_sample this all_ok_True] show ?thesis by fastforce
qed

text \<open>The request by which a signer signs the block of the sample node.\<close>

definition sign_A :: "string \<Rightarrow> string \<Rightarrow> response io" where
  "sign_A signerFP key = serve 0 sample_lib sample_config ''POST'' ''/block/41/sign''
     (sign_request signerFP key (bHash (sample_key_block ''A'')))"

lemma block_A:
  "mget (nStore node_A) ''41'' = Some (sample_key_block ''A'')" "\<not> bRevoked (sample_key_block ''A'')"
  "bSigEntries (sample_key_block ''A'') = []" "bSigChainHead (sample_key_block ''A'') = []"
  by (simp_all add: node_A_def mget_def) (simp_all add: sample_key_block_def make_block_def)

lemma sample_signed_hash: "length (seHash (sample_signed b signerFP key)) > length (bHash b)"
  if "bSigChainHead b = []"
  using that by (simp add: sample_signed_def Let_def ComputeSigEntryHash_def length_hexSHA256 sample_lib_def
      joinFields_nulls)

text \<open>Both requests read the block before either adds its entry.\<close>

lemma signed_at_once:
  assumes "c \<noteq> []" and "d \<noteq> []" and "f \<noteq> []" and "g \<noteq> []"
  shows "\<exists>s r1 r2. reach memory_ops 0 sample_lib sample_config (\<lambda>_. True)
      (node_A, [Handler (sign_A f c), Handler (sign_A g d)])
      (s, [Handler (Ret (Response 200 r1)), Handler (Ret (Response 200 r2))]) \<and>
    mget (nStore s) ''41'' = Some (with_entry (with_entry (sample_key_block ''A'')
      (sample_signed (sample_key_block ''A'') f c)) (sample_signed (sample_key_block ''A'') g d))"
proof -
  let ?b = "sample_key_block ''A''"
  let ?e = "\<lambda>fp key. sample_signed ?b fp key"
  let ?q = "\<lambda>fp key. AddSig ''41'' (?e fp key) (\<lambda>_. Go (GossipSigT ''41'' (?e fp key) []) (respond_updated ''41''))"
  let ?R = "reach memory_ops 0 sample_lib sample_config (\<lambda>_. True) :: (MemoryStore node \<times> thread list) \<Rightarrow> _"
  note calls = sign_two_calls [OF _ _ block_A(1,2), of _ _ 0 sample_lib sample_config "\<lambda>_. True",
      folded serve_sign_41 [of 0 sample_lib sample_config], folded sign_A_def]
  have "?R (node_A, [Handler (sign_A f c), Handler (sign_A g d)]) (node_A, [Handler (?q f c), Handler (sign_A g d)])"
    using calls [of c f "[]" "[Handler (sign_A g d)]"] assms block_A(3) by simp
  moreover have "?R (node_A, [Handler (?q f c), Handler (sign_A g d)]) (node_A, [Handler (?q f c), Handler (?q g d)])"
    using calls [of d g "[Handler (?q f c)]" "[]"] assms block_A(3) by simp
  moreover from sign_finish [OF block_A(1), of 0 sample_lib sample_config "[]" "?e f c"
      "GossipSigT ''41'' (?e f c) []" "[Handler (?q g d)]"]
  obtain s1 r1 where s1: "?R (node_A, [Handler (?q f c), Handler (?q g d)])
      (s1, [Handler (Ret (Response 200 r1)), Handler (?q g d)])"
    "nStore s1 = mset_key ''41'' (with_entry ?b (?e f c)) (nStore node_A)" by auto
  moreover have b1: "mget (nStore s1) ''41'' = Some (with_entry ?b (?e f c))" by (simp add: s1(2))
  moreover from sign_finish [OF b1, of 0 sample_lib sample_config "[Handler (Ret (Response 200 r1))]" "?e g d"
      "GossipSigT ''41'' (?e g d) []" "[]"]
  obtain s2 r2 where s2: "?R (s1, [Handler (Ret (Response 200 r1)), Handler (?q g d)])
      (s2, [Handler (Ret (Response 200 r1)), Handler (Ret (Response 200 r2))])"
    "nStore s2 = mset_key ''41'' (with_entry (with_entry ?b (?e f c)) (?e g d)) (nStore s1)" by auto
  ultimately show ?thesis by (intro exI [of _ s2] exI [of _ r1] exI [of _ r2]) (auto intro: reach_trans)
qed

text \<open>The second request finds the entry of the first.\<close>

lemma signed_in_turn:
  assumes "c \<noteq> []" and "d \<noteq> []" and "f \<noteq> []" and "g \<noteq> []" and "f \<noteq> g"
  shows "\<exists>b. mem_Get ''41'' (nStore (snd (run memory_ops w' (sign_A g d) (snd (run memory_ops w (sign_A f c) node_A))))) =
      Inr (Some b) \<and> map seSigner (bSigEntries b) = [f, g] \<and> linked (bHash b) (bSigEntries b)"
proof -
  let ?b = "sample_key_block ''A''"
  let ?b1 = "with_entry ?b (sample_signed ?b f c)"
  let ?b2 = "with_entry ?b1 (sample_signed ?b1 g d)"
  let ?s1 = "node_A\<lparr>nStore := mset_key ''41'' ?b1 (nStore node_A),
      nGos := nGos node_A @ [GossipSigT ''41'' (sample_signed ?b f c) []]\<rparr>"
  have "run memory_ops w (sign_A f c) node_A = (Done (Response 200 (blockToMap ?b1)), ?s1)"
    unfolding sign_A_def serve_sign_41 using assms block_A by (subst run_sign_sample) simp_all
  moreover have "mem_Get ''41'' (nStore (snd (run memory_ops w' (sign_A g d) ?s1))) = Inr (Some ?b2)"
  proof -
    have "bHash ?b1 = bHash ?b" "\<not> bRevoked ?b1" "seSigner ` set (bSigEntries ?b1) = {f}"
      using block_A by (simp_all add: with_entry_def sample_signed_def Let_def)
    with run_sign_sample [of d g ?s1 "''41''" ?b1 w'] assms show ?thesis
      by (simp add: sign_A_def serve_sign_41 mem_Get_def)
  qed
  moreover have "map seSigner (bSigEntries ?b2) = [f, g]" "linked (bHash ?b2) (bSigEntries ?b2)"
    using block_A sample_signed_hash [of ?b f c]
    by (auto simp: with_entry_def sample_signed_def Let_def)
  ultimately show ?thesis by auto
qed

text \<open>
  C35.  Two signatures at the same time fork the chain.  Take a node with one block that nobody
  signed, and two sign requests for it, by \<open>42\<close> and \<open>43\<close>, in flight.  With no other thread on
  the node and nothing else arriving, both can be answered with 200 while the two entries end
  up pointing at the block, the second not at the first: the chain is not linked.  The same
  two requests served one after the other, in either order, leave a linked chain.
\<close>

theorem concurrent_signatures_fork:
  "(\<exists>s b r1 r2. reach memory_ops 0 sample_lib sample_config (\<lambda>_. True)
      (node_A, [Handler (sign_A ''42'' ''B''), Handler (sign_A ''43'' ''C'')])
      (s, [Handler (Ret (Response 200 r1)), Handler (Ret (Response 200 r2))]) \<and>
    mem_Get ''41'' (nStore s) = Inr (Some b) \<and> map seSigner (bSigEntries b) = [''42'', ''43''] \<and>
    \<not> linked (bHash b) (bSigEntries b)) \<and>
   (\<exists>b. mem_Get ''41'' (nStore (snd (run memory_ops w' (sign_A ''43'' ''C'')
        (snd (run memory_ops w (sign_A ''42'' ''B'') node_A))))) = Inr (Some b) \<and>
      map seSigner (bSigEntries b) = [''42'', ''43''] \<and> linked (bHash b) (bSigEntries b)) \<and>
   (\<exists>b. mem_Get ''41'' (nStore (snd (run memory_ops w' (sign_A ''42'' ''B'')
        (snd (run memory_ops w (sign_A ''43'' ''C'') node_A))))) = Inr (Some b) \<and>
      map seSigner (bSigEntries b) = [''43'', ''42''] \<and> linked (bHash b) (bSigEntries b))"
proof (intro conjI)
  let ?b = "sample_key_block ''A''"
  let ?e = "sample_signed ?b ''42'' ''B''" and ?f = "sample_signed ?b ''43'' ''C''"
  let ?b2 = "with_entry (with_entry ?b ?e) ?f"
  have "\<not> linked (bHash ?b2) (bSigEntries ?b2)" "map seSigner (bSigEntries ?b2) = [''42'', ''43'']"
    using block_A sample_signed_hash [of ?b "''42''" "''B''"]
    by (auto simp: with_entry_def sample_signed_def Let_def)
  with signed_at_once [of "''B''" "''C''" "''42''" "''43''"]
  show "\<exists>s b r1 r2. reach memory_ops 0 sample_lib sample_config (\<lambda>_. True)
      (node_A, [Handler (sign_A ''42'' ''B''), Handler (sign_A ''43'' ''C'')])
      (s, [Handler (Ret (Response 200 r1)), Handler (Ret (Response 200 r2))]) \<and>
    mem_Get ''41'' (nStore s) = Inr (Some b) \<and> map seSigner (bSigEntries b) = [''42'', ''43''] \<and>
    \<not> linked (bHash b) (bSigEntries b)" by (force simp: mem_Get_def)
qed (rule signed_in_turn; simp)+

end
