(* ===== verification/Trust.thy ===== *)
theory Trust
  imports Chain "HOL-Library.Multiset"
begin

text \<open>
  The package \<open>trust\<close> without its maximum-flow scoring (\<open>internal/trust/trust.go\<close>): the
  graph of a set of blocks and the path-counting score.  A Go \<open>int\<close> is an unbounded
  integer here: depths and counts stay far below \<open>2 ^ 63\<close>.

  The specification is \<open>trust_paths\<close>, the set of the chains of signatures from a target
  back to a root: lists of distinct keys, each signed by the next.  The worklist loop of
  \<open>countPaths\<close> computes its cardinality.
\<close>

section \<open>The code\<close>

type_synonym Graph = "(string, string list) gomap"

definition signers :: "Graph \<Rightarrow> string \<Rightarrow> string list" where
  "signers g fp = (case mget g fp of None \<Rightarrow> [] | Some ss \<Rightarrow> ss)"

definition revoked_fps :: "Block list \<Rightarrow> string set" where
  "revoked_fps blocks = set (map bFingerprint (filter bRevoked blocks))"

fun add_signers :: "string set \<Rightarrow> string \<Rightarrow> SigEntry list \<Rightarrow> Graph \<Rightarrow> Graph" where
  "add_signers revoked fp [] g = g"
| "add_signers revoked fp (e # es) g =
     add_signers revoked fp es
       (if seSigner e \<in> revoked then g
        else mset_key fp (set_add (seSigner e) (signers g fp)) g)"

fun build_loop :: "string set \<Rightarrow> Block list \<Rightarrow> Graph \<Rightarrow> Graph" where
  "build_loop revoked [] g = g"
| "build_loop revoked (b # bs) g =
     (let fp = bFingerprint b;
          g1 = (if mget g fp = None then mset_key fp [] g else g)
      in build_loop revoked bs
           (if bRevoked b then g1 else add_signers revoked fp (bSigEntries b) g1))"

definition Build :: "Block list \<Rightarrow> Graph" where
  "Build blocks = build_loop (revoked_fps blocks) blocks []"

record bfsState =
  st_fp :: string
  st_depth :: int
  st_path :: "string set"

fun visit_signers :: "string \<Rightarrow> bfsState \<Rightarrow> string list \<Rightarrow> int \<times> bfsState list \<Rightarrow> int \<times> bfsState list" where
  "visit_signers rootFP cur [] (cnt, queue) = (cnt, queue)"
| "visit_signers rootFP cur (signerFP # ss) (cnt, queue) =
     visit_signers rootFP cur ss
       (if signerFP \<in> st_path cur then (cnt, queue)
        else if signerFP = rootFP then (cnt + 1, queue)
        else (cnt, queue @ [\<lparr>st_fp = signerFP, st_depth = st_depth cur + 1,
                               st_path = insert signerFP (st_path cur)\<rparr>]))"

lemma visit_signers_eq:
  "visit_signers rootFP cur ss (cnt, queue) =
     (cnt + int (length (filter (\<lambda>s. s \<notin> st_path cur \<and> s = rootFP) ss)),
      queue @ map (\<lambda>s. \<lparr>st_fp = s, st_depth = st_depth cur + 1, st_path = insert s (st_path cur)\<rparr>)
        (filter (\<lambda>s. s \<notin> st_path cur \<and> s \<noteq> rootFP) ss))"
  by (induction ss arbitrary: cnt queue) auto

function count_loop :: "Graph \<Rightarrow> string \<Rightarrow> int \<Rightarrow> int \<Rightarrow> bfsState list \<Rightarrow> int" where
  "count_loop g rootFP maxDepth cnt [] = cnt"
| "count_loop g rootFP maxDepth cnt (cur # queue) =
     (if st_depth cur \<ge> maxDepth then count_loop g rootFP maxDepth cnt queue
      else (case visit_signers rootFP cur (signers g (st_fp cur)) (cnt, queue) of
        (cnt', queue') \<Rightarrow> count_loop g rootFP maxDepth cnt' queue'))"
  by pat_completeness auto
termination
proof (relation "inv_image (mult less_than)
    (\<lambda>(g, root, md, c, q). mset (map (\<lambda>s. nat (md - st_depth s)) q))", goal_cases)
  case 1
  show ?case by (simp add: wf_mult)
next
  case (2 g root md c cur q)
  let ?f = "\<lambda>s. nat (md - st_depth s)"
  have "(mset (map ?f q), add_mset (?f cur) (mset (map ?f q))) \<in> mult1 less_than"
    by (rule mult1I [of _ "?f cur" "mset (map ?f q)" _ "{#}"]) simp_all
  then show ?case by (simp add: mult_def r_into_trancl)
next
  case (3 g root md c cur q c' q')
  let ?f = "\<lambda>s. nat (md - st_depth s)"
  let ?new = "map (\<lambda>s. \<lparr>st_fp = s, st_depth = st_depth cur + 1, st_path = insert s (st_path cur)\<rparr>)
        (filter (\<lambda>s. s \<notin> st_path cur \<and> s \<noteq> root) (signers g (st_fp cur)))"
  have q': "q' = q @ ?new" using 3 by (simp add: visit_signers_eq)
  have "(mset (map ?f q) + mset (map ?f ?new), mset (map ?f q) + {#?f cur#}) \<in> mult less_than"
    by (rule one_step_implies_mult) (use 3 in auto)
  moreover have "mset (map ?f (cur # q)) = mset (map ?f q) + {#?f cur#}" by simp
  ultimately have "(mset (map ?f q'), mset (map ?f (cur # q))) \<in> mult less_than"
    by (simp only: q' map_append mset_append)
  then show ?case by (simp only: in_inv_image prod.case)
qed

definition countPaths :: "Graph \<Rightarrow> string \<Rightarrow> string \<Rightarrow> int \<Rightarrow> int" where
  "countPaths g targetFP rootFP maxDepth =
     count_loop g rootFP maxDepth 0 [\<lparr>st_fp = targetFP, st_depth = 0, st_path = {targetFP}\<rparr>]"

definition Score :: "Graph \<Rightarrow> string \<Rightarrow> string \<Rightarrow> int \<Rightarrow> int" where
  "Score g targetFP rootFP maxDepth =
     (if rootFP = targetFP then 1 else countPaths g targetFP rootFP maxDepth)"

definition IsTrusted :: "Graph \<Rightarrow> string \<Rightarrow> string \<Rightarrow> int \<Rightarrow> int \<Rightarrow> bool" where
  "IsTrusted g targetFP rootFP maxDepth threshold \<longleftrightarrow>
     Score g targetFP rootFP maxDepth \<ge> threshold"

definition TrustedSet :: "Graph \<Rightarrow> string \<Rightarrow> int \<Rightarrow> int \<Rightarrow> string list" where
  "TrustedSet g rootFP maxDepth threshold =
     filter (\<lambda>fp. fp \<noteq> rootFP \<and> IsTrusted g fp rootFP maxDepth threshold) (map fst g)"

section \<open>The graph\<close>

definition graph_ok :: "Graph \<Rightarrow> bool" where
  "graph_ok g \<longleftrightarrow> is_gomap g \<and> (\<forall>fp. distinct (signers g fp))"

definition edge :: "Graph \<Rightarrow> string \<Rightarrow> string \<Rightarrow> bool" where
  "edge g signer fp \<longleftrightarrow> signer \<in> set (signers g fp)"

lemma signers_mset_key [simp]:
  "signers (mset_key fp ss g) fp' = (if fp' = fp then ss else signers g fp')"
  by (simp add: signers_def)

lemma signers_Nil [simp]: "signers [] fp = []"
  by (simp add: signers_def)

lemma signers_ensure [simp]:
  "signers (if mget g fp = None then mset_key fp [] g else g) fp' = signers g fp'"
  by (simp add: signers_def)

lemma add_signers_set:
  "set (signers (add_signers revoked fp es g) fp') =
     set (signers g fp') \<union> (if fp' = fp then seSigner ` set es - revoked else {})"
  by (induction es arbitrary: g) auto

lemma add_signers_ok: "graph_ok g \<Longrightarrow> graph_ok (add_signers revoked fp es g)"
  by (induction es arbitrary: g) (auto simp: graph_ok_def)

lemma graph_ok_ensure: "graph_ok g \<Longrightarrow> graph_ok (if mget g fp = None then mset_key fp [] g else g)"
  by (auto simp: graph_ok_def)

lemma build_loop_ok: "graph_ok g \<Longrightarrow> graph_ok (build_loop revoked bs g)"
  by (induction bs arbitrary: g) (simp_all add: Let_def graph_ok_ensure add_signers_ok)

lemma graph_ok_Build: "graph_ok (Build blocks)"
  unfolding Build_def by (rule build_loop_ok) (simp add: graph_ok_def)

lemma build_loop_edges:
  "s \<in> set (signers (build_loop revoked bs g) fp) \<longleftrightarrow>
     s \<in> set (signers g fp) \<or>
     (s \<notin> revoked \<and>
      (\<exists>b \<in> set bs. bFingerprint b = fp \<and> \<not> bRevoked b \<and> s \<in> seSigner ` set (bSigEntries b)))"
proof (induction bs arbitrary: g)
  case (Cons b bs)
  show ?case by (auto simp: Cons.IH Let_def add_signers_set)
qed simp

lemma Build_edges:
  "edge (Build blocks) s fp \<longleftrightarrow>
     (\<exists>b \<in> set blocks. bFingerprint b = fp \<and> \<not> bRevoked b \<and> s \<in> seSigner ` set (bSigEntries b)) \<and>
     s \<notin> revoked_fps blocks"
  by (auto simp: edge_def Build_def build_loop_edges)

lemma add_signers_keys: "fp \<in> fst ` set g \<Longrightarrow> fst ` set (add_signers revoked fp es g) = fst ` set g"
  by (induction es arbitrary: g) auto

lemma build_loop_keys:
  "fst ` set (build_loop revoked bs g) = fst ` set g \<union> bFingerprint ` set bs"
proof (induction bs arbitrary: g)
  case (Cons b bs)
  let ?g1 = "if mget g (bFingerprint b) = None then mset_key (bFingerprint b) [] g else g"
  have "fst ` set ?g1 = insert (bFingerprint b) (fst ` set g)"
    by (auto simp: mget_None_iff)
  moreover from this have "fst ` set (add_signers revoked (bFingerprint b) (bSigEntries b) ?g1) =
      insert (bFingerprint b) (fst ` set g)"
    by (subst add_signers_keys) auto
  ultimately show ?case by (simp add: Cons.IH Let_def)
qed simp

lemma Build_keys: "fst ` set (Build blocks) = bFingerprint ` set blocks"
  by (simp add: Build_def build_loop_keys)

section \<open>Paths of signatures\<close>

fun sig_path :: "Graph \<Rightarrow> string list \<Rightarrow> bool" where
  "sig_path g [] = True"
| "sig_path g [x] = True"
| "sig_path g (x # y # p) = (edge g y x \<and> sig_path g (y # p))"

definition trust_paths :: "Graph \<Rightarrow> string \<Rightarrow> string \<Rightarrow> int \<Rightarrow> string list set" where
  "trust_paths g target root maxDepth =
     {p. p \<noteq> [] \<and> hd p = target \<and> last p = root \<and> distinct p \<and> sig_path g p \<and>
         int (length p) \<le> maxDepth + 1}"

text \<open>The number of ways to extend a path that ends in \<open>x\<close> and has visited \<open>P\<close>.\<close>

fun extensions :: "Graph \<Rightarrow> string \<Rightarrow> nat \<Rightarrow> string \<Rightarrow> string set \<Rightarrow> nat" where
  "extensions g root 0 x P = 0"
| "extensions g root (Suc n) x P =
     (\<Sum>s \<leftarrow> signers g x. if s \<in> P then 0 else if s = root then 1
        else extensions g root n s (insert s P))"

definition ext_paths :: "Graph \<Rightarrow> string \<Rightarrow> nat \<Rightarrow> string \<Rightarrow> string set \<Rightarrow> string list set" where
  "ext_paths g root n x P =
     {p. p \<noteq> [] \<and> last p = root \<and> distinct p \<and> set p \<inter> P = {} \<and> sig_path g (x # p) \<and> length p \<le> n}"

lemma extensions_depth:
  "(\<Sum>s \<leftarrow> ss. if s \<in> P then 0 else if s = root then 1 else f s) =
     length (filter (\<lambda>s. s \<notin> P \<and> s = root) ss) +
     (\<Sum>s \<leftarrow> filter (\<lambda>s. s \<notin> P \<and> s \<noteq> root) ss. f s)"
  by (induction ss) auto

lemma count_loop_extensions:
  "count_loop g root md cnt queue =
     cnt + int (\<Sum>c \<leftarrow> queue. extensions g root (nat (md - st_depth c)) (st_fp c) (st_path c))"
proof (induction g root md cnt queue rule: count_loop.induct)
  case (1 g root md cnt)
  show ?case by simp
next
  case (2 g root md cnt cur queue)
  show ?case
  proof (cases "st_depth cur \<ge> md")
    case True
    with 2(1) show ?thesis by simp
  next
    case False
    then have "nat (md - st_depth cur) = Suc (nat (md - (st_depth cur + 1)))" by linarith
    moreover note 2(2) [OF False visit_signers_eq [symmetric, where ss = "signers g (st_fp cur)"]]
    ultimately show ?thesis
      using False by (simp add: visit_signers_eq extensions_depth o_def)
  qed
qed

lemma ext_paths_0 [simp]: "ext_paths g root 0 x P = {}"
  by (auto simp: ext_paths_def)

lemma ext_paths_Suc:
  "ext_paths g root (Suc n) x P =
     (\<Union>s \<in> set (signers g x) - P.
        if s = root then {[root]} else (#) s ` ext_paths g root n s (insert s P))"
  (is "_ = ?R")
proof (intro set_eqI iffI)
  fix p assume p: "p \<in> ext_paths g root (Suc n) x P"
  then obtain s p' where s: "p = s # p'" by (auto simp: ext_paths_def neq_Nil_conv)
  show "p \<in> ?R"
  proof (cases "p' = []")
    case True
    then show ?thesis using p s by (auto simp: ext_paths_def edge_def)
  next
    case False
    have "s \<noteq> root" using p s False by (auto simp: ext_paths_def)
    moreover have "p' \<in> ext_paths g root n s (insert s P)"
      using p s False by (auto simp: ext_paths_def)
    moreover have "s \<in> set (signers g x) - P" using p s by (auto simp: ext_paths_def edge_def)
    ultimately show ?thesis using s by (auto intro!: bexI [of _ s])
  qed
next
  fix p assume "p \<in> ?R"
  then obtain s where s: "s \<in> set (signers g x)" "s \<notin> P"
    and p: "p \<in> (if s = root then {[root]} else (#) s ` ext_paths g root n s (insert s P))" by auto
  then show "p \<in> ext_paths g root (Suc n) x P"
    by (auto simp: ext_paths_def edge_def split: if_splits)
qed

lemma finite_ext_paths [simp]: "finite (ext_paths g root n x P)"
  by (induction n arbitrary: x P) (auto simp: ext_paths_Suc)

lemma extensions_card:
  assumes "graph_ok g"
  shows "extensions g root n x P = card (ext_paths g root n x P)"
proof (induction n arbitrary: x P)
  case (Suc n)
  let ?F = "\<lambda>s. if s = root then {[root]} else (#) s ` ext_paths g root n s (insert s P)"
  have d: "distinct (signers g x)" using assms by (simp add: graph_ok_def)
  have "extensions g root (Suc n) x P = (\<Sum>s \<leftarrow> signers g x. if s \<in> P then 0 else card (?F s))"
    by (auto simp: Suc.IH card_image intro!: arg_cong [where f = sum_list])
  also have "\<dots> = (\<Sum>s \<in> set (signers g x). if s \<in> P then 0 else card (?F s))"
    using d by (rule sum_list_distinct_conv_sum_set)
  also have "\<dots> = (\<Sum>s \<in> set (signers g x) - P. card (?F s))"
    by (simp add: sum.If_cases Diff_eq)
  also have "\<dots> = card (\<Union>s \<in> set (signers g x) - P. ?F s)"
    by (rule card_UN_disjoint [symmetric]) (auto split: if_splits)
  finally show ?case by (simp only: ext_paths_Suc)
qed simp

lemma trust_paths_ext:
  assumes "root \<noteq> target"
  shows "trust_paths g target root md = (#) target ` ext_paths g root (nat md) target {target}"
proof (intro set_eqI iffI)
  fix p assume p: "p \<in> trust_paths g target root md"
  then obtain p' where p': "p = target # p'" by (auto simp: trust_paths_def neq_Nil_conv)
  with p assms have "p' \<in> ext_paths g root (nat md) target {target}"
    by (auto simp: trust_paths_def ext_paths_def split: if_splits)
  with p' show "p \<in> (#) target ` ext_paths g root (nat md) target {target}" by simp
next
  fix p assume "p \<in> (#) target ` ext_paths g root (nat md) target {target}"
  then obtain p' where "p = target # p'" "p' \<noteq> []" "last p' = root" "distinct p'" "target \<notin> set p'"
    "sig_path g (target # p')" "length p' \<le> nat md" by (auto simp: ext_paths_def)
  moreover from this have "0 < nat md" by (metis length_greater_0_conv less_le_trans)
  ultimately show "p \<in> trust_paths g target root md" by (simp add: trust_paths_def)
qed

text \<open>The score is the number of chains of signatures.\<close>

lemma Score_card:
  assumes "graph_ok g" and "root \<noteq> target"
  shows "Score g target root md = int (card (trust_paths g target root md))"
proof -
  have "Score g target root md = int (extensions g root (nat md) target {target})"
    using assms(2) by (simp add: Score_def countPaths_def count_loop_extensions)
  also have "\<dots> = int (card (ext_paths g root (nat md) target {target}))"
    by (simp add: extensions_card [OF assms(1)])
  also have "\<dots> = int (card (trust_paths g target root md))"
    by (simp add: trust_paths_ext [OF assms(2)] card_image)
  finally show ?thesis .
qed

lemma finite_trust_paths: "root \<noteq> target \<Longrightarrow> finite (trust_paths g target root md)"
  by (simp add: trust_paths_ext)

section \<open>Consequences\<close>

lemma sig_path_split: "sig_path g (xs @ y # ys) \<longleftrightarrow> sig_path g (xs @ [y]) \<and> sig_path g (y # ys)"
proof (induction xs)
  case (Cons x xs)
  then show ?case by (cases xs) auto
qed (cases ys; simp)

lemma sig_path_tail_signs: "sig_path g (x # p) \<Longrightarrow> y \<in> set p \<Longrightarrow> \<exists>z. edge g y z"
proof (induction p arbitrary: x)
  case (Cons a p)
  then show ?case by auto
qed simp

lemma sig_path_shorten:
  assumes "sig_path g p" and "p \<noteq> []"
  shows "\<exists>q. sig_path g q \<and> q \<noteq> [] \<and> hd q = hd p \<and> last q = last p \<and> distinct q \<and>
    set q \<subseteq> set p \<and> length q \<le> length p"
  using assms
proof (induction "length p" arbitrary: p rule: less_induct)
  case less
  show ?case
  proof (cases "distinct p")
    case True
    with less.prems show ?thesis by blast
  next
    case False
    then obtain a x b c where p: "p = a @ [x] @ b @ [x] @ c" using not_distinct_decomp by blast
    let ?q = "a @ x # c"
    have "sig_path g (a @ [x])" "sig_path g (x # c)"
      using less.prems(1) sig_path_split [of g a x "b @ x # c"] sig_path_split [of g "x # b" x c]
      by (auto simp: p)
    then have "sig_path g ?q" by (simp add: sig_path_split [of g a x c])
    moreover have "hd ?q = hd p" "last ?q = last p" "set ?q \<subseteq> set p" "length ?q < length p"
      by (auto simp: p hd_append)
    ultimately show ?thesis
      using less.hyps [of ?q] by (metis append_is_Nil_conv dual_order.trans less_imp_le list.distinct(1))
  qed
qed

lemma trust_paths_mono: "md \<le> md' \<Longrightarrow> trust_paths g target root md \<subseteq> trust_paths g target root md'"
  by (auto simp: trust_paths_def)

lemma trust_paths_edges:
  assumes "\<And>s fp. edge g s fp = edge g' s fp"
  shows "trust_paths g target root md = trust_paths g' target root md"
proof -
  have "sig_path g p = sig_path g' p" for p
    by (induction p rule: induct_list012) (simp_all add: assms)
  then show ?thesis by (simp add: trust_paths_def)
qed

lemma trust_path_ends:
  assumes "p \<in> trust_paths g target root md" and "root \<noteq> target"
  obtains x xs y where "p = target # xs @ [root]" "edge g x target" "x \<in> set (xs @ [root])"
    "edge g root y" "y \<in> set (target # xs)"
proof -
  from assms obtain p' where p: "p = target # p'" "p' \<noteq> []" "last p' = root" "sig_path g (target # p')"
    by (auto simp: trust_paths_def neq_Nil_conv split: if_splits)
  then obtain xs where xs: "p' = xs @ [root]" by (metis append_butlast_last_id)
  have first: "\<exists>x. edge g x target \<and> x \<in> set (xs @ [root])"
    using p(4) unfolding xs by (cases xs) auto
  have "\<exists>y. edge g root y \<and> y \<in> set (target # xs)"
  proof (cases xs rule: rev_cases)
    case Nil
    then show ?thesis using p(4) xs by auto
  next
    case (snoc zs z)
    then have "sig_path g ((target # zs) @ z # [root])" using p(4) xs by simp
    then show ?thesis using sig_path_split [of g "target # zs" z "[root]"] snoc by auto
  qed
  with first show thesis using that p(1) xs by blast
qed

text \<open>Every signer on a chain is an unrevoked signer, and the target has an unrevoked block.\<close>

lemma trust_path_unrevoked:
  assumes "p \<in> trust_paths (Build blocks) target root md" and "root \<noteq> target"
  shows "\<forall>x \<in> set (tl p). x \<notin> revoked_fps blocks"
    and "\<exists>b \<in> set blocks. bFingerprint b = target \<and> \<not> bRevoked b"
proof -
  from assms have "sig_path (Build blocks) p" by (simp add: trust_paths_def)
  then show "\<forall>x \<in> set (tl p). x \<notin> revoked_fps blocks"
    by (cases p) (auto dest: sig_path_tail_signs simp: Build_edges)
  from assms obtain x where "edge (Build blocks) x target" by (rule trust_path_ends)
  then show "\<exists>b \<in> set blocks. bFingerprint b = target \<and> \<not> bRevoked b"
    by (auto simp: Build_edges)
qed

lemma Score_nonneg: "graph_ok g \<Longrightarrow> 0 \<le> Score g target root md"
  by (cases "root = target") (simp_all add: Score_card, simp add: Score_def)

lemma Score_pos_iff:
  assumes "graph_ok g" and "root \<noteq> target"
  shows "1 \<le> Score g target root md \<longleftrightarrow>
    (\<exists>p. p \<noteq> [] \<and> hd p = target \<and> last p = root \<and> sig_path g p \<and> int (length p) \<le> md + 1)"
proof -
  have "1 \<le> Score g target root md \<longleftrightarrow> trust_paths g target root md \<noteq> {}"
    using finite_trust_paths [OF assms(2), of g md] card_gt_0_iff [of "trust_paths g target root md"]
    by (simp add: Score_card [OF assms]) linarith
  also have "\<dots> \<longleftrightarrow> (\<exists>p. p \<noteq> [] \<and> hd p = target \<and> last p = root \<and> sig_path g p \<and> int (length p) \<le> md + 1)"
  proof
    assume "\<exists>p. p \<noteq> [] \<and> hd p = target \<and> last p = root \<and> sig_path g p \<and> int (length p) \<le> md + 1"
    then obtain p where p: "p \<noteq> []" "hd p = target" "last p = root" "sig_path g p"
      "int (length p) \<le> md + 1" by blast
    with sig_path_shorten [OF p(4,1)] obtain q where "sig_path g q" "q \<noteq> []" "hd q = hd p"
      "last q = last p" "distinct q" "length q \<le> length p" by blast
    with p have "q \<in> trust_paths g target root md" by (simp add: trust_paths_def)
    then show "trust_paths g target root md \<noteq> {}" by blast
  qed (auto simp: trust_paths_def)
  finally show ?thesis .
qed

text \<open>Which keys \<open>TrustedSet\<close> returns.\<close>

lemma TrustedSet_iff:
  "fp \<in> set (TrustedSet (Build blocks) rootFP md t) \<longleftrightarrow>
     fp \<in> bFingerprint ` set blocks \<and> fp \<noteq> rootFP \<and> Score (Build blocks) fp rootFP md \<ge> t"
  unfolding TrustedSet_def IsTrusted_def Build_keys [symmetric] by auto

section \<open>Properties\<close>

text \<open>
  C4.  \<open>Score\<close> counts the distinct trust paths: for a root other than the target, it is the
  number of duplicate-free chains of signatures that lead from the target back to the root
  in at most \<open>maxDepth\<close> steps.  It holds of every graph \<open>Build\<close> returns, whatever order its
  maps are visited in.
\<close>

theorem Score_counts_paths:
  assumes "rootFP \<noteq> targetFP"
  shows "Score (Build blocks) targetFP rootFP maxDepth =
    int (card {p. p \<noteq> [] \<and> hd p = targetFP \<and> last p = rootFP \<and> distinct p \<and>
      sig_path (Build blocks) p \<and> int (length p) \<le> maxDepth + 1})"
  using Score_card [OF graph_ok_Build assms] by (simp only: trust_paths_def)

text \<open>A small ledger: A signed B and C, both of them signed D, and E, revoked, signed D too.\<close>

definition sample_entry :: "string \<Rightarrow> SigEntry" where
  "sample_entry fp = \<lparr>seHash = ''h'' @ fp, sePrevHash = [], seSigner = fp, seSig = [],
     seTimestamp = 0, seSignerKey = [], seSourceNode = []\<rparr>"

definition sample_block :: "string \<Rightarrow> string list \<Rightarrow> bool \<Rightarrow> Block" where
  "sample_block fp ss r = \<lparr>bHash = ''b'' @ fp, bFingerprint = fp, bArmoredKey = [], bUIDs = [],
     bSubmitTimestamp = 0, bSelfSig = [], bSigChainHead = [], bSigEntries = map sample_entry ss,
     bRevoked = r, bRevocationSig = []\<rparr>"

definition sample_ledger :: "Block list" where
  "sample_ledger = [sample_block ''A'' [] False, sample_block ''B'' [''A''] False,
     sample_block ''C'' [''A''] False, sample_block ''D'' [''B'', ''C'', ''E''] False,
     sample_block ''E'' [''A''] True]"

lemma Build_sample: "Build sample_ledger =
    [(''A'', []), (''B'', [''A'']), (''C'', [''A'']), (''D'', [''B'', ''C'']), (''E'', [])]"
  by code_simp

lemma Score_sample: "Score (Build sample_ledger) ''D'' ''A'' 2 = 2"
  by (simp add: Build_sample Score_def countPaths_def signers_def mget_def)

theorem Score_counts_paths_witness:
  "int (card {p. p \<noteq> [] \<and> hd p = ''D'' \<and> last p = ''A'' \<and> distinct p \<and>
      sig_path (Build sample_ledger) p \<and> int (length p) \<le> 2 + 1}) = 2"
  using Score_counts_paths [of "''A''" "''D''" sample_ledger 2] Score_sample by simp

text \<open>
  The graph holds an edge from a signer to a key exactly when an unrevoked block of
  that key carries an entry of that signer and the signer's own block is not revoked; its
  nodes are the fingerprints of the blocks, and no signer is listed twice.
\<close>

lemma Build_graph:
  "fst ` set (Build blocks) = bFingerprint ` set blocks \<and>
   (s \<in> set (signers (Build blocks) fp) \<longleftrightarrow>
     (\<exists>b \<in> set blocks. bFingerprint b = fp \<and> \<not> bRevoked b \<and> (\<exists>e \<in> set (bSigEntries b). seSigner e = s)) \<and>
     \<not> (\<exists>b \<in> set blocks. bFingerprint b = s \<and> bRevoked b)) \<and>
   distinct (signers (Build blocks) fp)"
proof (intro conjI)
  have "s \<in> revoked_fps blocks \<longleftrightarrow> (\<exists>b \<in> set blocks. bFingerprint b = s \<and> bRevoked b)"
    by (auto simp: revoked_fps_def)
  with Build_edges [of blocks s fp]
  show "s \<in> set (signers (Build blocks) fp) \<longleftrightarrow>
     (\<exists>b \<in> set blocks. bFingerprint b = fp \<and> \<not> bRevoked b \<and> (\<exists>e \<in> set (bSigEntries b). seSigner e = s)) \<and>
     \<not> (\<exists>b \<in> set blocks. bFingerprint b = s \<and> bRevoked b)"
    by (auto simp: edge_def)
qed (use graph_ok_Build [of blocks] in \<open>simp_all add: Build_keys graph_ok_def\<close>)

text \<open>
  C37.  Revocation cuts trust: a key whose blocks are all revoked scores 0 from every other
  root, and with a revoked root nothing but the root itself scores anything.
\<close>

theorem revoked_keys_score_zero:
  assumes "rootFP \<noteq> targetFP"
    and "(\<forall>b \<in> set blocks. bFingerprint b = targetFP \<longrightarrow> bRevoked b) \<or>
         (\<exists>b \<in> set blocks. bFingerprint b = rootFP \<and> bRevoked b)"
  shows "Score (Build blocks) targetFP rootFP maxDepth = 0"
proof -
  have False if p: "p \<in> trust_paths (Build blocks) targetFP rootFP maxDepth" for p
  proof -
    from p assms(1) obtain xs where "p = targetFP # xs @ [rootFP]" by (rule trust_path_ends)
    then have "rootFP \<in> set (tl p)" by simp
    with trust_path_unrevoked [OF p assms(1)] assms(2) show False
      by (auto simp: revoked_fps_def)
  qed
  then have "trust_paths (Build blocks) targetFP rootFP maxDepth = {}" by blast
  then show ?thesis by (simp add: Score_card [OF graph_ok_Build assms(1)])
qed

theorem revoked_keys_score_zero_witness:
  "Score (Build sample_ledger) ''E'' ''A'' 5 = 0 \<and> Score (Build sample_ledger) ''D'' ''E'' 5 = 0"
  using revoked_keys_score_zero [of "''A''" "''E''" sample_ledger 5]
    revoked_keys_score_zero [of "''E''" "''D''" sample_ledger 5]
  by (simp add: sample_ledger_def sample_block_def)

text \<open>
  C38.  A key is trusted at threshold 1 exactly when some chain of at most \<open>maxDepth\<close>
  signatures leads from the root to it; a deeper search never lowers a score.
\<close>

theorem IsTrusted_one_iff_reachable:
  assumes "rootFP \<noteq> targetFP"
  shows "(IsTrusted (Build blocks) targetFP rootFP maxDepth 1 \<longleftrightarrow>
      (\<exists>p. p \<noteq> [] \<and> hd p = targetFP \<and> last p = rootFP \<and> sig_path (Build blocks) p \<and>
         int (length p) \<le> maxDepth + 1)) \<and>
    (maxDepth \<le> maxDepth' \<longrightarrow>
      Score (Build blocks) targetFP rootFP maxDepth \<le> Score (Build blocks) targetFP rootFP maxDepth')"
proof (intro conjI impI)
  show "IsTrusted (Build blocks) targetFP rootFP maxDepth 1 \<longleftrightarrow>
      (\<exists>p. p \<noteq> [] \<and> hd p = targetFP \<and> last p = rootFP \<and> sig_path (Build blocks) p \<and>
         int (length p) \<le> maxDepth + 1)"
    unfolding IsTrusted_def by (rule Score_pos_iff [OF graph_ok_Build assms])
  assume "maxDepth \<le> maxDepth'"
  then show "Score (Build blocks) targetFP rootFP maxDepth \<le> Score (Build blocks) targetFP rootFP maxDepth'"
    by (simp add: Score_card [OF graph_ok_Build assms] card_mono finite_trust_paths [OF assms] trust_paths_mono)
qed

theorem IsTrusted_one_iff_reachable_witness:
  "IsTrusted (Build sample_ledger) ''D'' ''A'' 2 1 \<and>
   Score (Build sample_ledger) ''D'' ''A'' 2 \<le> Score (Build sample_ledger) ''D'' ''A'' 3"
proof -
  have "sig_path (Build sample_ledger) [''D'', ''B'', ''A'']"
    by (simp add: Build_sample edge_def signers_def mget_def)
  then have "\<exists>p. p \<noteq> [] \<and> hd p = ''D'' \<and> last p = ''A'' \<and>
      sig_path (Build sample_ledger) p \<and> int (length p) \<le> 2 + 1"
    by (intro exI [of _ "[''D'', ''B'', ''A'']"]) simp
  with IsTrusted_one_iff_reachable [of "''A''" "''D''" sample_ledger 2 3] show ?thesis by simp
qed

text \<open>
  Scores do not depend on the order in which Go visits its maps: two lists with the
  same blocks, in any order, give every key the same score.
\<close>

lemma Score_order_independent:
  assumes "set blocks = set blocks'"
  shows "Score (Build blocks) targetFP rootFP maxDepth = Score (Build blocks') targetFP rootFP maxDepth"
proof (cases "rootFP = targetFP")
  case False
  have "edge (Build blocks) s fp = edge (Build blocks') s fp" for s fp
    using assms by (simp add: Build_edges revoked_fps_def)
  from trust_paths_edges [OF this] show ?thesis by (simp add: Score_card [OF graph_ok_Build False])
qed (simp add: Score_def)

lemma Score_order_independent_witness:
  "Score (Build (rev sample_ledger)) ''D'' ''A'' 2 = Score (Build sample_ledger) ''D'' ''A'' 2"
  by (rule Score_order_independent) simp

text \<open>
  \<open>TrustedSet\<close> returns exactly the keys of the ledger, other than the root, whose
  score reaches the threshold, each once; and at a positive threshold it returns nothing
  when the root has signed no key.
\<close>

lemma TrustedSet_sound_complete:
  "(fp \<in> set (TrustedSet (Build blocks) rootFP maxDepth threshold) \<longleftrightarrow>
     fp \<in> bFingerprint ` set blocks \<and> fp \<noteq> rootFP \<and>
     Score (Build blocks) fp rootFP maxDepth \<ge> threshold) \<and>
   distinct (TrustedSet (Build blocks) rootFP maxDepth threshold) \<and>
   (threshold \<ge> 1 \<longrightarrow> (\<forall>b \<in> set blocks. rootFP \<notin> seSigner ` set (bSigEntries b)) \<longrightarrow>
     TrustedSet (Build blocks) rootFP maxDepth threshold = [])"
proof (intro conjI impI)
  show "fp \<in> set (TrustedSet (Build blocks) rootFP maxDepth threshold) \<longleftrightarrow>
     fp \<in> bFingerprint ` set blocks \<and> fp \<noteq> rootFP \<and>
     Score (Build blocks) fp rootFP maxDepth \<ge> threshold"
    by (rule TrustedSet_iff)
  show "distinct (TrustedSet (Build blocks) rootFP maxDepth threshold)"
    using graph_ok_Build [of blocks]
    by (auto simp: TrustedSet_def graph_ok_def is_gomap_def intro: distinct_filter)
  assume t: "threshold \<ge> 1" and none: "\<forall>b \<in> set blocks. rootFP \<notin> seSigner ` set (bSigEntries b)"
  have "x \<notin> set (TrustedSet (Build blocks) rootFP maxDepth threshold)" for x
  proof
    assume "x \<in> set (TrustedSet (Build blocks) rootFP maxDepth threshold)"
    then have x: "rootFP \<noteq> x" "1 \<le> Score (Build blocks) x rootFP maxDepth"
      using t by (auto simp: TrustedSet_iff)
    then have "trust_paths (Build blocks) x rootFP maxDepth \<noteq> {}"
      by (auto simp: Score_card [OF graph_ok_Build x(1)])
    then obtain p where "p \<in> trust_paths (Build blocks) x rootFP maxDepth" by blast
    then obtain xs where "\<exists>y. edge (Build blocks) rootFP y" using x(1) by (rule trust_path_ends) blast
    with none show False by (auto simp: Build_edges)
  qed
  then show "TrustedSet (Build blocks) rootFP maxDepth threshold = []"
    by (metis list.set_intros(1) neq_Nil_conv)
qed

lemma TrustedSet_sound_complete_witness:
  "''D'' \<in> set (TrustedSet (Build sample_ledger) ''A'' 2 2) \<and>
   TrustedSet (Build sample_ledger) ''D'' 2 2 = []"
  using TrustedSet_sound_complete [of "''D''" sample_ledger "''A''" 2 2] Score_sample
    TrustedSet_sound_complete [of "''D''" sample_ledger "''D''" 2 2]
  by (simp add: sample_ledger_def sample_block_def sample_entry_def)

end
