(* ===== verification/Distances.thy ===== *)
theory Distances
  imports Trust
begin

text \<open>
  The first half of \<open>disjointMaxFlow\<close> (\<open>internal/trust/trust.go\<close>): turning the graph round and
  the two breadth-first searches, and that they find the lengths of shortest walks.  The order
  in which the code ranges over the graph is the order of the list here; the lemmas hold for
  every list.
\<close>

section \<open>The code\<close>

fun add_signed :: "string \<Rightarrow> string list \<Rightarrow> Graph \<Rightarrow> Graph" where
  "add_signed fp [] m = m"
| "add_signed fp (signer # ss) m = add_signed fp ss (mset_key signer (signers m signer @ [fp]) m)"

text \<open>\<open>signed\<close> from the graph and \<open>rev2\<close> from \<open>signed\<close> are built by the same loop.\<close>

fun turn_round :: "Graph \<Rightarrow> Graph \<Rightarrow> Graph" where
  "turn_round [] m = m"
| "turn_round ((fp, ss) # g) m = turn_round g (add_signed fp ss m)"

type_synonym distances = "(string, int) gomap"

definition dist_of :: "distances \<Rightarrow> string \<Rightarrow> int" where
  "dist_of dist fp = (case mget dist fp of None \<Rightarrow> 0 | Some d \<Rightarrow> d)"

fun visit_next :: "int \<Rightarrow> string list \<Rightarrow> distances \<times> string list \<Rightarrow> distances \<times> string list" where
  "visit_next d [] (dist, queue) = (dist, queue)"
| "visit_next d (t # ts) (dist, queue) =
     visit_next d ts
       (if mget dist t = None then (mset_key t (d + 1) dist, queue @ [t]) else (dist, queue))"

lemma visit_next_eq:
  assumes "visit_next d ts (dist, queue) = (dist', queue')"
  shows "\<exists>new. queue' = queue @ new \<and> distinct new \<and> set new = {t \<in> set ts. mget dist t = None} \<and>
    (\<forall>x. mget dist' x = (if mget dist x = None \<and> x \<in> set ts then Some (d + 1) else mget dist x)) \<and>
    (is_gomap dist \<longrightarrow> is_gomap dist')"
  using assms
proof (induction ts arbitrary: dist queue)
  case Nil
  then show ?case by auto
next
  case (Cons t ts)
  show ?case
  proof (cases "mget dist t = None")
    case True
    with Cons.prems have "visit_next d ts (mset_key t (d + 1) dist, queue @ [t]) = (dist', queue')" by simp
    from Cons.IH [OF this] obtain new where
      "queue' = (queue @ [t]) @ new" "distinct new"
      "set new = {x \<in> set ts. mget (mset_key t (d + 1) dist) x = None}"
      "\<forall>x. mget dist' x = (if mget (mset_key t (d + 1) dist) x = None \<and> x \<in> set ts then Some (d + 1)
         else mget (mset_key t (d + 1) dist) x)"
      "is_gomap (mset_key t (d + 1) dist) \<longrightarrow> is_gomap dist'" by blast
    then show ?thesis using True by (intro exI [of _ "t # new"]) auto
  next
    case False
    with Cons.prems have "visit_next d ts (dist, queue) = (dist', queue')" by simp
    from Cons.IH [OF this] False show ?thesis by auto
  qed
qed

text \<open>
  Both searches: forward with the bound \<open>maxDepth\<close>, backward without one.  (The loop that
  precedes the forward search in the code only empties its queue.)
\<close>

definition adj_nodes :: "Graph \<Rightarrow> string set" where
  "adj_nodes adj = \<Union> (set ` snd ` set adj)"

lemma signers_adj: "set (signers adj x) \<subseteq> adj_nodes adj"
  using mget_SomeD [of adj x] by (cases "mget adj x") (force simp: signers_def adj_nodes_def)+

function dist_bfs :: "Graph \<Rightarrow> int option \<Rightarrow> distances \<Rightarrow> string list \<Rightarrow> distances" where
  "dist_bfs adj bound dist [] = dist"
| "dist_bfs adj bound dist (fp # queue) =
     (let d = dist_of dist fp in
      if (case bound of None \<Rightarrow> False | Some maxDepth \<Rightarrow> d \<ge> maxDepth) then dist_bfs adj bound dist queue
      else (case visit_next d (signers adj fp) (dist, queue) of
        (dist', queue') \<Rightarrow> dist_bfs adj bound dist' queue'))"
  by pat_completeness auto
termination
proof (relation "measure (\<lambda>(adj, bound, dist, q). length q + card {x \<in> adj_nodes adj. mget dist x = None})",
    goal_cases)
  case (3 adj bound dist fp queue d dist' queue')
  from visit_next_eq [OF 3(3) [symmetric]] obtain new where
    new: "queue' = queue @ new" "distinct new" "set new = {t \<in> set (signers adj fp). mget dist t = None}"
    "\<And>x. mget dist' x = (if mget dist x = None \<and> x \<in> set (signers adj fp) then Some (d + 1) else mget dist x)"
    by blast
  have fin: "finite {x \<in> adj_nodes adj. mget dist x = None}" by (simp add: adj_nodes_def)
  have "{x \<in> adj_nodes adj. mget dist' x = None} = {x \<in> adj_nodes adj. mget dist x = None} - set new"
    using new(3,4) by auto
  moreover have sub: "set new \<subseteq> {x \<in> adj_nodes adj. mget dist x = None}" using new(3) signers_adj by blast
  ultimately have "card {x \<in> adj_nodes adj. mget dist' x = None} = card {x \<in> adj_nodes adj. mget dist x = None} - length new"
    using new(2) by (simp only: card_Diff_subset [OF finite_set] distinct_card)
  moreover have "length new \<le> card {x \<in> adj_nodes adj. mget dist x = None}"
    using card_mono [OF fin sub] new(2) by (simp only: distinct_card)
  ultimately show ?case by (simp add: new(1))
qed simp_all

section \<open>The searches find the distances\<close>

primrec steps :: "Graph \<Rightarrow> nat \<Rightarrow> string \<Rightarrow> string \<Rightarrow> bool" where
  "steps adj 0 s x \<longleftrightarrow> s = x"
| "steps adj (Suc n) s x \<longleftrightarrow> (\<exists>y. steps adj n s y \<and> x \<in> set (signers adj y))"

definition within :: "int option \<Rightarrow> int \<Rightarrow> bool" where
  "within bound d \<longleftrightarrow> (case bound of None \<Rightarrow> True | Some maxDepth \<Rightarrow> d \<le> maxDepth)"

lemma within_mono: "within bound d \<Longrightarrow> d' \<le> d \<Longrightarrow> within bound d'"
  by (auto simp: within_def split: option.splits)

text \<open>
  The invariant of a search from \<open>s\<close>: recorded distances are lengths of walks; the queue is
  sorted by distance, and no recorded distance exceeds that of its head by more than one;
  the successors of a key that left the queue are recorded, unless it is at the bound.
\<close>

definition bfs_inv :: "Graph \<Rightarrow> int option \<Rightarrow> string \<Rightarrow> distances \<Rightarrow> string list \<Rightarrow> bool" where
  "bfs_inv adj bound s dist q \<longleftrightarrow>
     mget dist s = Some 0 \<and>
     (\<forall>x d. mget dist x = Some d \<longrightarrow> (\<exists>n. d = int n \<and> steps adj n s x \<and> (n = 0 \<or> within bound d))) \<and>
     (\<forall>x \<in> set q. mget dist x \<noteq> None) \<and>
     sorted (map (dist_of dist) q) \<and>
     (q \<noteq> [] \<longrightarrow> (\<forall>x d. mget dist x = Some d \<longrightarrow> d \<le> dist_of dist (hd q) + 1)) \<and>
     (\<forall>x d. mget dist x = Some d \<longrightarrow> x \<notin> set q \<longrightarrow> within bound (d + 1) \<longrightarrow>
        (\<forall>y \<in> set (signers adj x). \<exists>d'. mget dist y = Some d' \<and> d' \<le> d + 1))"

lemma bfs_inv_skip:
  assumes "bfs_inv adj bound s dist (fp # q)" and "\<not> within bound (dist_of dist fp + 1)"
  shows "bfs_inv adj bound s dist q"
proof -
  have "d \<le> dist_of dist (hd q) + 1" if "q \<noteq> []" "mget dist x = Some d" for x d
  proof -
    have "dist_of dist fp \<le> dist_of dist (hd q)" using assms(1) that(1) by (cases q) (auto simp: bfs_inv_def)
    moreover have "d \<le> dist_of dist fp + 1" using assms(1) that(2) by (simp add: bfs_inv_def)
    ultimately show ?thesis by simp
  qed
  moreover have "\<forall>y \<in> set (signers adj x). \<exists>d'. mget dist y = Some d' \<and> d' \<le> d + 1"
    if "mget dist x = Some d" "x \<notin> set q" "within bound (d + 1)" for x d
  proof -
    have "x \<noteq> fp" using that assms(2) by (auto simp: dist_of_def)
    then show ?thesis using assms(1) that by (simp add: bfs_inv_def)
  qed
  ultimately show ?thesis using assms(1) by (simp add: bfs_inv_def)
qed

lemma bfs_inv_visit:
  assumes inv: "bfs_inv adj bound s dist (fp # q)" and lim: "within bound (dist_of dist fp + 1)"
    and "visit_next (dist_of dist fp) (signers adj fp) (dist, q) = (dist', q')"
  shows "bfs_inv adj bound s dist' q'"
proof -
  let ?d = "dist_of dist fp"
  from visit_next_eq [OF assms(3)] obtain new where
    new: "q' = q @ new" "set new = {t \<in> set (signers adj fp). mget dist t = None}"
    "\<And>x. mget dist' x = (if mget dist x = None \<and> x \<in> set (signers adj fp) then Some (?d + 1) else mget dist x)"
    by blast
  note i = inv [unfolded bfs_inv_def]
  have i1: "\<forall>x d. mget dist x = Some d \<longrightarrow> (\<exists>n. d = int n \<and> steps adj n s x \<and> (n = 0 \<or> within bound d))"
    using i by simp
  have fp: "mget dist fp = Some ?d" using i by (auto simp: dist_of_def split: option.splits)
  have top: "d \<le> ?d + 1" if "mget dist x = Some d" for x d using i that by simp
  have top': "d \<le> ?d + 1" if "mget dist' x = Some d" for x d
    using that top by (auto simp: new(3) split: if_splits)
  have old: "mget dist' x = mget dist x" if "mget dist x \<noteq> None" for x using that by (simp add: new(3))
  have qold: "\<forall>x \<in> set q. mget dist x \<noteq> None" using i by simp
  have dq: "map (dist_of dist') q = map (dist_of dist) q" using qold old by (simp add: dist_of_def)
  have dn: "\<forall>x \<in> set new. dist_of dist' x = ?d + 1" using new(2) by (simp add: dist_of_def new(3))
  have dnew: "map (dist_of dist') new = replicate (length new) (?d + 1)"
    using dn by (induction new) auto
  have "mget dist' s = Some 0" using i old by simp
  moreover have "\<exists>n. d = int n \<and> steps adj n s x \<and> (n = 0 \<or> within bound d)" if x: "mget dist' x = Some d" for x d
  proof (cases "mget dist x = None")
    case True
    with x have x': "x \<in> set (signers adj fp)" "d = ?d + 1"
      using new(3) [of x] by (metis option.distinct(1), metis option.inject option.distinct(1))
    from i1 fp obtain n where n: "?d = int n" "steps adj n s fp" by blast
    have "d = int (Suc n)" using n(1) x'(2) by simp
    moreover have "steps adj (Suc n) s x" unfolding steps.simps using n(2) x'(1) by blast
    moreover have "within bound d" using lim unfolding x'(2) .
    ultimately show ?thesis by metis
  qed (use i1 x old in auto)
  moreover have "\<forall>x \<in> set q'. mget dist' x \<noteq> None" using qold old new(2) by (auto simp: new(1,3))
  moreover have "sorted (map (dist_of dist') q')"
  proof -
    have "\<forall>x \<in> set q. dist_of dist x \<le> ?d + 1" using qold top by (auto simp: dist_of_def)
    then show ?thesis using i by (simp add: new(1) sorted_append dq dnew)
  qed
  moreover have "d \<le> dist_of dist' (hd q') + 1" if "q' \<noteq> []" "mget dist' x = Some d" for x d
  proof -
    have "?d \<le> dist_of dist' (hd q')"
    proof (cases q)
      case Nil
      then have "hd q' \<in> set new" using that(1) new(1) by simp
      then show ?thesis using dn by simp
    next
      case (Cons y ys)
      then have "dist_of dist' y = dist_of dist y" using dq by simp
      then show ?thesis using i Cons new(1) by simp
    qed
    then show ?thesis using top' [OF that(2)] by simp
  qed
  moreover have "\<forall>y \<in> set (signers adj x). \<exists>d'. mget dist' y = Some d' \<and> d' \<le> d + 1"
    if x: "mget dist' x = Some d" "x \<notin> set q'" "within bound (d + 1)" for x d
  proof (cases "x = fp")
    case True
    then have "d = ?d" using x(1) fp old by simp
    then show ?thesis using True top by (auto simp: new(3) split: option.splits)
  next
    case False
    then have x': "mget dist x = Some d" "x \<notin> set (fp # q)"
      using x(1,2) new(2) by (auto simp: new(1,3) split: if_splits)
    then have "\<forall>y \<in> set (signers adj x). \<exists>d'. mget dist y = Some d' \<and> d' \<le> d + 1" using i x(3) by blast
    then show ?thesis using old by fastforce
  qed
  ultimately show ?thesis unfolding bfs_inv_def by blast
qed

lemma dist_bfs_inv:
  "bfs_inv adj bound s dist q \<Longrightarrow> bfs_inv adj bound s (dist_bfs adj bound dist q) []"
proof (induction adj bound dist q rule: dist_bfs.induct)
  case (2 adj bound dist fp queue)
  show ?case
  proof (cases "within bound (dist_of dist fp + 1)")
    case True
    then have c: "\<not> (case bound of None \<Rightarrow> False | Some maxDepth \<Rightarrow> dist_of dist fp \<ge> maxDepth)"
      by (auto simp: within_def split: option.splits)
    obtain dist' q' where v: "visit_next (dist_of dist fp) (signers adj fp) (dist, queue) = (dist', q')" by fastforce
    from 2(2) [OF refl c v [symmetric] bfs_inv_visit [OF 2(3) True v]] c v
    show ?thesis by (simp add: Let_def)
  next
    case False
    then have c: "(case bound of None \<Rightarrow> False | Some maxDepth \<Rightarrow> dist_of dist fp \<ge> maxDepth)"
      by (auto simp: within_def split: option.splits)
    from 2(1) [OF refl c bfs_inv_skip [OF 2(3) False]] c show ?thesis by (simp add: Let_def)
  qed
qed simp

lemma dist_bfs_gomap: "is_gomap dist \<Longrightarrow> is_gomap (dist_bfs adj bound dist q)"
proof (induction adj bound dist q rule: dist_bfs.induct)
  case (2 adj bound dist fp queue)
  obtain dist' q' where v: "visit_next (dist_of dist fp) (signers adj fp) (dist, queue) = (dist', q')" by fastforce
  moreover from visit_next_eq [OF v] 2(3) have "is_gomap dist'" by blast
  ultimately show ?case using 2 by (simp add: Let_def)
qed simp

text \<open>What a search returns: the distances of the keys within the bound.\<close>

definition distances_from :: "Graph \<Rightarrow> int option \<Rightarrow> string \<Rightarrow> distances \<Rightarrow> bool" where
  "distances_from adj bound s dist \<longleftrightarrow> is_gomap dist \<and>
     (\<forall>x d. mget dist x = Some d \<longrightarrow> (\<exists>n. d = int n \<and> steps adj n s x)) \<and>
     (\<forall>n x. steps adj n s x \<longrightarrow> within bound (int n) \<longrightarrow> (\<exists>d. mget dist x = Some d \<and> d \<le> int n))"

lemma dist_bfs_distances: "distances_from adj bound s (dist_bfs adj bound [(s, 0)] [s])"
proof -
  define D where "D = dist_bfs adj bound [(s, 0)] [s]"
  have "bfs_inv adj bound s [(s, 0)] [s]" by (auto simp: bfs_inv_def mget_def dist_of_def)
  then have inv: "bfs_inv adj bound s D []" unfolding D_def by (rule dist_bfs_inv)
  have "\<exists>d. mget D x = Some d \<and> d \<le> int n" if "steps adj n s x" "within bound (int n)" for n x
    using that
  proof (induction n arbitrary: x)
    case 0
    then show ?case using inv by (auto simp: bfs_inv_def)
  next
    case (Suc n)
    then obtain y where y: "steps adj n s y" "x \<in> set (signers adj y)" by auto
    from Suc.IH [OF y(1)] within_mono [OF Suc.prems(2)] obtain d where d: "mget D y = Some d" "d \<le> int n" by auto
    have "within bound (d + 1)" by (rule within_mono [OF Suc.prems(2)]) (use d(2) in simp)
    moreover have "\<forall>x d. mget D x = Some d \<longrightarrow> within bound (d + 1) \<longrightarrow>
        (\<forall>y \<in> set (signers adj x). \<exists>d'. mget D y = Some d' \<and> d' \<le> d + 1)" using inv by (simp add: bfs_inv_def)
    ultimately obtain d' where "mget D x = Some d'" "d' \<le> d + 1" using d(1) y(2) by blast
    then show ?case using d(2) by auto
  qed
  moreover have "is_gomap D" unfolding D_def by (rule dist_bfs_gomap) (simp add: is_gomap_def)
  moreover have "\<forall>x d. mget D x = Some d \<longrightarrow> (\<exists>n. d = int n \<and> steps adj n s x)"
    using inv unfolding bfs_inv_def by blast
  ultimately show ?thesis unfolding D_def [symmetric] distances_from_def by blast
qed

section \<open>Walks in the graph\<close>

lemma signers_add_signed:
  "distinct ss \<Longrightarrow> signers (add_signed fp ss m) x = signers m x @ (if x \<in> set ss then [fp] else [])"
  by (induction ss arbitrary: m) auto

lemma gomap_add_signed: "is_gomap m \<Longrightarrow> is_gomap (add_signed fp ss m)"
  by (induction ss arbitrary: m) auto

lemma turn_round_signers:
  "\<forall>(fp, ss) \<in> set g. distinct ss \<Longrightarrow>
     signers (turn_round g m) x = signers m x @ map fst (filter (\<lambda>(fp, ss). x \<in> set ss) g)"
  by (induction g m rule: turn_round.induct) (auto simp: signers_add_signed)

lemma gomap_turn_round: "is_gomap m \<Longrightarrow> is_gomap (turn_round g m)"
  by (induction g m rule: turn_round.induct) (auto simp: gomap_add_signed)

lemma graph_ok_rows: "graph_ok g \<Longrightarrow> (fp, ss) \<in> set g \<Longrightarrow> signers g fp = ss \<and> distinct ss"
  using mget_Some_iff [of g fp ss] unfolding graph_ok_def signers_def by (metis option.simps(5))

lemma turn_round_edges:
  assumes "graph_ok g"
  shows "graph_ok (turn_round g [])" "edge (turn_round g []) y x = edge g x y"
proof -
  have eq: "signers (turn_round g []) x = map fst (filter (\<lambda>(fp, ss). x \<in> set ss) g)" for x
    by (subst turn_round_signers) (use graph_ok_rows [OF assms] in auto)
  have "distinct (map fst g)" using assms by (simp add: graph_ok_def is_gomap_def)
  then show "graph_ok (turn_round g [])"
    by (simp add: graph_ok_def gomap_turn_round eq distinct_map_filter)
  have "y \<in> set (signers (turn_round g []) x) \<longleftrightarrow> (\<exists>ss. (y, ss) \<in> set g \<and> x \<in> set ss)" by (force simp: eq)
  also have "\<dots> \<longleftrightarrow> x \<in> set (signers g y)"
  proof
    assume "\<exists>ss. (y, ss) \<in> set g \<and> x \<in> set ss"
    then show "x \<in> set (signers g y)" using graph_ok_rows [OF assms] by metis
  next
    assume "x \<in> set (signers g y)"
    then show "\<exists>ss. (y, ss) \<in> set g \<and> x \<in> set ss"
      using mget_SomeD [of g y] by (cases "mget g y") (auto simp: signers_def)
  qed
  finally show "edge (turn_round g []) y x = edge g x y" by (simp add: edge_def)
qed

primrec sig_walk :: "Graph \<Rightarrow> nat \<Rightarrow> string \<Rightarrow> string \<Rightarrow> bool" where
  "sig_walk g 0 x y \<longleftrightarrow> x = y"
| "sig_walk g (Suc n) x y \<longleftrightarrow> (\<exists>z. edge g x z \<and> sig_walk g n z y)"

lemma sig_walk_snoc: "sig_walk g (Suc n) x y \<longleftrightarrow> (\<exists>z. sig_walk g n x z \<and> edge g z y)"
  by (induction n arbitrary: x) auto

lemma sig_walk_append: "sig_walk g m x y \<Longrightarrow> sig_walk g n y z \<Longrightarrow> sig_walk g (m + n) x z"
  by (induction m arbitrary: x) auto

lemma steps_signed: "graph_ok g \<Longrightarrow> steps (turn_round g []) n x y \<longleftrightarrow> sig_walk g n x y"
  using turn_round_edges(2) [of g]
  by (induction n arbitrary: y) (simp_all only: steps.simps sig_walk_snoc edge_def sig_walk.simps(1))

lemma steps_rev2: "graph_ok g \<Longrightarrow> steps (turn_round (turn_round g []) []) n y x \<longleftrightarrow> sig_walk g n x y"
  using turn_round_edges [of g] turn_round_edges(2) [of "turn_round g []"]
  by (induction n arbitrary: x) (auto simp: edge_def)

end
