(* ===== verification/Flow.thy ===== *)
theory Flow
  imports Main
begin

text \<open>
  The second half of \<open>disjointMaxFlow\<close> (\<open>internal/trust/trust.go\<close>): the flow network as
  adjacency lists with reverse edges, the breadth-first search for an augmenting path and
  the Edmonds-Karp loop.  A loop of the code that need not end, or that would index with
  \<open>-1\<close>, is a \<open>partial_function\<close> into \<open>option\<close>, so that returning is a theorem.

  The specification is the minimum cut: \<open>out_cap B net\<close> is the capacity of the edges that
  leave the set of nodes \<open>B\<close>, and \<open>ek_loop_min_cut\<close> says that the loop returns the least
  \<open>out_cap\<close> of the sets that hold the source and not the sink.
\<close>

section \<open>The code\<close>

record net_edge =
  eTo :: nat
  eCap :: int
  eRev :: nat

type_synonym net = "net_edge list list"
type_synonym prev = "(nat \<times> int) option list"

abbreviation SOURCE :: nat where "SOURCE \<equiv> 0"
abbreviation SINK :: nat where "SINK \<equiv> 1"

definition addEdge :: "nat \<Rightarrow> nat \<Rightarrow> int \<Rightarrow> net \<Rightarrow> net" where
  "addEdge u v cap net =
     (let net1 = net[u := net ! u @ [\<lparr>eTo = v, eCap = cap, eRev = length (net ! v)\<rparr>]] in
      net1[v := net1 ! v @ [\<lparr>eTo = u, eCap = 0, eRev = length (net1 ! u) - 1\<rparr>]])"

text \<open>The search for an augmenting path; \<open>None\<close> stands for the node \<open>-1\<close>.\<close>

fun scan_edges :: "nat \<Rightarrow> nat \<Rightarrow> net_edge list \<Rightarrow> prev \<times> nat list \<Rightarrow> prev \<times> nat list" where
  "scan_edges u i [] (prev, bfsQ) = (prev, bfsQ)"
| "scan_edges u i (e # es) (prev, bfsQ) =
     scan_edges u (Suc i) es
       (if prev ! eTo e = None \<and> eCap e > 0
        then (prev[eTo e := Some (u, int i)], bfsQ @ [eTo e]) else (prev, bfsQ))"

partial_function (option) residual_bfs :: "net \<Rightarrow> prev \<Rightarrow> nat list \<Rightarrow> prev option" where [code]:
  "residual_bfs net prev bfsQ =
     (case bfsQ of
        [] \<Rightarrow> Some prev
      | u # bfsQ \<Rightarrow>
          if prev ! SINK \<noteq> None then Some prev
          else (case scan_edges u 0 (net ! u) (prev, bfsQ) of
                  (prev, bfsQ) \<Rightarrow> residual_bfs net prev bfsQ))"

partial_function (option) bottleneck :: "net \<Rightarrow> prev \<Rightarrow> nat \<Rightarrow> int \<Rightarrow> int option" where [code]:
  "bottleneck net prev v bn =
     (if v = SOURCE then Some bn
      else (case prev ! v of
        None \<Rightarrow> None
      | Some (u, i) \<Rightarrow>
          bottleneck net prev u (if eCap (net ! u ! nat i) < bn then eCap (net ! u ! nat i) else bn)))"

definition add_cap :: "nat \<Rightarrow> nat \<Rightarrow> int \<Rightarrow> net \<Rightarrow> net" where
  "add_cap u i c net = net[u := (net ! u)[i := (net ! u ! i)\<lparr>eCap := eCap (net ! u ! i) + c\<rparr>]]"

partial_function (option) update_residual :: "net \<Rightarrow> prev \<Rightarrow> nat \<Rightarrow> int \<Rightarrow> net option" where [code]:
  "update_residual net prev v bn =
     (if v = SOURCE then Some net
      else (case prev ! v of
        None \<Rightarrow> None
      | Some (u, i) \<Rightarrow>
          (let net1 = add_cap u (nat i) (- bn) net;
               net2 = add_cap v (eRev (net1 ! u ! nat i)) bn net1 in
           update_residual net2 prev u bn)))"

definition init_prev :: "nat \<Rightarrow> prev" where
  "init_prev n = (replicate n None)[SOURCE := Some (SOURCE, - 1)]"

partial_function (option) ek_loop :: "net \<Rightarrow> int \<Rightarrow> int option" where [code]:
  "ek_loop net totalFlow =
     (case residual_bfs net (init_prev (length net)) [SOURCE] of
        None \<Rightarrow> None
      | Some prev \<Rightarrow>
          if prev ! SINK = None then Some totalFlow
          else (case bottleneck net prev SINK (2 ^ 30) of
            None \<Rightarrow> None
          | Some bn \<Rightarrow>
              (case update_residual net prev SINK bn of
                 None \<Rightarrow> None
               | Some net' \<Rightarrow> ek_loop net' (totalFlow + bn))))"

section \<open>Cuts\<close>

definition net_ok :: "net \<Rightarrow> bool" where
  "net_ok net \<longleftrightarrow>
     (\<forall>u < length net. \<forall>i < length (net ! u).
        eTo (net ! u ! i) < length net \<and> eTo (net ! u ! i) \<noteq> u \<and> 0 \<le> eCap (net ! u ! i) \<and>
        eRev (net ! u ! i) < length (net ! eTo (net ! u ! i)) \<and>
        eTo (net ! eTo (net ! u ! i) ! eRev (net ! u ! i)) = u)"

definition out_cap :: "nat set \<Rightarrow> net \<Rightarrow> int" where
  "out_cap B net = (\<Sum>u\<in>B. sum_list (map (\<lambda>e. if eTo e \<in> B then 0 else eCap e) (net ! u)))"

definition cut :: "nat \<Rightarrow> nat set \<Rightarrow> bool" where
  "cut n B \<longleftrightarrow> B \<subseteq> {..<n} \<and> SOURCE \<in> B \<and> SINK \<notin> B"

lemma net_okD:
  assumes "net_ok net" "u < length net" "i < length (net ! u)"
  shows "eTo (net ! u ! i) < length net" "eTo (net ! u ! i) \<noteq> u" "0 \<le> eCap (net ! u ! i)"
    "eRev (net ! u ! i) < length (net ! eTo (net ! u ! i))"
    "eTo (net ! eTo (net ! u ! i) ! eRev (net ! u ! i)) = u"
  using assms by (simp_all add: net_ok_def)

lemma sum_list_map_update:
  fixes f :: "'a \<Rightarrow> int"
  shows "i < length xs \<Longrightarrow> sum_list (map f (xs[i := x])) = sum_list (map f xs) + f x - f (xs ! i)"
  by (induction xs arbitrary: i) (auto split: nat.splits)

lemma sum_list_zero:
  fixes f :: "'a \<Rightarrow> int"
  shows "(\<And>x. x \<in> set xs \<Longrightarrow> f x = 0) \<Longrightarrow> sum_list (map f xs) = 0"
  by (induction xs) auto

lemma sum_fun_upd_int:
  fixes f :: "'a \<Rightarrow> int"
  assumes "finite B" and "\<And>v. v \<in> B \<Longrightarrow> v \<noteq> u \<Longrightarrow> g v = f v"
  shows "sum g B = sum f B + (if u \<in> B then g u - f u else 0)"
proof (cases "u \<in> B")
  case True
  have "sum g (B - {u}) = sum f (B - {u})" by (rule sum.cong) (use assms(2) in auto)
  then show ?thesis using True assms(1) by (simp add: sum.remove)
next
  case False
  have "sum g B = sum f B" by (rule sum.cong) (use assms(2) False in auto)
  then show ?thesis using False by simp
qed

lemma length_add_cap [simp]: "length (add_cap u i c net) = length net"
  by (simp add: add_cap_def)

lemma add_cap_nth [simp]:
  "u < length net \<Longrightarrow> add_cap u i c net ! v =
     (if v = u then (net ! u)[i := (net ! u ! i)\<lparr>eCap := eCap (net ! u ! i) + c\<rparr>] else net ! v)"
  by (simp add: add_cap_def)

lemma out_cap_add_cap:
  assumes "finite B" and "u < length net" and "i < length (net ! u)"
  shows "out_cap B (add_cap u i c net) =
    out_cap B net + (if u \<in> B \<and> eTo (net ! u ! i) \<notin> B then c else 0)"
proof -
  have "out_cap B (add_cap u i c net) = out_cap B net +
      (if u \<in> B then sum_list (map (\<lambda>e. if eTo e \<in> B then 0 else eCap e) (add_cap u i c net ! u)) -
         sum_list (map (\<lambda>e. if eTo e \<in> B then 0 else eCap e) (net ! u)) else 0)"
    unfolding out_cap_def by (rule sum_fun_upd_int [OF assms(1)]) (use assms in simp)
  then show ?thesis using assms by (simp add: sum_list_map_update)
qed

lemma out_cap_nonneg:
  assumes "net_ok net" and "B \<subseteq> {..<length net}" shows "0 \<le> out_cap B net"
  unfolding out_cap_def
proof (rule sum_nonneg)
  fix u assume "u \<in> B"
  then have "u < length net" using assms(2) by auto
  then have "\<forall>e \<in> set (net ! u). 0 \<le> eCap e"
    using net_okD(3) [OF assms(1)] by (auto simp: in_set_conv_nth)
  then show "0 \<le> sum_list (map (\<lambda>e. if eTo e \<in> B then 0 else eCap e) (net ! u))"
    by (intro sum_list_nonneg) auto
qed

text \<open>Moving \<open>c\<close> from an edge to its reverse edge: one step of updating the residual network.\<close>

definition move_cap :: "nat \<Rightarrow> nat \<Rightarrow> int \<Rightarrow> net \<Rightarrow> net" where
  "move_cap u i c net = add_cap (eTo (net ! u ! i)) (eRev (net ! u ! i)) c (add_cap u i (- c) net)"

lemma length_move_cap [simp]: "length (move_cap u i c net) = length net"
  by (simp add: move_cap_def)

lemma move_cap_other:
  assumes "net_ok net" "u < length net" "i < length (net ! u)" and "x \<noteq> u" "x \<noteq> eTo (net ! u ! i)"
  shows "move_cap u i c net ! x = net ! x"
  using assms net_okD(1) [OF assms(1-3)] by (simp add: move_cap_def)

lemma out_cap_move_cap:
  assumes "finite B" and "net_ok net" "u < length net" "i < length (net ! u)"
  shows "out_cap B (move_cap u i c net) =
    out_cap B net - c * ((if u \<in> B then 1 else 0) - (if eTo (net ! u ! i) \<in> B then 1 else 0))"
proof -
  note ok = net_okD [OF assms(2-4)]
  from ok(2) have ne: "u \<noteq> eTo (net ! u ! i)" by simp
  let ?v = "eTo (net ! u ! i)" and ?net = "add_cap u i (- c) net"
  have row: "?net ! ?v = net ! ?v" using assms(3) ok(2) by simp
  have "out_cap B (move_cap u i c net) =
      out_cap B ?net + (if ?v \<in> B \<and> eTo (?net ! ?v ! eRev (net ! u ! i)) \<notin> B then c else 0)"
    unfolding move_cap_def by (rule out_cap_add_cap) (use assms(1) ok row in auto)
  then show ?thesis using out_cap_add_cap [OF assms(1,3,4), of "- c"] ok row by simp
qed

lemma net_ok_move_cap:
  assumes "net_ok net" "u < length net" "i < length (net ! u)" and "0 \<le> c" "c \<le> eCap (net ! u ! i)"
  shows "net_ok (move_cap u i c net)"
proof -
  note ok = net_okD [OF assms(1-3)]
  let ?v = "eTo (net ! u ! i)" and ?j = "eRev (net ! u ! i)" and ?net = "move_cap u i c net"
  have len: "length (?net ! x) = length (net ! x)" for x
    using assms(2) ok(1) by (simp add: move_cap_def)
  have same: "eTo (?net ! x ! k) = eTo (net ! x ! k)" "eRev (?net ! x ! k) = eRev (net ! x ! k)"
    "0 \<le> eCap (?net ! x ! k)" if "x < length net" "k < length (net ! x)" for x k
    using that assms ok net_okD(3) [OF assms(1) that] by (auto simp: move_cap_def nth_list_update)
  show ?thesis
    using assms(1) by (auto simp: net_ok_def len same)
qed

section \<open>Augmenting along a path\<close>

text \<open>The edges of a path from the source to a node, last first, as \<open>prev\<close> records them.\<close>

fun chain :: "net \<Rightarrow> prev \<Rightarrow> nat \<Rightarrow> (nat \<times> nat) list \<Rightarrow> bool" where
  "chain net prev v [] \<longleftrightarrow> v = SOURCE"
| "chain net prev v ((u, i) # p) \<longleftrightarrow>
     v \<noteq> SOURCE \<and> prev ! v = Some (u, int i) \<and> u < length net \<and> i < length (net ! u) \<and>
     eTo (net ! u ! i) = v \<and> 0 < eCap (net ! u ! i) \<and> u \<notin> fst ` set p \<and> v \<notin> fst ` set p \<and>
     chain net prev u p"

lemma chain_cong:
  "\<forall>x \<in> fst ` set p. net' ! x = net ! x \<Longrightarrow> length net' = length net \<Longrightarrow>
     chain net' prev v p = chain net prev v p"
  by (induction net prev v p rule: chain.induct) auto

lemma chain_bottleneck:
  assumes "chain net prev v p" and "0 < b"
  shows "\<exists>bn. bottleneck net prev v b = Some bn \<and> 0 < bn \<and> (\<forall>(u, i) \<in> set p. bn \<le> eCap (net ! u ! i)) \<and> bn \<le> b"
  using assms
proof (induction net prev v p arbitrary: b rule: chain.induct)
  case (1 net prev v)
  then show ?case by (simp add: bottleneck.simps)
next
  case (2 net prev v u i p)
  let ?b = "if eCap (net ! u ! i) < b then eCap (net ! u ! i) else b"
  have "\<exists>bn. bottleneck net prev u ?b = Some bn \<and> 0 < bn \<and> (\<forall>(u, i) \<in> set p. bn \<le> eCap (net ! u ! i)) \<and> bn \<le> ?b"
    by (rule 2(1)) (use 2(2,3) in auto)
  then obtain bn where "bottleneck net prev u ?b = Some bn" "0 < bn"
    "\<forall>(u, i) \<in> set p. bn \<le> eCap (net ! u ! i)" "bn \<le> ?b" by blast
  moreover have "bottleneck net prev v b = bottleneck net prev u ?b"
    using 2(2) by (subst bottleneck.simps) simp
  ultimately show ?case by (auto split: if_splits)
qed

lemma chain_update:
  assumes "chain net prev v p" and "net_ok net" and "\<forall>(u, i) \<in> set p. c \<le> eCap (net ! u ! i)" and "0 \<le> c"
  shows "\<exists>net'. update_residual net prev v c = Some net' \<and> net_ok net' \<and> length net' = length net \<and>
    (\<forall>B. finite B \<longrightarrow> out_cap B net' =
       out_cap B net - c * ((if SOURCE \<in> B then 1 else 0) - (if v \<in> B then 1 else 0)))"
  using assms
proof (induction p arbitrary: net v)
  case Nil
  then show ?case by (simp add: update_residual.simps)
next
  case (Cons e p)
  obtain u i where e: "e = (u, i)" by (cases e)
  with Cons.prems have u: "v \<noteq> SOURCE" "prev ! v = Some (u, int i)" "u < length net" "i < length (net ! u)"
    "eTo (net ! u ! i) = v" "u \<notin> fst ` set p" "v \<notin> fst ` set p" "chain net prev u p" "c \<le> eCap (net ! u ! i)"
    by auto
  let ?net = "move_cap u i c net"
  have rows: "\<forall>x \<in> fst ` set p. ?net ! x = net ! x"
    using move_cap_other [OF Cons.prems(2) u(3,4)] u(5-7) by metis
  have "\<exists>net'. update_residual ?net prev u c = Some net' \<and> net_ok net' \<and> length net' = length ?net \<and>
    (\<forall>B. finite B \<longrightarrow> out_cap B net' =
       out_cap B ?net - c * ((if SOURCE \<in> B then 1 else 0) - (if u \<in> B then 1 else 0)))"
  proof (rule Cons.IH)
    show "chain ?net prev u p" using u(8) chain_cong [OF rows] by simp
    show "net_ok ?net" by (rule net_ok_move_cap [OF Cons.prems(2) u(3,4) Cons.prems(4) u(9)])
    show "\<forall>(x, k) \<in> set p. c \<le> eCap (?net ! x ! k)" using Cons.prems(3) rows by (force simp: e)
  qed (rule Cons.prems(4))
  then obtain net' where net': "update_residual ?net prev u c = Some net'" "net_ok net'" "length net' = length net"
    "\<And>B. finite B \<Longrightarrow> out_cap B net' =
       out_cap B ?net - c * ((if SOURCE \<in> B then 1 else 0) - (if u \<in> B then 1 else 0))" by auto
  have "update_residual net prev v c = update_residual ?net prev u c"
    using u net_okD(2) [OF Cons.prems(2) u(3,4)]
    by (subst update_residual.simps) (simp add: Let_def move_cap_def)
  moreover have "out_cap B net' = out_cap B net - c * ((if SOURCE \<in> B then 1 else 0) - (if v \<in> B then 1 else 0))"
    if "finite B" for B
    using net'(4) [OF that] out_cap_move_cap [OF that Cons.prems(2) u(3,4), of c] u(5) by (simp add: algebra_simps)
  ultimately show ?case using net' by auto
qed

section \<open>The search\<close>

text \<open>
  What the search maintains: \<open>prev\<close> is a tree of edges with residual capacity, of which \<open>d\<close>
  bounds the depth, and the nodes in the queue are in the tree.
\<close>

definition tree :: "net \<Rightarrow> prev \<Rightarrow> (nat \<Rightarrow> nat) \<Rightarrow> bool" where
  "tree net prev d \<longleftrightarrow> length prev = length net \<and> prev ! SOURCE \<noteq> None \<and>
     (\<forall>v u k. v < length net \<longrightarrow> v \<noteq> SOURCE \<longrightarrow> prev ! v = Some (u, k) \<longrightarrow>
        (\<exists>i. k = int i \<and> u < length net \<and> i < length (net ! u) \<and> eTo (net ! u ! i) = v \<and>
           0 < eCap (net ! u ! i) \<and> prev ! u \<noteq> None \<and> d u < d v))"

definition queued :: "net \<Rightarrow> prev \<Rightarrow> nat list \<Rightarrow> bool" where
  "queued net prev q \<longleftrightarrow> (\<forall>x \<in> set q. x < length net \<and> prev ! x \<noteq> None)"

definition nones :: "prev \<Rightarrow> nat" where
  "nones prev = length (filter (\<lambda>x. x = None) prev)"

lemma nones_update:
  "v < length prev \<Longrightarrow> prev ! v = None \<Longrightarrow> Suc (nones (prev[v := Some x])) = nones prev"
  by (induction prev arbitrary: v) (auto simp: nones_def nth_Cons split: nat.splits)

lemma tree_chain:
  assumes "tree net prev d" and "v < length net" and "prev ! v \<noteq> None"
  shows "\<exists>p. chain net prev v p \<and> (\<forall>x \<in> fst ` set p. d x < d v)"
  using assms(2,3)
proof (induction "d v" arbitrary: v rule: less_induct)
  case less
  show ?case
  proof (cases "v = SOURCE")
    case True
    then show ?thesis by (intro exI [of _ "[]"]) simp
  next
    case False
    then obtain u i where u: "prev ! v = Some (u, int i)" "u < length net" "i < length (net ! u)"
      "eTo (net ! u ! i) = v" "0 < eCap (net ! u ! i)" "prev ! u \<noteq> None" "d u < d v"
      using assms(1) less.prems unfolding tree_def by fastforce
    from less.hyps [OF u(7,2,6)] obtain p where
      p: "chain net prev u p" "\<forall>x \<in> fst ` set p. d x < d u" by blast
    then have "u \<notin> fst ` set p" "v \<notin> fst ` set p" using u(7) by auto
    then show ?thesis using False u p by (intro exI [of _ "(u, i) # p"]) auto
  qed
qed

lemma tree_insert:
  assumes "tree net prev d" and "u < length net" and "i < length (net ! u)" and "prev ! u \<noteq> None"
    and "v = eTo (net ! u ! i)" and "0 < eCap (net ! u ! i)" and "v < length net" and "prev ! v = None"
  shows "tree net (prev[v := Some (u, int i)]) (d(v := Suc (d u)))"
proof -
  have len: "length prev = length net" and s: "prev ! SOURCE \<noteq> None" using assms(1) by (simp_all add: tree_def)
  have "v \<noteq> SOURCE" "v \<noteq> u" using s assms(4,8) by metis+
  moreover have "\<exists>k'. k = int k' \<and> y < length net \<and> k' < length (net ! y) \<and> eTo (net ! y ! k') = x \<and>
      0 < eCap (net ! y ! k') \<and> prev ! y \<noteq> None \<and> d y < d x" if "x < length net" "x \<noteq> SOURCE" "prev ! x = Some (y, k)" for x y k
    using assms(1) that unfolding tree_def by blast
  ultimately show ?thesis
    using assms len s unfolding tree_def
    by (fastforce simp: nth_list_update)
qed

lemma scan_edges_tree:
  assumes "tree net prev d" and "queued net prev q" and "net_ok net" and "u < length net" and "prev ! u \<noteq> None"
    and "es = drop i (net ! u)"
  shows "\<exists>prev' q' d'. scan_edges u i es (prev, q) = (prev', q') \<and> tree net prev' d' \<and> queued net prev' q' \<and>
    length q' + nones prev' = length q + nones prev \<and> set q \<subseteq> set q' \<and>
    (\<forall>x. prev ! x \<noteq> None \<longrightarrow> prev' ! x \<noteq> None) \<and>
    (\<forall>x < length net. prev' ! x \<noteq> None \<longrightarrow> prev ! x \<noteq> None \<or> x \<in> set q') \<and>
    (\<forall>e \<in> set es. 0 < eCap e \<longrightarrow> prev' ! eTo e \<noteq> None)"
  using assms
proof (induction es arbitrary: i prev q d)
  case Nil
  then show ?case by auto
next
  case (Cons e es)
  from Cons.prems(6) have i: "i < length (net ! u)" "e = net ! u ! i" "es = drop (Suc i) (net ! u)"
    by (metis Cons_nth_drop_Suc drop_eq_Nil list.distinct(1) list.inject not_le)+
  note ok = net_okD [OF Cons.prems(3,4) i(1)]
  have len: "length prev = length net" using Cons.prems(1) by (simp add: tree_def)
  show ?case
  proof (cases "prev ! eTo e = None \<and> eCap e > 0")
    case True
    let ?prev = "prev[eTo e := Some (u, int i)]" and ?q = "q @ [eTo e]"
    have t: "tree net ?prev (d(eTo e := Suc (d u)))"
      by (rule tree_insert [OF Cons.prems(1,4) i(1) Cons.prems(5)]) (use True i(2) ok(1) in simp_all)
    have keep: "prev ! x \<noteq> None \<Longrightarrow> ?prev ! x \<noteq> None" for x by (cases "x = eTo e") (use True in auto)
    have q: "queued net ?prev ?q"
      using Cons.prems(2) keep ok(1) i(2) len by (auto simp: queued_def)
    from Cons.IH [OF t q Cons.prems(3,4) keep [OF Cons.prems(5)] i(3)] obtain prev' q' d' where
      r: "scan_edges u (Suc i) es (?prev, ?q) = (prev', q')" "tree net prev' d'" "queued net prev' q'"
      "length q' + nones prev' = length ?q + nones ?prev" "set ?q \<subseteq> set q'"
      "\<forall>x. ?prev ! x \<noteq> None \<longrightarrow> prev' ! x \<noteq> None"
      "\<forall>x < length net. prev' ! x \<noteq> None \<longrightarrow> ?prev ! x \<noteq> None \<or> x \<in> set q'"
      "\<forall>e \<in> set es. 0 < eCap e \<longrightarrow> prev' ! eTo e \<noteq> None" by blast
    have n: "Suc (nones ?prev) = nones prev" by (rule nones_update) (use len ok(1) i(2) True in simp_all)
    have "prev' ! eTo e \<noteq> None" using r(6) len ok(1) i(2) by simp
    moreover have "\<forall>x < length net. prev' ! x \<noteq> None \<longrightarrow> prev ! x \<noteq> None \<or> x \<in> set q'"
      using r(5,7) by (metis Un_iff list.set_intros(1) nth_list_update_neq set_append subset_iff)
    ultimately show ?thesis using True r n keep by auto
  next
    case False
    then have "scan_edges u i (e # es) (prev, q) = scan_edges u (Suc i) es (prev, q)" by auto
    moreover from Cons.IH [OF Cons.prems(1-5) i(3)] obtain prev' q' d' where
      "scan_edges u (Suc i) es (prev, q) = (prev', q')" "tree net prev' d'" "queued net prev' q'"
      "length q' + nones prev' = length q + nones prev" "set q \<subseteq> set q'"
      "\<forall>x. prev ! x \<noteq> None \<longrightarrow> prev' ! x \<noteq> None"
      "\<forall>x < length net. prev' ! x \<noteq> None \<longrightarrow> prev ! x \<noteq> None \<or> x \<in> set q'"
      "\<forall>e \<in> set es. 0 < eCap e \<longrightarrow> prev' ! eTo e \<noteq> None" by blast
    ultimately show ?thesis using False by (intro exI [of _ prev'] exI [of _ q'] exI [of _ d']) auto
  qed
qed

text \<open>The nodes that left the queue have had their edges scanned.\<close>

definition scanned :: "net \<Rightarrow> prev \<Rightarrow> nat list \<Rightarrow> bool" where
  "scanned net prev q \<longleftrightarrow>
     (\<forall>u < length net. prev ! u \<noteq> None \<longrightarrow> u \<notin> set q \<longrightarrow> (\<forall>e \<in> set (net ! u). 0 < eCap e \<longrightarrow> prev ! eTo e \<noteq> None))"

lemma residual_bfs_result:
  assumes "tree net prev d" and "queued net prev q" and "scanned net prev q" and "net_ok net"
  shows "\<exists>prev' d'. residual_bfs net prev q = Some prev' \<and> tree net prev' d' \<and>
    (prev' ! SINK = None \<longrightarrow> scanned net prev' [])"
  using assms
proof (induction "length q + nones prev" arbitrary: prev q d rule: less_induct)
  case less
  show ?case
  proof (cases q)
    case Nil
    then show ?thesis using less.prems by (subst residual_bfs.simps) auto
  next
    case (Cons u q0)
    show ?thesis
    proof (cases "prev ! SINK = None")
      case False
      then show ?thesis using less.prems(1) Cons by (subst residual_bfs.simps) auto
    next
      case True
      have u: "u < length net" "prev ! u \<noteq> None" and q0: "queued net prev q0"
        using less.prems(2) Cons by (auto simp: queued_def)
      from scan_edges_tree [OF less.prems(1) q0 less.prems(4) u, of "net ! u" 0] obtain prev' q' d' where
        r: "scan_edges u 0 (net ! u) (prev, q0) = (prev', q')" "tree net prev' d'" "queued net prev' q'"
        "length q' + nones prev' = length q0 + nones prev" "set q0 \<subseteq> set q'"
        "\<forall>x. prev ! x \<noteq> None \<longrightarrow> prev' ! x \<noteq> None"
        "\<forall>x < length net. prev' ! x \<noteq> None \<longrightarrow> prev ! x \<noteq> None \<or> x \<in> set q'"
        "\<forall>e \<in> set (net ! u). 0 < eCap e \<longrightarrow> prev' ! eTo e \<noteq> None" by auto
      have "scanned net prev' q'"
        unfolding scanned_def
      proof (intro allI impI)
        fix x assume x: "x < length net" "prev' ! x \<noteq> None" "x \<notin> set q'"
        show "\<forall>e \<in> set (net ! x). 0 < eCap e \<longrightarrow> prev' ! eTo e \<noteq> None"
        proof (cases "x = u")
          case False
          then have "prev ! x \<noteq> None" "x \<notin> set q" using x r(5,7) Cons by auto
          then show ?thesis using less.prems(3) x(1) r(6) by (auto simp: scanned_def)
        qed (use r(8) in simp)
      qed
      moreover have "length q' + nones prev' < length q + nones prev" using r(4) Cons by simp
      moreover have "residual_bfs net prev q = residual_bfs net prev' q'"
        using Cons True r(1) by (subst residual_bfs.simps) simp
      ultimately show ?thesis using less.hyps [of q' prev'] r(2,3) less.prems(4) by simp
    qed
  qed
qed

lemma search_result:
  assumes "net_ok net" and "2 \<le> length net"
  shows "\<exists>prev d. residual_bfs net (init_prev (length net)) [SOURCE] = Some prev \<and> tree net prev d \<and>
    (prev ! SINK = None \<longrightarrow> scanned net prev [])"
proof -
  let ?prev = "init_prev (length net)"
  have at: "?prev ! v = (if v = SOURCE then Some (SOURCE, - 1) else None)" if "v < length net" for v
    using that by (cases "v = SOURCE") (auto simp: init_prev_def)
  have pos: "SOURCE < length net" using assms(2) by linarith
  have s0: "?prev ! SOURCE = Some (SOURCE, - 1)" using at [of SOURCE] pos by simp
  have "tree net ?prev (\<lambda>_. 0)" using at s0 by (auto simp: tree_def init_prev_def split: if_splits)
  moreover have "queued net ?prev [SOURCE]" using s0 pos by (simp add: queued_def)
  moreover have "scanned net ?prev [SOURCE]" using at by (simp add: scanned_def)
  ultimately show ?thesis by (rule residual_bfs_result [OF _ _ _ assms(1)])
qed

section \<open>The loop computes the minimum cut\<close>

lemma no_path_cut:
  assumes "tree net prev d" and "prev ! SINK = None" and "scanned net prev []" and "net_ok net" and "2 \<le> length net"
  shows "\<exists>B. cut (length net) B \<and> out_cap B net = 0"
proof -
  let ?B = "{v. v < length net \<and> prev ! v \<noteq> None}"
  have "cut (length net) ?B" using assms(1,2,5) by (auto simp: cut_def tree_def)
  moreover have "(if eTo e \<in> ?B then 0 else eCap e) = 0" if "u \<in> ?B" "e \<in> set (net ! u)" for u e
  proof -
    from that obtain i where "i < length (net ! u)" "e = net ! u ! i" by (auto simp: in_set_conv_nth)
    with that(1) have "eTo e < length net" "0 \<le> eCap e" using net_okD [OF assms(4)] by auto
    moreover have "0 < eCap e \<longrightarrow> prev ! eTo e \<noteq> None" using assms(3) that by (auto simp: scanned_def)
    ultimately show ?thesis by auto
  qed
  then have "out_cap ?B net = 0"
    unfolding out_cap_def by (intro sum.neutral ballI sum_list_zero) blast
  ultimately show ?thesis by blast
qed

theorem ek_loop_min_cut:
  assumes "net_ok net" and "2 \<le> length net"
  shows "\<exists>v B. ek_loop net f = Some (f + v) \<and> cut (length net) B \<and> v = out_cap B net \<and>
    (\<forall>C. cut (length net) C \<longrightarrow> v \<le> out_cap C net)"
  using assms
proof (induction "nat (out_cap {SOURCE} net)" arbitrary: net f rule: less_induct)
  case less
  obtain prev d where r: "residual_bfs net (init_prev (length net)) [SOURCE] = Some prev" "tree net prev d"
    "prev ! SINK = None \<longrightarrow> scanned net prev []"
    using search_result [OF less.prems] by (elim exE conjE) (rule that)
  show ?case
  proof (cases "prev ! SINK = None")
    case True
    then obtain B where "cut (length net) B" "out_cap B net = 0"
      using no_path_cut [OF r(2) _ _ less.prems] r(3) by blast
    moreover have "ek_loop net f = Some (f + 0)" using r(1) True by (subst ek_loop.simps) simp
    moreover have "\<forall>C. cut (length net) C \<longrightarrow> 0 \<le> out_cap C net"
      using out_cap_nonneg [OF less.prems(1)] by (simp add: cut_def)
    ultimately show ?thesis by metis
  next
    case False
    then obtain p where p: "chain net prev SINK p"
      using tree_chain [OF r(2), of SINK] less.prems(2) by auto
    then obtain bn where bn: "bottleneck net prev SINK (2 ^ 30) = Some bn" "0 < bn"
      "\<forall>(u, i) \<in> set p. bn \<le> eCap (net ! u ! i)"
      using chain_bottleneck [OF p, of "2 ^ 30"] by auto
    obtain net' where net': "update_residual net prev SINK bn = Some net'" "net_ok net'" "length net' = length net"
      "\<And>B. finite B \<Longrightarrow> out_cap B net' =
         out_cap B net - bn * ((if SOURCE \<in> B then 1 else 0) - (if SINK \<in> B then 1 else 0))"
      using chain_update [OF p less.prems(1) bn(3)] bn(2) by auto
    have cuts: "out_cap B net' = out_cap B net - bn" if "cut (length net) B" for B
      using net'(4) [of B] that finite_subset [of B "{..<length net}"] by (simp add: cut_def)
    have "cut (length net) {SOURCE}" using less.prems(2) by (auto simp: cut_def)
    moreover have "0 \<le> out_cap {SOURCE} net'"
      by (rule out_cap_nonneg [OF net'(2)]) (use less.prems(2) net'(3) in auto)
    ultimately have "nat (out_cap {SOURCE} net') < nat (out_cap {SOURCE} net)"
      using cuts [of "{SOURCE}"] bn(2) by auto
    from less.hyps [OF this net'(2)] less.prems(2) net'(3) obtain v B where
      v: "ek_loop net' (f + bn) = Some (f + bn + v)" "cut (length net) B" "v = out_cap B net'"
      "\<forall>C. cut (length net) C \<longrightarrow> v \<le> out_cap C net'" by metis
    have "ek_loop net f = ek_loop net' (f + bn)"
      using r(1) False bn(1) net'(1) by (subst ek_loop.simps) auto
    then have "ek_loop net f = Some (f + (bn + v))" using v(1) by simp
    moreover have "bn + v = out_cap B net" using v(2,3) cuts by simp
    moreover have "\<forall>C. cut (length net) C \<longrightarrow> bn + v \<le> out_cap C net" using v(4) cuts by force
    ultimately show ?thesis using v(2) by blast
  qed
qed

section \<open>Building the network\<close>

lemma length_addEdge [simp]: "length (addEdge u v c net) = length net"
  by (simp add: addEdge_def Let_def)

lemma addEdge_nth:
  assumes "u < length net" "v < length net" "u \<noteq> v"
  shows "addEdge u v c net ! x =
    (if x = u then net ! u @ [\<lparr>eTo = v, eCap = c, eRev = length (net ! v)\<rparr>]
     else if x = v then net ! v @ [\<lparr>eTo = u, eCap = 0, eRev = length (net ! u)\<rparr>] else net ! x)"
  using assms by (auto simp: addEdge_def Let_def nth_list_update)

lemma net_ok_addEdge:
  assumes "net_ok net" "u < length net" "v < length net" "u \<noteq> v" "0 \<le> c"
  shows "net_ok (addEdge u v c net)"
  unfolding net_ok_def
proof (intro allI impI)
  fix x i assume x: "x < length (addEdge u v c net)" and i: "i < length (addEdge u v c net ! x)"
  let ?net = "addEdge u v c net"
  have len: "length (?net ! y) \<ge> length (net ! y)" for y
    by (simp add: addEdge_nth [OF assms(2-4)])
  have old: "?net ! y ! k = net ! y ! k" if "k < length (net ! y)" for y k
    using that by (auto simp: addEdge_nth [OF assms(2-4)] nth_append)
  show "eTo (?net ! x ! i) < length ?net \<and> eTo (?net ! x ! i) \<noteq> x \<and> 0 \<le> eCap (?net ! x ! i) \<and>
      eRev (?net ! x ! i) < length (?net ! eTo (?net ! x ! i)) \<and>
      eTo (?net ! eTo (?net ! x ! i) ! eRev (?net ! x ! i)) = x"
  proof (cases "i < length (net ! x)")
    case True
    have x': "x < length net" using x by simp
    note ok = net_okD [OF assms(1) x' True]
    show ?thesis
      unfolding old [OF True] old [OF ok(4)] length_addEdge
      by (intro conjI ok(1-3) less_le_trans [OF ok(4) len] ok(5))
  next
    case False
    note rows = addEdge_nth [OF assms(2-4)]
    from False i consider "x = u" "i = length (net ! u)" | "x = v" "x \<noteq> u" "i = length (net ! v)"
      by (auto simp: rows split: if_splits)
    then show ?thesis
    proof cases
      case 1
      then show ?thesis using assms(2-5) by (simp add: rows)
    next
      case 2
      then show ?thesis using assms(2-5) by (simp add: rows)
    qed
  qed
qed

lemma out_cap_addEdge:
  assumes "finite B" "u < length net" "v < length net" "u \<noteq> v"
  shows "out_cap B (addEdge u v c net) = out_cap B net + (if u \<in> B \<and> v \<notin> B then c else 0)"
proof -
  let ?f = "\<lambda>e. if eTo e \<in> B then 0 else eCap e"
  have "out_cap B (addEdge u v c net) =
      out_cap B (net[u := net ! u @ [\<lparr>eTo = v, eCap = c, eRev = length (net ! v)\<rparr>]])"
    unfolding out_cap_def by (rule sum.cong) (use assms(2-4) in \<open>auto simp: addEdge_nth nth_list_update\<close>)
  also have "\<dots> = out_cap B net + (if u \<in> B then ?f \<lparr>eTo = v, eCap = c, eRev = length (net ! v)\<rparr> else 0)"
    unfolding out_cap_def using assms(2)
    by (subst sum_fun_upd_int [OF assms(1), of u _ "\<lambda>x. sum_list (map ?f (net ! x))"]) auto
  finally show ?thesis by auto
qed

lemma net_ok_empty [simp]: "net_ok (replicate n [])"
  by (simp add: net_ok_def)

lemma out_cap_empty: "B \<subseteq> {..<n} \<Longrightarrow> out_cap B (replicate n []) = 0"
  by (auto simp: out_cap_def intro!: sum.neutral)

definition add_edges :: "(nat \<times> nat \<times> int) list \<Rightarrow> net \<Rightarrow> net" where
  "add_edges es net = fold (\<lambda>(u, v, c). addEdge u v c) es net"

lemma add_edges_ok:
  assumes "\<forall>(u, v, c) \<in> set es. u < length net \<and> v < length net \<and> u \<noteq> v \<and> 0 \<le> c" and "net_ok net"
  shows "net_ok (add_edges es net)" "length (add_edges es net) = length net"
    "finite B \<Longrightarrow> out_cap B (add_edges es net) =
       out_cap B net + sum_list (map (\<lambda>(u, v, c). if u \<in> B \<and> v \<notin> B then c else 0) es)"
  using assms
proof (induction es arbitrary: net)
  case (Cons e es)
  obtain u v c where e: "e = (u, v, c)" by (cases e)
  {
    case 1
    then show ?case using Cons.IH(1) [of "addEdge u v c net"] by (simp add: add_edges_def e net_ok_addEdge)
  next
    case 2
    then show ?case using Cons.IH(2) [of "addEdge u v c net"] by (simp add: add_edges_def e net_ok_addEdge)
  next
    case 3
    then show ?case using Cons.IH(3) [of "addEdge u v c net"]
      by (simp add: add_edges_def e net_ok_addEdge out_cap_addEdge)
  }
qed (simp_all add: add_edges_def)

end
