(* ===== verification/Disjoint.thy ===== *)
theory Disjoint
  imports Distances Flow "HOL-Library.List_Lexorder" "HOL-Library.Char_ord"
begin

text \<open>
  The score of disjoint paths (\<open>DisjointScore\<close> of \<open>internal/trust/trust.go\<close>): the searches of
  \<open>Distances\<close> give the distance of every key from the root and to the target, the keys and
  edges on short enough walks become a flow network in which every intermediate key may
  carry one unit, and the Edmonds-Karp loop of \<open>Flow\<close> computes its maximum flow.

  Specification: the score is the least number of intermediate keys that cut every sig_walk from
  root to target (a direct signature apart, which counts by its capacity).
\<close>

section \<open>The code\<close>

definition intermediates_of :: "distances \<Rightarrow> distances \<Rightarrow> string \<Rightarrow> string \<Rightarrow> int \<Rightarrow> string list" where
  "intermediates_of distFwd distBwd targetFP rootFP maxDepth =
     sort (map fst (filter (\<lambda>(fp, d1).
       fp \<noteq> rootFP \<and> fp \<noteq> targetFP \<and>
       (case mget distBwd fp of None \<Rightarrow> False | Some d2 \<Rightarrow> d1 + d2 \<le> maxDepth)) distFwd))"

definition interIdx :: "string list \<Rightarrow> (string, nat) gomap" where
  "interIdx intermediates = zip intermediates [0..<length intermediates]"

definition idx :: "string list \<Rightarrow> string \<Rightarrow> nat" where
  "idx intermediates fp = (case mget (interIdx intermediates) fp of None \<Rightarrow> 0 | Some i \<Rightarrow> i)"

definition inID :: "string list \<Rightarrow> string \<Rightarrow> nat" where
  "inID intermediates fp = 2 + 2 * idx intermediates fp"

definition outID :: "string list \<Rightarrow> string \<Rightarrow> nat" where
  "outID intermediates fp = 2 + 2 * idx intermediates fp + 1"

text \<open>The calls of \<open>addEdge\<close>, in order.\<close>

definition split_edges :: "string list \<Rightarrow> (nat \<times> nat \<times> int) list" where
  "split_edges intermediates = map (\<lambda>fp. (inID intermediates fp, outID intermediates fp, 1)) intermediates"

definition cross_edges ::
    "Graph \<Rightarrow> distances \<Rightarrow> distances \<Rightarrow> string list \<Rightarrow> string \<Rightarrow> string \<Rightarrow> int \<Rightarrow> (nat \<times> nat \<times> int) list" where
  "cross_edges signedMap distFwd distBwd intermediates targetFP rootFP maxDepth =
     (let inf = int (length intermediates) + 2 in
      concat (map (\<lambda>fp1.
        let d1 = dist_of distFwd fp1;
            u = (if fp1 = rootFP then SOURCE else outID intermediates fp1) in
        List.map_filter (\<lambda>fp2.
          case mget distBwd fp2 of
            None \<Rightarrow> None
          | Some d2 \<Rightarrow>
              if d1 + 1 + d2 > maxDepth then None
              else if fp2 = targetFP then Some (u, SINK, inf)
              else if mget (interIdx intermediates) fp2 \<noteq> None then Some (u, inID intermediates fp2, inf)
              else None) (signers signedMap fp1)) (rootFP # intermediates)))"

definition disjointMaxFlow :: "Graph \<Rightarrow> string \<Rightarrow> string \<Rightarrow> int \<Rightarrow> int option" where
  "disjointMaxFlow g targetFP rootFP maxDepth =
     (let signedMap = turn_round g [];
          distFwd = dist_bfs signedMap (Some maxDepth) [(rootFP, 0)] [rootFP] in
      if mget distFwd targetFP = None then Some 0
      else
        (let rev2 = turn_round signedMap [];
             distBwd = dist_bfs rev2 None [(targetFP, 0)] [targetFP];
             intermediates = intermediates_of distFwd distBwd targetFP rootFP maxDepth;
             net = add_edges (split_edges intermediates @
               cross_edges signedMap distFwd distBwd intermediates targetFP rootFP maxDepth)
               (replicate (2 + 2 * length intermediates) []) in
         ek_loop net 0))"

definition DisjointScore :: "Graph \<Rightarrow> string \<Rightarrow> string \<Rightarrow> int \<Rightarrow> int option" where
  "DisjointScore g targetFP rootFP maxDepth =
     (if rootFP = targetFP then Some 1 else disjointMaxFlow g targetFP rootFP maxDepth)"

definition DisjointIsTrusted :: "Graph \<Rightarrow> string \<Rightarrow> string \<Rightarrow> int \<Rightarrow> int \<Rightarrow> bool option" where
  "DisjointIsTrusted g targetFP rootFP maxDepth threshold =
     map_option (\<lambda>s. s \<ge> threshold) (DisjointScore g targetFP rootFP maxDepth)"

section \<open>Specification and distances\<close>

text \<open>
  The specification: the keys strictly between root and target on walks of at most \<open>md\<close>
  signatures, the edges on such walks, and the sets of keys that cut the target off.
\<close>

definition between :: "Graph \<Rightarrow> string \<Rightarrow> string \<Rightarrow> int \<Rightarrow> string set" where
  "between g target root md =
     {x. x \<noteq> root \<and> x \<noteq> target \<and> (\<exists>a b. sig_walk g a root x \<and> sig_walk g b x target \<and> int (a + b) \<le> md)}"

definition short_edge :: "Graph \<Rightarrow> string \<Rightarrow> string \<Rightarrow> int \<Rightarrow> string \<Rightarrow> string \<Rightarrow> bool" where
  "short_edge g target root md x y \<longleftrightarrow>
     edge g x y \<and> (\<exists>a b. sig_walk g a root x \<and> sig_walk g b y target \<and> int (a + 1 + b) \<le> md)"

definition indirect :: "Graph \<Rightarrow> string \<Rightarrow> string \<Rightarrow> int \<Rightarrow> string set \<Rightarrow> (string \<times> string) set" where
  "indirect g target root md C =
     {(x, y). short_edge g target root md x y \<and> (x, y) \<noteq> (root, target) \<and> x \<notin> C \<and> y \<notin> C}"

definition separates :: "Graph \<Rightarrow> string \<Rightarrow> string \<Rightarrow> int \<Rightarrow> string set \<Rightarrow> bool" where
  "separates g target root md C \<longleftrightarrow> (root, target) \<notin> (indirect g target root md C)\<^sup>*"

text \<open>The distances as the two searches find them.\<close>

definition dists_ok :: "Graph \<Rightarrow> string \<Rightarrow> string \<Rightarrow> int \<Rightarrow> distances \<Rightarrow> distances \<Rightarrow> bool" where
  "dists_ok g target root md F B \<longleftrightarrow> is_gomap F \<and>
     (\<forall>x d. mget F x = Some d \<longrightarrow> (\<exists>n. d = int n \<and> sig_walk g n root x)) \<and>
     (\<forall>n x. sig_walk g n root x \<longrightarrow> int n \<le> md \<longrightarrow> (\<exists>d. mget F x = Some d \<and> d \<le> int n)) \<and>
     (\<forall>x d. mget B x = Some d \<longrightarrow> (\<exists>n. d = int n \<and> sig_walk g n x target)) \<and>
     (\<forall>n x. sig_walk g n x target \<longrightarrow> (\<exists>d. mget B x = Some d \<and> d \<le> int n))"

lemma searches_ok:
  assumes "graph_ok g"
  shows "dists_ok g target root md
    (dist_bfs (turn_round g []) (Some md) [(root, 0)] [root])
    (dist_bfs (turn_round (turn_round g []) []) None [(target, 0)] [target])"
  using dist_bfs_distances [of "turn_round g []" "Some md" root]
    dist_bfs_distances [of "turn_round (turn_round g []) []" None target]
  by (simp add: dists_ok_def distances_from_def steps_signed [OF assms] steps_rev2 [OF assms] within_def)

lemma short_sum:
  assumes "dists_ok g target root md F B"
  shows "(\<exists>a b. sig_walk g a root x \<and> sig_walk g b y target \<and> int (a + k + b) \<le> md) \<longleftrightarrow>
    (\<exists>d1 d2. mget F x = Some d1 \<and> mget B y = Some d2 \<and> d1 + int k + d2 \<le> md)"
proof
  have fwd: "\<forall>n x. sig_walk g n root x \<longrightarrow> int n \<le> md \<longrightarrow> (\<exists>d. mget F x = Some d \<and> d \<le> int n)"
    and bwd: "\<forall>n x. sig_walk g n x target \<longrightarrow> (\<exists>d. mget B x = Some d \<and> d \<le> int n)"
    using assms by (simp_all add: dists_ok_def)
  assume "\<exists>a b. sig_walk g a root x \<and> sig_walk g b y target \<and> int (a + k + b) \<le> md"
  then obtain a b where ab: "sig_walk g a root x" "sig_walk g b y target" "int (a + k + b) \<le> md" by blast
  then have "int a \<le> md" by simp
  with ab(1) fwd obtain d1 where "mget F x = Some d1" "d1 \<le> int a" by blast
  moreover from ab(2) bwd obtain d2 where "mget B y = Some d2" "d2 \<le> int b" by blast
  ultimately show "\<exists>d1 d2. mget F x = Some d1 \<and> mget B y = Some d2 \<and> d1 + int k + d2 \<le> md" using ab(3) by auto
next
  assume "\<exists>d1 d2. mget F x = Some d1 \<and> mget B y = Some d2 \<and> d1 + int k + d2 \<le> md"
  then obtain d1 d2 where d: "mget F x = Some d1" "mget B y = Some d2" "d1 + int k + d2 \<le> md" by blast
  with assms obtain a b where "d1 = int a" "sig_walk g a root x" "d2 = int b" "sig_walk g b y target"
    unfolding dists_ok_def by metis
  then show "\<exists>a b. sig_walk g a root x \<and> sig_walk g b y target \<and> int (a + k + b) \<le> md" using d(3) by auto
qed

lemma intermediates:
  assumes "dists_ok g target root md F B"
  shows "set (intermediates_of F B target root md) = between g target root md"
    "distinct (intermediates_of F B target root md)"
proof -
  have F: "is_gomap F" using assms by (simp add: dists_ok_def)
  then show "distinct (intermediates_of F B target root md)"
    by (simp add: intermediates_of_def distinct_map_filter is_gomap_def)
  have "x \<in> set (intermediates_of F B target root md) \<longleftrightarrow> x \<noteq> root \<and> x \<noteq> target \<and>
      (\<exists>d1 d2. mget F x = Some d1 \<and> mget B x = Some d2 \<and> d1 + int 0 + d2 \<le> md)" for x
    unfolding mget_Some_iff [OF F] intermediates_of_def
    by (force split: option.splits)
  then show "set (intermediates_of F B target root md) = between g target root md"
    using short_sum [OF assms, of _ _ 0] by (auto simp: between_def)
qed

section \<open>The network\<close>

lemma mget_interIdx:
  shows "mget (interIdx I) x \<noteq> None \<longleftrightarrow> x \<in> set I"
  by (simp add: interIdx_def mget_def map_of_zip_is_None del: not_None_eq)

lemma idx_nth: "distinct I \<Longrightarrow> i < length I \<Longrightarrow> idx I (I ! i) = i"
  using map_of_zip_nth [of I "[0..<length I]" i] by (simp add: idx_def interIdx_def mget_def)

lemma idx_inj:
  assumes "distinct I" "x \<in> set I" "y \<in> set I"
  shows "idx I x = idx I y \<longleftrightarrow> x = y" "idx I x < length I"
  using assms idx_nth [OF assms(1)] by (metis in_set_conv_nth)+

text \<open>The edges that may become cross edges, and the nodes at their ends.\<close>

definition cross_pairs :: "Graph \<Rightarrow> string \<Rightarrow> string \<Rightarrow> int \<Rightarrow> (string \<times> string) set" where
  "cross_pairs g target root md = {(x, y). short_edge g target root md x y \<and> x \<noteq> target \<and> y \<noteq> root}"

definition from_node :: "string list \<Rightarrow> string \<Rightarrow> string \<Rightarrow> nat" where
  "from_node I root x = (if x = root then SOURCE else outID I x)"

definition to_node :: "string list \<Rightarrow> string \<Rightarrow> string \<Rightarrow> nat" where
  "to_node I target y = (if y = target then SINK else inID I y)"

lemma cross_pairs_ends:
  assumes "(x, y) \<in> cross_pairs g target root md"
  shows "x = root \<or> x \<in> between g target root md" "y = target \<or> y \<in> between g target root md"
proof -
  from assms obtain a b where w: "edge g x y" "sig_walk g a root x" "sig_walk g b y target" "int (a + 1 + b) \<le> md"
    and ne: "x \<noteq> target" "y \<noteq> root" by (auto simp: cross_pairs_def short_edge_def)
  have "sig_walk g (Suc b) x target" using w(1,3) by auto
  then show "x = root \<or> x \<in> between g target root md" using w(2,4) ne(1) unfolding between_def by fastforce
  have "sig_walk g (Suc a) root y" unfolding sig_walk_snoc using w(1,2) by blast
  then show "y = target \<or> y \<in> between g target root md" using w(3,4) ne(2) unfolding between_def by fastforce
qed

lemma dist_of_short:
  assumes "dists_ok g target root md F B" and "x = root \<or> x \<in> set (intermediates_of F B target root md)"
    and "mget B y = Some d2"
  shows "dist_of F x + 1 + d2 \<le> md \<longleftrightarrow> (\<exists>d1. mget F x = Some d1 \<and> d1 + 1 + d2 \<le> md)"
proof (cases "mget F x")
  case None
  have fwd: "\<forall>n x. sig_walk g n root x \<longrightarrow> int n \<le> md \<longrightarrow> (\<exists>d. mget F x = Some d \<and> d \<le> int n)" and "0 \<le> d2"
    using assms(1,3) unfolding dists_ok_def by (simp, metis of_nat_0_le_iff)
  have "x \<notin> between g target root md" using fwd None unfolding between_def by fastforce
  then have "x = root" using assms(2) intermediates(1) [OF assms(1)] by simp
  then have "md < 0" using fwd [rule_format, of 0 root] None by force
  then show ?thesis using None \<open>0 \<le> d2\<close> by (simp add: dist_of_def)
qed (simp add: dist_of_def)

lemma distinct_pairs:
  "distinct xs \<Longrightarrow> (\<And>x. distinct (f x)) \<Longrightarrow> distinct (concat (map (\<lambda>x. map (Pair x) (f x)) xs))"
  by (induction xs) (auto simp: distinct_map inj_on_def)

lemma cross_edges_list:
  assumes "graph_ok g" and "root \<noteq> target" and ok: "dists_ok g target root md F B"
    and I: "I = intermediates_of F B target root md"
  shows "\<exists>ps. cross_edges (turn_round g []) F B I target root md =
      map (\<lambda>(x, y). (from_node I root x, to_node I target y, int (length I) + 2)) ps \<and>
    distinct ps \<and> set ps = cross_pairs g target root md"
proof -
  note I' = intermediates [OF ok, folded I]
  let ?S = "turn_round g []"
  let ?ok = "\<lambda>x y. (case mget B y of None \<Rightarrow> False | Some d2 \<Rightarrow> dist_of F x + 1 + d2 \<le> md) \<and>
    (y = target \<or> y \<in> set I)"
  let ?ps = "concat (map (\<lambda>x. map (Pair x) (filter (?ok x) (signers ?S x))) (root # I))"
  have one: "List.map_filter (\<lambda>fp2. case mget B fp2 of None \<Rightarrow> None
      | Some d2 \<Rightarrow> if dist_of F x + 1 + d2 > md then None
          else if fp2 = target then Some (u, SINK, c)
          else if mget (interIdx I) fp2 \<noteq> None then Some (u, inID I fp2, c) else None) ys =
    map (\<lambda>y. (u, to_node I target y, c)) (filter (?ok x) ys)" for x u c ys
    by (induction ys) (auto simp: List.map_filter_def mget_interIdx to_node_def
        simp del: not_None_eq split: option.splits)
  have "cross_edges ?S F B I target root md =
      map (\<lambda>(x, y). (from_node I root x, to_node I target y, int (length I) + 2)) ?ps"
    unfolding cross_edges_def Let_def one map_concat map_map from_node_def
    by (intro arg_cong [where f = concat] map_cong refl) (simp add: comp_def)
  moreover have "distinct ?ps"
  proof -
    have "distinct (signers ?S x)" for x using turn_round_edges(1) [OF assms(1)] by (simp add: graph_ok_def)
    moreover have "distinct (root # I)" using I'(2) by (simp add: I'(1) between_def)
    ultimately show ?thesis by (intro distinct_pairs distinct_filter)
  qed
  moreover have "set ?ps = cross_pairs g target root md"
  proof -
    have "(x, y) \<in> set ?ps \<longleftrightarrow> (x, y) \<in> cross_pairs g target root md" for x y
    proof -
      have "(x, y) \<in> set ?ps \<longleftrightarrow> (x = root \<or> x \<in> set I) \<and> edge g x y \<and> ?ok x y"
        using turn_round_edges(2) [OF assms(1)] by (auto simp: edge_def)
      also have "\<dots> \<longleftrightarrow> (x = root \<or> x \<in> set I) \<and> edge g x y \<and> (y = target \<or> y \<in> set I) \<and>
          (\<exists>d1 d2. mget F x = Some d1 \<and> mget B y = Some d2 \<and> d1 + int 1 + d2 \<le> md)"
        using dist_of_short [OF ok, folded I] by (auto split: option.splits)
      also have "\<dots> \<longleftrightarrow> (x, y) \<in> cross_pairs g target root md"
        using short_sum [OF ok, of x y 1, symmetric] cross_pairs_ends [of x y g target root md] assms(2)
        by (auto simp: cross_pairs_def short_edge_def I'(1) between_def)
      finally show ?thesis .
    qed
    then show ?thesis by (intro equalityI subrelI) blast+
  qed
  ultimately show ?thesis by blast
qed

text \<open>The capacity of a cut: one for each split key, \<open>n + 2\<close> for each cross edge.\<close>

lemma nodes_distinct:
  assumes "distinct I"
  shows "x \<in> set I \<Longrightarrow> inID I x < 2 + 2 * length I" "x \<in> set I \<Longrightarrow> outID I x < 2 + 2 * length I"
    "inID I x \<noteq> outID I y" "SINK < inID I x" "SINK < outID I x"
    "x \<in> set I \<Longrightarrow> y \<in> set I \<Longrightarrow> inID I x = inID I y \<longleftrightarrow> x = y"
    "x \<in> set I \<Longrightarrow> y \<in> set I \<Longrightarrow> outID I x = outID I y \<longleftrightarrow> x = y"
proof -
  show "inID I x \<noteq> outID I y" unfolding inID_def outID_def by presburger
  show "outID I x < 2 + 2 * length I" if "x \<in> set I"
    using idx_inj(2) [OF assms that that] unfolding outID_def by linarith
qed (use idx_inj [OF assms] in \<open>auto simp: inID_def outID_def\<close>)

lemma sum_list_if_card:
  assumes "distinct xs"
  shows "sum_list (map (\<lambda>x. if P x then c else 0) xs) = (c :: int) * int (card {x \<in> set xs. P x})"
proof -
  have "sum_list (map (\<lambda>x. if P x then c else 0) xs) = (\<Sum>x\<in>set xs. if P x then c else 0)"
    using assms by (simp add: sum_list_distinct_conv_sum_set)
  also have "\<dots> = (\<Sum>x\<in>{x \<in> set xs. P x}. c)" by (simp add: sum.If_cases Collect_conj_eq)
  finally show ?thesis by simp
qed

definition split_cut :: "string list \<Rightarrow> nat set \<Rightarrow> string set" where
  "split_cut I B = {x \<in> set I. inID I x \<in> B \<and> outID I x \<notin> B}"

definition cross_cut :: "(string \<times> string) set \<Rightarrow> string list \<Rightarrow> string \<Rightarrow> string \<Rightarrow> nat set \<Rightarrow> (string \<times> string) set" where
  "cross_cut E I root target B = {(x, y) \<in> E. from_node I root x \<in> B \<and> to_node I target y \<notin> B}"

lemma score_net:
  assumes "graph_ok g" and "root \<noteq> target" and ok: "dists_ok g target root md F B"
    and I: "I = intermediates_of F B target root md"
    and net: "net = add_edges (split_edges I @ cross_edges (turn_round g []) F B I target root md)
      (replicate (2 + 2 * length I) [])"
    and E: "E = cross_pairs g target root md"
  shows "net_ok net" "length net = 2 + 2 * length I" "finite E"
    "cut (length net) C \<Longrightarrow> out_cap C net =
       int (card (split_cut I C)) + (int (length I) + 2) * int (card (cross_cut E I root target C))"
proof -
  note I' = intermediates [OF ok, folded I]
  obtain ps where ps: "cross_edges (turn_round g []) F B I target root md =
      map (\<lambda>(x, y). (from_node I root x, to_node I target y, int (length I) + 2)) ps"
    "distinct ps" "set ps = E"
    using cross_edges_list [OF assms(1,2) ok I] E by blast
  then show "finite E" by auto
  note nodes = nodes_distinct [OF I'(2)]
  have ends: "(x = root \<or> x \<in> set I) \<and> (y = target \<or> y \<in> set I)" if "(x, y) \<in> E" for x y
    using that cross_pairs_ends [of x y g target root md] by (simp add: E I'(1))
  have cross: "from_node I root x < 2 + 2 * length I \<and> to_node I target y < 2 + 2 * length I \<and>
      from_node I root x \<noteq> to_node I target y" if "(x, y) \<in> E" for x y
    using ends [OF that] nodes(1,2) nodes(3) [of y x, symmetric] nodes(4) [of y] nodes(5) [of x]
    by (auto simp: from_node_def to_node_def)
  have edges: "\<forall>(u, v, c) \<in> set (split_edges I @ cross_edges (turn_round g []) F B I target root md).
      u < length (replicate (2 + 2 * length I) []) \<and> v < length (replicate (2 + 2 * length I) []) \<and> u \<noteq> v \<and> 0 \<le> c"
    using nodes(1-3) cross by (auto simp: split_edges_def ps(1) ps(3) [symmetric])
  show "net_ok net" "length net = 2 + 2 * length I"
    unfolding net by (rule add_edges_ok(1) [OF edges net_ok_empty]) (subst add_edges_ok(2) [OF edges net_ok_empty], simp)
  show "out_cap C net =
      int (card (split_cut I C)) + (int (length I) + 2) * int (card (cross_cut E I root target C))"
    if "cut (length net) C"
  proof -
    have C: "finite C" "C \<subseteq> {..<2 + 2 * length I}"
      using that \<open>length net = _\<close> finite_subset [of C] by (auto simp: cut_def)
    have cross: "cross_cut E I root target C =
        {p \<in> E. from_node I root (fst p) \<in> C \<and> to_node I target (snd p) \<notin> C}"
      by (auto simp: cross_cut_def)
    have "out_cap C net = sum_list (map (\<lambda>(u, v, c). if u \<in> C \<and> v \<notin> C then c else 0)
        (split_edges I @ cross_edges (turn_round g []) F B I target root md))"
      unfolding net by (simp only: add_edges_ok(3) [OF edges net_ok_empty C(1)] out_cap_empty [OF C(2)] add_0)
    also have "\<dots> = sum_list (map (\<lambda>x. if inID I x \<in> C \<and> outID I x \<notin> C then 1 else 0) I) +
        sum_list (map (\<lambda>p. if from_node I root (fst p) \<in> C \<and> to_node I target (snd p) \<notin> C
          then int (length I) + 2 else 0) ps)"
      by (simp add: split_edges_def ps(1) comp_def case_prod_beta)
    also have "\<dots> = int (card (split_cut I C)) + (int (length I) + 2) * int (card (cross_cut E I root target C))"
      by (simp add: sum_list_if_card [OF I'(2)] sum_list_if_card [OF ps(2)] split_cut_def cross ps(3))
    finally show ?thesis .
  qed
qed

section \<open>The score is a minimum cut\<close>

lemma card_cross_cut_direct:
  assumes "finite E" and "cross_cut E I root target C \<subseteq> {(root, target)}"
    and "SOURCE \<in> C" and "SINK \<notin> C"
  shows "int (card (cross_cut E I root target C)) = (if (root, target) \<in> E then 1 else 0)"
proof (cases "(root, target) \<in> E")
  case True
  then have "cross_cut E I root target C = {(root, target)}"
    using assms(2-4) by (auto simp: cross_cut_def from_node_def to_node_def)
  then show ?thesis using True by simp
next
  case False
  then have "cross_cut E I root target C = {}" using assms(2) by (auto simp: cross_cut_def)
  then show ?thesis using False by simp
qed

text \<open>A cut of the network that no cross edge leaves, the direct one apart, cuts off the target.\<close>

lemma cut_separates:
  assumes "root \<noteq> target" and I: "set I = between g target root md" and "SOURCE \<in> B" and "SINK \<notin> B"
    and only: "cross_cut (cross_pairs g target root md) I root target B \<subseteq> {(root, target)}"
  shows "separates g target root md (split_cut I B)"
proof -
  let ?E = "cross_pairs g target root md" and ?C = "split_cut I B"
  have "x = root \<or> x \<in> set I \<and> outID I x \<in> B" if "(root, x) \<in> (indirect g target root md ?C)\<^sup>*" for x
    using that
  proof (induction rule: rtrancl_induct)
    case (step x y)
    have "target \<notin> set I" by (simp add: I between_def)
    with step.IH assms(1) have x: "x \<noteq> target" "from_node I root x \<in> B" using assms(3) by (auto simp: from_node_def)
    from step.hyps(2) have e: "short_edge g target root md x y" "(x, y) \<noteq> (root, target)" "y \<notin> ?C"
      by (simp_all add: indirect_def)
    show ?case
    proof (cases "y = root")
      case False
      then have xy: "(x, y) \<in> ?E" using e(1) x(1) by (simp add: cross_pairs_def)
      then have "to_node I target y \<in> B" using only x(2) e(2) by (auto simp: cross_cut_def)
      then have "y \<noteq> target" "inID I y \<in> B" using assms(4) by (auto simp: to_node_def split: if_splits)
      moreover have "y \<in> set I" using cross_pairs_ends(2) [OF xy] calculation(1) by (simp add: I)
      ultimately show ?thesis using e(3) by (simp add: split_cut_def)
    qed simp
  qed simp
  moreover have "target \<notin> set I" by (simp add: I between_def)
  ultimately show ?thesis using assms(1) by (auto simp: separates_def)
qed

text \<open>Conversely, keys that cut off the target give a cut of the network.\<close>

lemma separates_cut:
  assumes "root \<noteq> target" and I: "set I = between g target root md" "distinct I"
    and C: "root \<notin> C" "target \<notin> C" and sep: "separates g target root md C"
  shows "\<exists>B. cut (2 + 2 * length I) B \<and> split_cut I B \<subseteq> C \<and>
    cross_cut (cross_pairs g target root md) I root target B \<subseteq> {(root, target)}"
proof -
  let ?R = "indirect g target root md C"
  let ?Q = "{x. (root, x) \<in> ?R\<^sup>*}"
  let ?In = "{x \<in> set I. \<exists>y \<in> ?Q. short_edge g target root md y x}"
  let ?B = "insert SOURCE (inID I ` ?In \<union> outID I ` (set I \<inter> ?Q))"
  note nodes = nodes_distinct [OF I(2)]
  have QC: "x \<notin> C" if "x \<in> ?Q" for x
    using that C(1) by (auto elim: rtranclE simp: indirect_def)
  have ext: "y \<in> ?Q" if "x \<in> ?Q" "short_edge g target root md x y" "(x, y) \<noteq> (root, target)" "y \<notin> C" for x y
  proof -
    have "(x, y) \<in> ?R" using that(2-4) QC [OF that(1)] by (simp add: indirect_def)
    then show ?thesis using that(1) by (auto intro: rtrancl_into_rtrancl)
  qed
  have I': "root \<notin> set I" "target \<notin> set I" by (simp_all add: I between_def)
  have inB: "inID I x \<in> ?B \<longleftrightarrow> x \<in> ?In" if "x \<in> set I" for x
    using that nodes(3) nodes(4) [of x] nodes(6) by auto
  have outB: "outID I x \<in> ?B \<longleftrightarrow> x \<in> ?Q" if "x \<in> set I" for x
    using that nodes(3) [symmetric] nodes(5) [of x] nodes(7) by auto
  have "?B \<subseteq> {..<2 + 2 * length I}" using nodes(1,2) by auto
  moreover have "SINK \<notin> ?B" using nodes(4,5) by (auto dest: less_imp_neq)
  ultimately have "cut (2 + 2 * length I) ?B" by (simp add: cut_def)
  moreover have "split_cut I ?B \<subseteq> C"
  proof
    fix x assume "x \<in> split_cut I ?B"
    then have "x \<in> set I \<and> inID I x \<in> ?B \<and> outID I x \<notin> ?B" unfolding split_cut_def by blast
    then have x: "x \<in> set I" "x \<in> ?In" "x \<notin> ?Q" using inB [of x] outB [of x] by metis+
    then obtain y where "y \<in> ?Q" "short_edge g target root md y x" by blast
    with ext [of y x] x(1,3) I'(2) show "x \<in> C" by auto
  qed
  moreover have "p = (root, target)" if "p \<in> cross_cut (cross_pairs g target root md) I root target ?B" for p
  proof -
    obtain x y where p: "p = (x, y)" by fastforce
    with that have xy: "(x, y) \<in> cross_pairs g target root md" "from_node I root x \<in> ?B" "to_node I target y \<notin> ?B"
      by (auto simp: cross_cut_def)
    note ends = cross_pairs_ends [OF xy(1), folded I(1)]
    have s: "short_edge g target root md x y" using xy(1) by (simp add: cross_pairs_def)
    have x: "x \<in> ?Q"
    proof (cases "x = root")
      case False
      then have "x \<in> set I" "outID I x \<in> ?B" using ends(1) xy(2) by (simp_all add: from_node_def)
      then show ?thesis using outB [of x] by metis
    qed simp
    have y: "y = target"
    proof (rule ccontr)
      assume "y \<noteq> target"
      then have "y \<in> set I" "inID I y \<notin> ?B" using ends(2) xy(3) by (simp_all add: to_node_def)
      then show False using inB [of y] x s by blast
    qed
    have "x = root"
    proof (rule ccontr)
      assume "x \<noteq> root"
      then have "target \<in> ?Q" using ext [OF x s] y C(2) by simp
      then show False using sep by (simp add: separates_def)
    qed
    then show ?thesis using p y by simp
  qed
  ultimately show ?thesis by blast
qed

lemma short_direct: "short_edge g target root md root target \<longleftrightarrow> edge g root target \<and> 1 \<le> md"
proof -
  have "\<exists>a b. sig_walk g a root root \<and> sig_walk g b target target \<and> int (a + 1 + b) \<le> md" if "1 \<le> md"
    using that by (intro exI [of _ 0]) simp
  then show ?thesis by (auto simp: short_edge_def)
qed

lemma min_cut_shape:
  assumes "root \<noteq> target" and I: "set I = between g target root md" "distinct I"
    and E: "E = cross_pairs g target root md" "finite E"
    and caps: "\<And>C. cut (2 + 2 * length I) C \<Longrightarrow> out_cap C net =
       int (card (split_cut I C)) + (int (length I) + 2) * int (card (cross_cut E I root target C))"
    and B: "cut (2 + 2 * length I) B" "\<And>C. cut (2 + 2 * length I) C \<Longrightarrow> out_cap B net \<le> out_cap C net"
  shows "cross_cut E I root target B \<subseteq> {(root, target)}"
proof -
  let ?n = "int (length I)" and ?d = "(if (root, target) \<in> E then 1 else 0 :: int)"
  let ?K = "cross_cut E I root target B"
  have I': "root \<notin> set I" "target \<notin> set I" by (simp_all add: I between_def)
  note nodes = nodes_distinct [OF I(2)]
  let ?B0 = "insert SOURCE (inID I ` set I)"
  have B0: "cut (2 + 2 * length I) ?B0" using nodes(1,4) by (auto simp: cut_def dest: less_imp_neq)
  have "split_cut I ?B0 \<subseteq> set I" by (auto simp: split_cut_def)
  then have "int (card (split_cut I ?B0)) \<le> ?n"
    using card_mono [of "set I"] distinct_card [OF I(2)] by (metis List.finite_set of_nat_le_iff)
  moreover have "cross_cut E I root target ?B0 \<subseteq> {(root, target)}"
  proof
    fix p assume p: "p \<in> cross_cut E I root target ?B0"
    obtain x y where xy: "p = (x, y)" by fastforce
    from p have e: "(x, y) \<in> E" "from_node I root x \<in> ?B0" "to_node I target y \<notin> ?B0"
      by (auto simp: cross_cut_def xy)
    have "x = root" using e(2) nodes(3) [symmetric] nodes(5) [of x] by (auto simp: from_node_def split: if_splits)
    moreover have "y = target" using e(3) cross_pairs_ends(2) [OF e(1) [unfolded E(1)]]
      by (auto simp: to_node_def I(1) split: if_splits)
    ultimately show "p \<in> {(root, target)}" by (simp add: xy)
  qed
  then have "int (card (cross_cut E I root target ?B0)) = ?d"
    by (rule card_cross_cut_direct [OF E(2)]) (use B0 in \<open>auto simp: cut_def\<close>)
  ultimately have "out_cap ?B0 net \<le> ?n + (?n + 2) * ?d" using caps [OF B0] by simp
  with B(2) [OF B0] caps [OF B(1)] have le: "(?n + 2) * int (card ?K) < (?n + 2) * (?d + 1)"
    by (simp add: algebra_simps)
  have K: "int (card ?K) \<le> ?d"
  proof (rule ccontr)
    assume "\<not> int (card ?K) \<le> ?d"
    then have "(?n + 2) * (?d + 1) \<le> (?n + 2) * int (card ?K)" by (intro mult_left_mono) auto
    then show False using le by linarith
  qed
  have fin: "finite ?K" using E(2) by (rule rev_finite_subset) (auto simp: cross_cut_def)
  show ?thesis
  proof (cases "(root, target) \<in> E")
    case True
    then have "{(root, target)} \<subseteq> ?K" using B(1) by (auto simp: cross_cut_def from_node_def to_node_def cut_def)
    moreover have "card ?K \<le> card {(root, target)}" using K True by simp
    ultimately show ?thesis using card_seteq [OF fin] by blast
  next
    case False
    then show ?thesis using K fin by simp
  qed
qed

lemma DisjointScore_cut:
  assumes g: "graph_ok g" and ne: "root \<noteq> target"
  shows "\<exists>k. DisjointScore g target root md =
      Some (int k + (if edge g root target \<and> 1 \<le> md then int (card (between g target root md)) + 2 else 0)) \<and>
    (\<exists>C \<subseteq> between g target root md. card C = k \<and> separates g target root md C) \<and>
    (\<forall>C. finite C \<longrightarrow> root \<notin> C \<longrightarrow> target \<notin> C \<longrightarrow> separates g target root md C \<longrightarrow> k \<le> card C)"
proof -
  define F where "F = dist_bfs (turn_round g []) (Some md) [(root, 0)] [root]"
  define B where "B = dist_bfs (turn_round (turn_round g []) []) None [(target, 0)] [target]"
  define I where "I = intermediates_of F B target root md"
  define E where "E = cross_pairs g target root md"
  define net where "net = add_edges (split_edges I @ cross_edges (turn_round g []) F B I target root md)
    (replicate (2 + 2 * length I) [])"
  have ok: "dists_ok g target root md F B" unfolding F_def B_def by (rule searches_ok [OF g])
  note I = intermediates [OF ok, folded I_def]
  have n: "length I = card (between g target root md)" using distinct_card [OF I(2)] by (simp add: I(1))
  show ?thesis
  proof (cases "mget F target = None")
    case True
    have short: "\<not> short_edge g target root md x y" for x y
    proof
      assume "short_edge g target root md x y"
      then obtain a b where "edge g x y" "sig_walk g a root x" "sig_walk g b y target" "int (a + 1 + b) \<le> md"
        by (auto simp: short_edge_def)
      then have "sig_walk g (Suc a) root y" unfolding sig_walk_snoc by blast
      from sig_walk_append [OF this \<open>sig_walk g b y target\<close>] have "sig_walk g (Suc a + b) root target" .
      moreover have "int (Suc a + b + 0 + 0) \<le> md" using \<open>int (a + 1 + b) \<le> md\<close> by simp
      ultimately have "\<exists>d1 d2. mget F target = Some d1 \<and> mget B target = Some d2 \<and> d1 + int 0 + d2 \<le> md"
        using short_sum [OF ok, of target target 0] sig_walk.simps(1) [of g target target] by blast
      then show False using True by simp
    qed
    then have "indirect g target root md {} = {}" by (auto simp: indirect_def)
    then have "separates g target root md {}" using ne by (simp add: separates_def)
    moreover have "DisjointScore g target root md = Some (int 0)"
      unfolding DisjointScore_def disjointMaxFlow_def Let_def F_def [symmetric] using ne True by simp
    moreover have nd: "\<not> (edge g root target \<and> 1 \<le> md)" using short short_direct by blast
    moreover have "{} \<subseteq> between g target root md \<and> card ({} :: string set) = 0" by simp
    ultimately show ?thesis unfolding if_not_P [OF nd] add_0_right by (metis le0)
  next
    case False
    note net = score_net [OF g ne ok I_def net_def E_def]
    obtain v C where v: "ek_loop net 0 = Some v" "cut (length net) C" "v = out_cap C net"
      "\<And>C. cut (length net) C \<Longrightarrow> v \<le> out_cap C net"
      using ek_loop_min_cut [OF net(1), of 0] net(2) by auto
    have "DisjointScore g target root md = Some v"
      unfolding DisjointScore_def disjointMaxFlow_def Let_def
        F_def [symmetric] B_def [symmetric] I_def [symmetric] net_def [symmetric]
      using ne False v(1) by (simp del: not_None_eq)
    moreover have only: "cross_cut E I root target C \<subseteq> {(root, target)}"
      by (rule min_cut_shape [OF ne I E_def net(3), of net]) (use net(2,4) v in auto)
    have direct: "(root, target) \<in> E \<longleftrightarrow> edge g root target \<and> 1 \<le> md"
      using ne by (simp add: E_def cross_pairs_def short_direct)
    have amount: "v = int (card (split_cut I C)) + (int (length I) + 2) * (if (root, target) \<in> E then 1 else 0)"
      using net(4) [OF v(2)] v(2,3) card_cross_cut_direct [OF net(3) only] by (simp add: cut_def)
    moreover have "split_cut I C \<subseteq> between g target root md" by (auto simp: split_cut_def I(1))
    moreover have "separates g target root md (split_cut I C)"
      by (rule cut_separates [OF ne I(1)]) (use v(2) only in \<open>auto simp: cut_def E_def\<close>)
    moreover have "card (split_cut I C) \<le> card D"
      if D: "finite D" "root \<notin> D" "target \<notin> D" "separates g target root md D" for D
    proof -
      obtain A where A: "cut (2 + 2 * length I) A" "split_cut I A \<subseteq> D" "cross_cut E I root target A \<subseteq> {(root, target)}"
        using separates_cut [OF ne I D(2-4)] unfolding E_def by blast
      have "v \<le> int (card (split_cut I A)) + (int (length I) + 2) * (if (root, target) \<in> E then 1 else 0)"
        using v(4) [of A] net(2) net(4) [of A] A(1) card_cross_cut_direct [OF net(3) A(3)] by (simp add: cut_def)
      moreover have "card (split_cut I A) \<le> card D" by (rule card_mono [OF D(1) A(2)])
      ultimately show ?thesis using amount by linarith
    qed
    ultimately show ?thesis
      unfolding direct n by (intro exI [of _ "card (split_cut I C)"] conjI) auto
  qed
qed

lemma finite_between:
  assumes "graph_ok g" shows "finite (between g target root md)"
  using intermediates(1) [OF searches_ok [OF assms]] by (metis List.finite_set)

section \<open>Chains of signatures and cuts\<close>

lemma sig_path_walk: "sig_path g (x # p) \<Longrightarrow> sig_walk g (length p) (last (x # p)) x"
proof (induction p arbitrary: x)
  case (Cons y p)
  then have "sig_walk g (length p) (last (y # p)) y" "edge g y x" by auto
  then show ?case unfolding length_Cons sig_walk_snoc by auto
qed simp

lemma walk_sig_path:
  "sig_walk g n x y \<Longrightarrow> \<exists>p. p \<noteq> [] \<and> hd p = y \<and> last p = x \<and> sig_path g p \<and> length p = Suc n"
proof (induction n arbitrary: y)
  case 0
  then show ?case by (intro exI [of _ "[y]"]) simp
next
  case (Suc n)
  then obtain z p where "edge g z y" "p \<noteq> []" "hd p = z" "last p = x" "sig_path g p" "length p = Suc n"
    unfolding sig_walk_snoc by blast
  then show ?case by (intro exI [of _ "y # p"]) (cases p; simp)
qed

lemma sig_path_short_edge:
  assumes "sig_path g (xs @ x # y # ys)" and "hd (xs @ [x]) = target" and "last (y # ys) = root"
    and "int (length (xs @ x # y # ys)) \<le> md + 1"
  shows "short_edge g target root md y x"
proof -
  have split: "sig_path g (xs @ [x])" "sig_path g (x # y # ys)"
    using assms(1) sig_path_split [of g xs x "y # ys"] by simp_all
  then have "edge g y x" "sig_walk g (length ys) root y" using sig_path_walk [of g y ys] assms(3) by simp_all
  moreover obtain z zs where z: "xs @ [x] = z # zs" by (cases "xs @ [x]") auto
  have "length zs = length xs" using arg_cong [OF z, of length] by simp
  moreover have "sig_walk g (length zs) x target"
  proof -
    have "last (z # zs) = x" using z by (metis last_snoc)
    moreover have "z = target" using assms(2) by (simp add: z)
    ultimately show ?thesis using sig_path_walk [of g z zs] split(1) by (simp only: z)
  qed
  ultimately show ?thesis
    using assms(4) unfolding short_edge_def
    by (intro conjI exI [of _ "length ys"] exI [of _ "length zs"]) auto
qed

text \<open>A chain other than the direct signature meets every set of keys that cuts off the target.\<close>

lemma trust_path_meets:
  assumes p: "p \<in> trust_paths g target root md" and "p \<noteq> [target, root]"
    and sep: "separates g target root md C" and C: "root \<notin> C" "target \<notin> C"
  shows "\<exists>x \<in> set p. x \<in> C"
proof (rule ccontr)
  assume "\<not> (\<exists>x \<in> set p. x \<in> C)"
  then have avoid: "\<forall>x \<in> set p. x \<notin> C" by blast
  note p' = p [unfolded trust_paths_def, simplified]
  have "(root, x) \<in> (indirect g target root md C)\<^sup>*" if "p = xs @ x # ys" for xs x ys
    using that
  proof (induction ys arbitrary: xs x)
    case Nil
    then show ?case using p' by simp
  next
    case (Cons y ys)
    have "(root, y) \<in> (indirect g target root md C)\<^sup>*" by (rule Cons.IH [of "xs @ [x]"]) (simp add: Cons.prems)
    moreover have "short_edge g target root md y x"
      by (rule sig_path_short_edge) (use p' in \<open>auto simp: Cons.prems hd_append\<close>)
    moreover have "(y, x) \<noteq> (root, target)"
    proof
      assume "(y, x) = (root, target)"
      moreover from this have "xs = []" using p' by (cases xs) (auto simp: Cons.prems)
      moreover from calculation have "ys = []" using p' by (cases ys rule: rev_cases) (auto simp: Cons.prems)
      ultimately show False using assms(2) Cons.prems by simp
    qed
    moreover have "x \<notin> C" "y \<notin> C" using avoid by (simp_all add: Cons.prems)
    ultimately show ?case by (auto simp: indirect_def intro: rtrancl_into_rtrancl)
  qed
  moreover have "p = [] @ target # tl p" using p' by (metis append_Nil list.collapse)
  ultimately show False using sep unfolding separates_def by blast
qed

lemma no_trust_path_separates:
  assumes "root \<noteq> target" and none: "\<not> (\<exists>n. sig_walk g n root target \<and> int n \<le> md)"
  shows "separates g target root md {}"
proof -
  have "\<not> short_edge g target root md x y" for x y
  proof
    assume "short_edge g target root md x y"
    then obtain a b where w: "edge g x y" "sig_walk g a root x" "sig_walk g b y target" "int (a + 1 + b) \<le> md"
      by (auto simp: short_edge_def)
    then have "sig_walk g (Suc a) root y" unfolding sig_walk_snoc by blast
    from sig_walk_append [OF this w(3)] have "sig_walk g (a + 1 + b) root target" by (simp only: Suc_eq_plus1)
    then show False using none w(4) by blast
  qed
  then have "indirect g target root md {} = {}" by (auto simp: indirect_def)
  then show ?thesis using assms(1) by (simp add: separates_def)
qed

lemma Score_pos_walk:
  assumes "graph_ok g" and "root \<noteq> target"
  shows "1 \<le> Score g target root md \<longleftrightarrow> (\<exists>n. sig_walk g n root target \<and> int n \<le> md)"
proof -
  have "(\<exists>p. p \<noteq> [] \<and> hd p = target \<and> last p = root \<and> sig_path g p \<and> int (length p) \<le> md + 1) \<longleftrightarrow>
      (\<exists>n. sig_walk g n root target \<and> int n \<le> md)"
  proof
    assume "\<exists>p. p \<noteq> [] \<and> hd p = target \<and> last p = root \<and> sig_path g p \<and> int (length p) \<le> md + 1"
    then obtain p where "sig_path g (target # p)" "last (target # p) = root" "int (length p) \<le> md"
      by (metis add_le_cancel_right int_Suc length_Cons list.exhaust_sel)
    then show "\<exists>n. sig_walk g n root target \<and> int n \<le> md" using sig_path_walk [of g target p] by auto
  next
    assume "\<exists>n. sig_walk g n root target \<and> int n \<le> md"
    then show "\<exists>p. p \<noteq> [] \<and> hd p = target \<and> last p = root \<and> sig_path g p \<and> int (length p) \<le> md + 1"
      using walk_sig_path by fastforce
  qed
  then show ?thesis by (simp add: Score_pos_iff [OF assms])
qed

section \<open>Properties\<close>

text \<open>
  C10.  \<open>DisjointScore\<close> returns, and returns the size of a smallest cut of the network it searches.
  That network is made of the signatures that lie on some walk from root to target within the
  depth (\<open>short_edge\<close>), but a chain through it may be longer than the depth.  There is a set of
  that many intermediate keys that every chain of such signatures from root to target meets, of
  whatever length, and no smaller set of keys has that property.  A direct signature of the root
  cannot be cut; it adds its capacity, which is the number of intermediate keys plus two.  So the
  score can exceed the number of disjoint chains within the depth that the comment on the
  function promises (\<open>disjoint_score_beyond_depth\<close>).
\<close>

theorem DisjointScore_min_cut:
  assumes "root \<noteq> target"
  shows "\<exists>k. DisjointScore (Build blocks) target root md =
      Some (int k + (if edge (Build blocks) root target \<and> 1 \<le> md
        then int (card (between (Build blocks) target root md)) + 2 else 0)) \<and>
    (\<exists>C \<subseteq> between (Build blocks) target root md. card C = k \<and> separates (Build blocks) target root md C) \<and>
    (\<forall>C. finite C \<longrightarrow> root \<notin> C \<longrightarrow> target \<notin> C \<longrightarrow> separates (Build blocks) target root md C \<longrightarrow> k \<le> card C)"
  by (rule DisjointScore_cut [OF graph_ok_Build assms])

lemma DisjointScore_sample: "DisjointScore (Build sample_ledger) ''D'' ''A'' 2 = Some 2"
  by code_simp

lemma edge_sample: "\<not> edge (Build sample_ledger) ''A'' ''D''"
  by (simp add: Build_sample edge_def signers_def mget_def)

theorem DisjointScore_min_cut_witness:
  "\<exists>C. card C = 2 \<and> separates (Build sample_ledger) ''D'' ''A'' 2 C"
  using DisjointScore_min_cut [of "''A''" "''D''" sample_ledger 2] DisjointScore_sample edge_sample by auto

text \<open>
  Here the chain through \<open>1\<close> to \<open>5\<close> has six signatures, each of them on a walk of five by way of
  \<open>S\<close>.  At depth 5 the score is 2, though every chain of signatures within the depth meets \<open>S\<close>.
\<close>

definition long_ledger :: "Block list" where
  "long_ledger =
     [sample_block ''R'' [] False, sample_block ''S'' [''R'', ''1'', ''2'', ''3'', ''4'', ''5''] False,
      sample_block ''1'' [''R'', ''S''] False, sample_block ''2'' [''1'', ''S''] False,
      sample_block ''3'' [''2'', ''S''] False, sample_block ''4'' [''3'', ''S''] False,
      sample_block ''5'' [''4'', ''S''] False, sample_block ''T'' [''5'', ''S''] False]"

lemma sig_path_signer: "sig_path g (x # q) \<Longrightarrow> last (x # q) \<noteq> x \<Longrightarrow> \<exists>y r. q = y # r \<and> y \<in> set (signers g x) \<and> sig_path g q"
  by (cases q) (auto simp: edge_def)

lemma disjoint_score_beyond_depth:
  "DisjointScore (Build long_ledger) ''T'' ''R'' 5 = Some 2 \<and>
   (\<forall>p \<in> trust_paths (Build long_ledger) ''T'' ''R'' 5. ''S'' \<in> set p)"
proof (intro conjI ballI, code_simp, rule ccontr)
  let ?g = "Build long_ledger"
  have signers: "signers ?g ''T'' = [''5'', ''S'']" "signers ?g ''5'' = [''4'', ''S'']" "signers ?g ''4'' = [''3'', ''S'']"
    "signers ?g ''3'' = [''2'', ''S'']" "signers ?g ''2'' = [''1'', ''S'']" "signers ?g ''1'' = [''R'', ''S'']"
    by code_simp+
  fix p assume p: "p \<in> trust_paths ?g ''T'' ''R'' 5" "''S'' \<notin> set p"
  then have p': "p \<noteq> []" "hd p = ''T''" "last p = ''R''" "sig_path ?g p" "length p \<le> 6"
    by (auto simp: trust_paths_def)
  then obtain q where q: "p = ''T'' # q" by (cases p) auto
  note step = sig_path_signer [of ?g]
  from step [of "''T''" q] p' p(2) q signers(1) obtain q1 where q1: "q = ''5'' # q1" "sig_path ?g q" by auto
  from step [of "''5''" q1] p' p(2) q q1 signers(2) obtain q2 where q2: "q1 = ''4'' # q2" "sig_path ?g q1" by auto
  from step [of "''4''" q2] p' p(2) q q1 q2 signers(3) obtain q3 where q3: "q2 = ''3'' # q3" "sig_path ?g q2" by auto
  from step [of "''3''" q3] p' p(2) q q1 q2 q3 signers(4) obtain q4 where q4: "q3 = ''2'' # q4" "sig_path ?g q3" by auto
  from step [of "''2''" q4] p' p(2) q q1 q2 q3 q4 signers(5) obtain q5 where q5: "q4 = ''1'' # q5" "sig_path ?g q4" by auto
  from step [of "''1''" q5] p' p(2) q q1 q2 q3 q4 q5 signers(6) obtain q6 where "q5 = ''R'' # q6" by auto
  with p'(5) q q1 q2 q3 q4 q5 show False by simp
qed

text \<open>
  Independent chains are never undercounted: of chains of signatures from the target
  back to the root within the depth, of which no two share a key between, there are at most
  \<open>DisjointScore\<close>.
\<close>

lemma disjoint_chains_bound:
  assumes "root \<noteq> target" and "P \<subseteq> trust_paths (Build blocks) target root md"
    and "\<forall>p \<in> P. \<forall>q \<in> P. p \<noteq> q \<longrightarrow> set p \<inter> set q \<subseteq> {root, target}"
  shows "\<exists>s. DisjointScore (Build blocks) target root md = Some s \<and> int (card P) \<le> s"
proof -
  let ?d = "[target, root]"
  obtain k C where k: "DisjointScore (Build blocks) target root md =
      Some (int k + (if edge (Build blocks) root target \<and> 1 \<le> md
        then int (card (between (Build blocks) target root md)) + 2 else 0))"
    and C: "C \<subseteq> between (Build blocks) target root md" "card C = k" "separates (Build blocks) target root md C"
    using DisjointScore_cut [OF graph_ok_Build assms(1), of blocks md] by blast
  have C': "root \<notin> C" "target \<notin> C" using C(1) by (auto simp: between_def)
  have finC: "finite C" by (rule finite_subset [OF C(1) finite_between [OF graph_ok_Build]])
  have finP: "finite P" by (rule finite_subset [OF assms(2) finite_trust_paths [OF assms(1)]])
  have "\<forall>p \<in> P - {?d}. \<exists>x. x \<in> set p \<and> x \<in> C"
    using trust_path_meets [OF _ _ C(3) C'] assms(2) by blast
  then obtain f where f: "\<forall>p \<in> P - {?d}. f p \<in> set p \<and> f p \<in> C" by metis
  have "inj_on f (P - {?d})"
  proof (rule inj_onI, rule ccontr)
    fix p q assume pq: "p \<in> P - {?d}" "q \<in> P - {?d}" "f p = f q" "p \<noteq> q"
    then have "f p \<in> set p" "f p \<in> set q" "f p \<in> C" using f bspec [OF f pq(1)] bspec [OF f pq(2)] by simp_all
    then show False using assms(3) pq(1,2,4) C' by blast
  qed
  moreover have "f ` (P - {?d}) \<subseteq> C" using f by blast
  ultimately have le: "card (P - {?d}) \<le> k" using card_inj_on_le finC C(2) by blast
  show ?thesis
  proof (cases "?d \<in> P")
    case True
    then have "edge (Build blocks) root target \<and> 1 \<le> md" using assms(2) by (auto simp: trust_paths_def)
    moreover have "card P = Suc (card (P - {?d}))" using card_Suc_Diff1 [OF finP True] by simp
    ultimately show ?thesis using k le by simp
  next
    case False
    then show ?thesis using k le by auto
  qed
qed

lemma disjoint_chains_bound_witness:
  "card {[''D'', ''B'', ''A''], [''D'', ''C'', ''A'']} = 2 \<and>
   (\<exists>s. DisjointScore (Build sample_ledger) ''D'' ''A'' 2 = Some s \<and> 2 \<le> s)"
proof -
  let ?P = "{[''D'', ''B'', ''A''], [''D'', ''C'', ''A'']} :: string list set"
  have "?P \<subseteq> trust_paths (Build sample_ledger) ''D'' ''A'' 2"
    by (simp add: trust_paths_def Build_sample edge_def signers_def mget_def)
  then have "\<exists>s. DisjointScore (Build sample_ledger) ''D'' ''A'' 2 = Some s \<and> int (card ?P) \<le> s"
    by (intro disjoint_chains_bound) auto
  then show ?thesis by simp
qed

text \<open>
  At threshold 1 the two scores agree: \<open>DisjointIsTrusted\<close> returns, and it accepts exactly
  the keys that \<open>IsTrusted\<close> accepts.
\<close>

lemma DisjointIsTrusted_one:
  "DisjointIsTrusted (Build blocks) target root md 1 = Some (IsTrusted (Build blocks) target root md 1)"
proof (cases "root = target")
  case True
  then show ?thesis by (simp add: DisjointIsTrusted_def DisjointScore_def IsTrusted_def Score_def)
next
  case False
  let ?g = "Build blocks"
  obtain k C where k: "DisjointScore ?g target root md =
      Some (int k + (if edge ?g root target \<and> 1 \<le> md then int (card (between ?g target root md)) + 2 else 0))"
    and C: "C \<subseteq> between ?g target root md" "card C = k" "separates ?g target root md C"
    and least: "\<And>C. finite C \<Longrightarrow> root \<notin> C \<Longrightarrow> target \<notin> C \<Longrightarrow> separates ?g target root md C \<Longrightarrow> k \<le> card C"
    using DisjointScore_cut [OF graph_ok_Build False, of blocks md] by blast
  note pos = Score_pos_walk [OF graph_ok_Build False, of blocks md]
  have "IsTrusted ?g target root md 1 \<longleftrightarrow> 1 \<le> k \<or> edge ?g root target \<and> 1 \<le> md"
  proof
    assume "IsTrusted ?g target root md 1"
    then have "trust_paths ?g target root md \<noteq> {}"
      using finite_trust_paths [OF False, of ?g md] by (auto simp: IsTrusted_def Score_card [OF graph_ok_Build False])
    then obtain p where p: "p \<in> trust_paths ?g target root md" by blast
    show "1 \<le> k \<or> edge ?g root target \<and> 1 \<le> md"
    proof (cases "p = [target, root]")
      case True
      then show ?thesis using p by (simp add: trust_paths_def)
    next
      case False
      then have "C \<noteq> {}" using trust_path_meets [OF p False C(3)] C(1) by (auto simp: between_def)
      moreover have "finite C" by (rule finite_subset [OF C(1) finite_between [OF graph_ok_Build]])
      ultimately show ?thesis using C(2) by (metis card_0_eq less_one not_le)
    qed
  next
    assume pos': "1 \<le> k \<or> edge ?g root target \<and> 1 \<le> md"
    have "\<exists>n. sig_walk ?g n root target \<and> int n \<le> md"
    proof (rule ccontr)
      assume none: "\<not> (\<exists>n. sig_walk ?g n root target \<and> int n \<le> md)"
      then have "k = 0" using least [of "{}"] no_trust_path_separates [OF False] by simp
      moreover have "\<not> (edge ?g root target \<and> 1 \<le> md)" using none [simplified, rule_format, of 1] by auto
      ultimately show False using pos' by simp
    qed
    then show "IsTrusted ?g target root md 1" using pos by (simp add: IsTrusted_def)
  qed
  then show ?thesis using k by (auto simp: DisjointIsTrusted_def)
qed

text \<open>
  C36.  A direct signature counts more than once: when the root itself signed the target, the
  score is at least 2, although one chain of signatures is all there need be.
\<close>

theorem direct_signature_counts_twice:
  assumes "edge (Build blocks) root target" and "root \<noteq> target" and "1 \<le> md"
  shows "\<exists>s \<ge> 2. DisjointScore (Build blocks) target root md = Some s"
  using DisjointScore_cut [OF graph_ok_Build assms(2), of blocks md] assms(1,3) by auto

theorem direct_signature_counts_twice_witness:
  "Score (Build [sample_block ''A'' [] False, sample_block ''B'' [''A''] False]) ''B'' ''A'' 5 = 1 \<and>
   (\<exists>s \<ge> 2. DisjointScore (Build [sample_block ''A'' [] False, sample_block ''B'' [''A''] False]) ''B'' ''A'' 5 = Some s)"
proof -
  have g: "Build [sample_block ''A'' [] False, sample_block ''B'' [''A''] False] = [(''A'', []), (''B'', [''A''])]"
    by code_simp
  have "Score [(''A'', []), (''B'', [''A''])] ''B'' ''A'' 5 = 1"
    by (simp add: Score_def countPaths_def signers_def mget_def)
  moreover have "edge [(''A'', []), (''B'', [''A''])] ''A'' ''B''" by (simp add: edge_def signers_def mget_def)
  ultimately show ?thesis
    using direct_signature_counts_twice [of "[sample_block ''A'' [] False, sample_block ''B'' [''A''] False]" "''A''" "''B''" 5]
    by (simp add: g)
qed

end
