(* ===== verification/Ledger.thy ===== *)
theory Ledger
  imports Safety
begin

text \<open>
  The ledger as its users see it, and that a node implements it: a map from fingerprints to
  accounts which changes in three ways only.  A key that passes the checks opens an account, an
  entry that verifies is recorded on an account, an account is revoked with a signature that
  verifies.  Both stores, under any interleaving of requests and goroutines, make only such moves.
\<close>

section \<open>The abstract ledger\<close>

text \<open>What is recorded about a key.  The order of the entries is a matter of the stores.\<close>

record account =
  acKey :: string
  acHash :: string
  acSubmitted :: int64
  acSelfSig :: string
  acEntries :: "SigEntry set"
  acRevocation :: "string option"

type_synonym accounts = "string \<Rightarrow> account option"

definition open_account :: "lib \<Rightarrow> string \<Rightarrow> string \<Rightarrow> int64 \<Rightarrow> string \<Rightarrow> account" where
  "open_account L fp k ts sig =
     \<lparr>acKey = k, acHash = ComputeBlockHash (Sum256 L) fp k sig, acSubmitted = ts, acSelfSig = sig,
      acEntries = {}, acRevocation = None\<rparr>"

text \<open>The keys under which a signature may be verified: the one it brings, else its signer's.\<close>

definition key_for :: "accounts \<Rightarrow> SigEntry \<Rightarrow> string option" where
  "key_for l e = (if seSignerKey e \<noteq> [] then Some (seSignerKey e) else map_option acKey (l (seSigner e)))"

inductive ledger_step :: "lib \<Rightarrow> config \<Rightarrow> accounts \<Rightarrow> accounts \<Rightarrow> bool"
  for L :: lib and cfg :: config where
  publish: "l fp = None \<Longrightarrow> ParseArmoredKey L k = Inr (fp, uids) \<Longrightarrow> key_allowed L cfg uids \<Longrightarrow>
    CheckKeyStrength L k = None \<Longrightarrow> VerifyDetachedSig L now (SubmitPayload L fp k ts) sig k \<Longrightarrow>
    ledger_step L cfg l (l(fp \<mapsto> open_account L fp k ts sig))"
| endorse: "l fp = Some a \<Longrightarrow> key_for l e = Some k \<Longrightarrow> entry_hash_ok (Sum256 L) e \<Longrightarrow>
    VerifyDetachedSig L now (TrustPayload (acHash a) (seSigner e) (seTimestamp e)) (seSig e) k \<Longrightarrow>
    ledger_step L cfg l (l(fp \<mapsto> a\<lparr>acEntries := insert e (acEntries a)\<rparr>))"
| revoke: "l fp = Some a \<Longrightarrow> VerifyDetachedSig L now (RevokePayload fp (acHash a)) sig (acKey a) \<Longrightarrow>
    ledger_step L cfg l (l(fp \<mapsto> a\<lparr>acRevocation := Some sig\<rparr>))"

inductive_cases ledger_stepE: "ledger_step L cfg l l'"

definition account_of :: "SigEntry set \<Rightarrow> Block \<Rightarrow> account" where
  "account_of es b =
     \<lparr>acKey = bArmoredKey b, acHash = bHash b, acSubmitted = bSubmitTimestamp b, acSelfSig = bSelfSig b,
      acEntries = es, acRevocation = (if bRevoked b then Some (bRevocationSig b) else None)\<rparr>"

definition accounts_of :: "(string \<Rightarrow> Block option) \<Rightarrow> (string \<Rightarrow> SigEntry set) \<Rightarrow> accounts" where
  "accounts_of l st fp = map_option (account_of (st fp)) (l fp)"

lemma accounts_of_simps [simp]:
  "accounts_of l st fp = None \<longleftrightarrow> l fp = None"
  "l fp = Some b \<Longrightarrow> accounts_of l st fp = Some (account_of (st fp) b)"
  by (simp_all add: accounts_of_def)

lemma account_of_upds:
  "account_of es (revoked_block b sig) = (account_of es b)\<lparr>acRevocation := Some sig\<rparr>"
  "account_of (insert e es) (b\<lparr>bSigEntries := xs, bSigChainHead := h\<rparr>) =
     (account_of es b)\<lparr>acEntries := insert e es\<rparr>"
  by (simp_all add: account_of_def revoked_block_def)

lemma accounts_of_upd:
  "accounts_of (l(fp \<mapsto> b)) (st(fp := es)) = (accounts_of l st)(fp \<mapsto> account_of es b)"
  "accounts_of (l(fp \<mapsto> b)) st = (accounts_of l st)(fp \<mapsto> account_of (st fp) b)"
  by (auto simp: accounts_of_def fun_eq_iff)

text \<open>A verified key, entry or revocation is a move of the ledger.\<close>

lemma publish_block:
  assumes "l (bFingerprint b) = None" and "block_valid L cfg b" and "\<not> bRevoked b"
  shows "ledger_step L cfg l (l(bFingerprint b \<mapsto> account_of {} b))"
proof -
  have "account_of {} b = open_account L (bFingerprint b) (bArmoredKey b) (bSubmitTimestamp b) (bSelfSig b)"
    using assms(2,3) by (simp add: account_of_def open_account_def block_valid_def block_hash_ok_def)
  with assms show ?thesis by (auto simp: block_valid_def intro: publish)
qed

lemma endorse_entry:
  assumes "l fp = Some b" and "entry_valid L (blocks_of l) b e"
  shows "ledger_step L cfg (accounts_of l st)
    ((accounts_of l st)(fp \<mapsto> (account_of (st fp) b)\<lparr>acEntries := insert e (st fp)\<rparr>))"
proof -
  from assms(2) obtain now k where k: "signer_key (blocks_of l) e k" "entry_hash_ok (Sum256 L) e"
    "VerifyDetachedSig L now (TrustPayload (bHash b) (seSigner e) (seTimestamp e)) (seSig e) k"
    by (auto simp: entry_valid_def)
  from k(1) have "key_for (accounts_of l st) e = Some k"
    by (auto simp: key_for_def signer_key_def blocks_of_def account_of_def split: if_splits)
  from endorse [of "accounts_of l st" fp "account_of (st fp) b", OF _ this k(2)] assms(1) k(3)
  show ?thesis by (simp add: account_of_def)
qed

section \<open>A node implements it\<close>

context store_contract begin

abbreviation accounts :: "'s \<Rightarrow> accounts" where
  "accounts s \<equiv> accounts_of (ledger s) (stored s)"

lemma Add_accounts:
  assumes "inv s" and "block_valid L cfg b" and "new_block b" and "opAdd ops b s = (r, s')"
  shows "(ledger_step L cfg)\<^sup>=\<^sup>= (accounts s) (accounts s')"
proof (cases r)
  case None
  then have none: "ledger s (bFingerprint b) = None"
    using Add_dup assms by (metis option.distinct(1) prod.inject)
  have "account_of {} (norm b) = account_of {} b"
    by (simp add: account_of_def norm_core)
  with none Add_ok [OF assms(1,3)] assms(4) None unstored [OF assms(1) none]
  have "accounts s' = (accounts s)(bFingerprint b \<mapsto> account_of {} b)"
    by (simp add: accounts_of_upd)
  with publish_block [of "accounts s" b, OF _ assms(2)] assms(3) none show ?thesis
    by (simp add: new_block_def)
next
  case (Some err)
  with Add_err [OF assms(1)] assms(4) show ?thesis by blast
qed

lemma AddSig_accounts:
  assumes "inv s" and "known (ledger s) K" and "\<exists>b \<in> K. bFingerprint b = fp \<and> entry_valid L K b e"
    and "okE e" and "opAddSig ops fp e s = (r, s')"
  shows "(ledger_step L cfg)\<^sup>=\<^sup>= (accounts s) (accounts s')"
proof -
  from assms(2,3) obtain b b0 where b: "ledger s fp = Some b" "core b = core b0" "entry_valid L K b0 e"
    unfolding known_def by blast
  have valid: "entry_valid L (blocks_of (ledger s)) b e"
    by (rule entry_valid_core [OF b(3) assms(2) b(2)]) (rule key [OF assms(1)])
  show ?thesis
  proof (cases r)
    case None
    with AddSig_ok [OF assms(1) b(1) assms(4)] assms(5) obtain es where
      "ledger s' = (ledger s)(fp \<mapsto> b\<lparr>bSigEntries := es, bSigChainHead := seHash e\<rparr>)"
      "stored s' = (stored s)(fp := insert e (stored s fp))" by blast
    then have "accounts s' = (accounts s)(fp \<mapsto> (account_of (stored s fp) b)\<lparr>acEntries := insert e (stored s fp)\<rparr>)"
      by (simp only: accounts_of_upd(1) account_of_upds)
    with endorse_entry [where st = "stored s", OF b(1) valid] show ?thesis by simp
  next
    case (Some err)
    with AddSig_err [OF assms(1) b(1)] assms(5) show ?thesis by blast
  qed
qed

lemma Revoke_accounts:
  assumes "inv s" and "known (ledger s) K" and "\<exists>b \<in> K. bFingerprint b = fp \<and> revocation_valid L b sig"
    and "opRevoke ops fp sig s = (r, s')"
  shows "(ledger_step L cfg)\<^sup>=\<^sup>= (accounts s) (accounts s')"
proof -
  from assms(2,3) obtain b b0 where b: "ledger s fp = Some b" "core b = core b0" "revocation_valid L b0 sig"
    unfolding known_def by blast
  then obtain now where "VerifyDetachedSig L now (RevokePayload (bFingerprint b) (bHash b)) sig (bArmoredKey b)"
    by (auto simp: revocation_valid_def)
  then have now: "VerifyDetachedSig L now (RevokePayload fp (bHash b)) sig (bArmoredKey b)"
    using key [OF assms(1) b(1)] by simp
  from Revoke [OF assms(1) b(1), of sig] assms(4)
  have "accounts s' = (accounts s)(fp \<mapsto> (account_of (stored s fp) b)\<lparr>acRevocation := Some sig\<rparr>)"
    by (auto simp: accounts_of_upd account_of_upds)
  with revoke [of "accounts s" fp "account_of (stored s fp) b" L now sig cfg] b(1) now show ?thesis
    by (simp add: account_of_def)
qed

lemma act_accounts:
  assumes "act ops p s p' s'" and "safe L cfg K p" and "known (ledger (nStore s)) K"
    and "inv (nStore s)" and "ok_call okE p"
  shows "(ledger_step L cfg)\<^sup>=\<^sup>= (accounts (nStore s)) (accounts (nStore s'))"
  using assms(1)
proof cases
  case (Add b r st k)
  with assms Add_accounts [of "nStore s" L cfg b r st] show ?thesis by simp
next
  case (AddSig fp e r st k)
  with assms AddSig_accounts [of "nStore s" K fp L e r st cfg] show ?thesis by simp
next
  case (Revoke fp sig r st k)
  with assms Revoke_accounts [of "nStore s" K fp L sig r st cfg] show ?thesis by simp
qed simp_all

lemma step_accounts:
  assumes "step ops n L cfg okE c c'" and "sys_inv L cfg c"
  shows "(ledger_step L cfg)\<^sup>=\<^sup>= (accounts (nStore (fst c))) (accounts (nStore (fst c')))"
  using assms(1)
proof cases
  case (handler p s p' s' ts us)
  with assms(2) act_accounts [of p s p' s' L cfg] show ?thesis by (auto simp: sys_inv_def)
next
  case (goroutine q s q' s' ts us)
  with assms(2) act_accounts [of q s q' s' L cfg] show ?thesis by (auto simp: sys_inv_def)
qed simp_all

lemma reach_accounts:
  assumes "reach ops n L cfg okE c c'" and "sys_inv L cfg c" and "wired cfg"
  shows "(ledger_step L cfg)\<^sup>*\<^sup>* (accounts (nStore (fst c))) (accounts (nStore (fst c')))"
  using assms
proof (induction rule: reach.induct)
  case (reach_step c c' c'')
  from reach_step.hyps(1) reach_step.prems have "sys_inv L cfg c'" by (blast dest: reach_valid)
  from step_accounts [OF reach_step.hyps(2) this] reach_step show ?case
    by (auto intro: rtranclp.rtrancl_into_rtrancl)
qed simp

end

section \<open>What the tables never take back\<close>

text \<open>
  No row of the database is ever removed: a row of \<open>blocks\<close> keeps the columns it was submitted
  with and stays revoked, a row of \<open>sig_entries\<close> never changes.
\<close>

definition row_grows :: "block_row \<Rightarrow> block_row \<Rightarrow> bool" where
  "row_grows r r' \<longleftrightarrow>
     rFingerprint r' = rFingerprint r \<and> rHash r' = rHash r \<and> rArmoredKey r' = rArmoredKey r \<and>
     rUids r' = rUids r \<and> rSubmitTimestamp r' = rSubmitTimestamp r \<and> rSelfSig r' = rSelfSig r \<and>
     (rRevoked r \<noteq> 0 \<longrightarrow> rRevoked r' \<noteq> 0)"

definition db_grows :: "sqlite \<Rightarrow> sqlite \<Rightarrow> bool" where
  "db_grows s s' \<longleftrightarrow>
     (\<exists>rows. tSigs s' = tSigs s @ rows) \<and> (\<exists>bs new. tBlocks s' = bs @ new \<and> list_all2 row_grows (tBlocks s) bs)"

lemma row_grows_refl [simp]: "row_grows r r"
  by (simp add: row_grows_def)

lemma row_grows_trans: "row_grows r r' \<Longrightarrow> row_grows r' r'' \<Longrightarrow> row_grows r r''"
  by (auto simp: row_grows_def)

lemma rows_grow_refl [simp]: "list_all2 row_grows rs rs"
  by (rule list_all2_refl) simp

lemma db_grows_trans:
  assumes "db_grows s s'" and "db_grows s' s''" shows "db_grows s s''"
proof -
  from assms(1) obtain rows bs new where 1: "tSigs s' = tSigs s @ rows" "tBlocks s' = bs @ new"
    "list_all2 row_grows (tBlocks s) bs" unfolding db_grows_def by blast
  from assms(2) obtain rows' bs' new' where 2: "tSigs s'' = tSigs s' @ rows'" "tBlocks s'' = bs' @ new'"
    "list_all2 row_grows (tBlocks s') bs'" unfolding db_grows_def by blast
  from 2(3) 1(2) obtain cs ds where cs: "bs' = cs @ ds" "list_all2 row_grows bs cs"
    by (auto simp: list_all2_append1)
  have "list_all2 row_grows (tBlocks s) cs" by (rule list_all2_trans [OF row_grows_trans 1(3) cs(2)])
  with 1(1) 2(1,2) cs(1) show ?thesis unfolding db_grows_def by auto
qed

lemma rows_grow_map:
  "(\<And>r. row_grows r (f r)) \<Longrightarrow> \<exists>bs new. map f rs = bs @ new \<and> list_all2 row_grows rs bs"
  by (intro exI [of _ "map f rs"] exI [of _ "[]"]) (simp add: list_all2_conv_all_nth)

interpretation db_grow: store_preorder sqlite_ops db_grows
proof (unfold_locales, goal_cases)
  case (1 s) show ?case unfolding db_grows_def by (intro conjI exI [of _ "[]"] exI [of _ "tBlocks s"]) simp_all
next
  case (2 s s' s'') then show ?case by (rule db_grows_trans)
next
  case (3 b s r s')
  have "\<exists>bs new. tBlocks s @ rs = bs @ new \<and> list_all2 row_grows (tBlocks s) bs" for rs
    by (intro exI [of _ "tBlocks s"] exI [of _ rs]) simp
  with this [of "[]"] 3 show ?case by (auto simp: sqlite_ops_def sq_Add_def db_grows_def split: if_splits)
next
  case (4 fp e s r s')
  from rows_grow_map [of "\<lambda>r. r" "tBlocks s"]
    rows_grow_map [of "\<lambda>r. if rFingerprint r = fp then r\<lparr>rSigChainHead := seHash e\<rparr> else r" "tBlocks s"] 4
  show ?case by (auto simp: sqlite_ops_def sq_AddSig_def db_grows_def row_grows_def split: if_splits)
next
  case (5 fp sig s r s')
  from rows_grow_map [of "\<lambda>r. if rFingerprint r = fp then r\<lparr>rRevoked := 1, rRevocationSig := sig\<rparr> else r" "tBlocks s"] 5
  show ?case by (auto simp: sqlite_ops_def sq_Revoke_def db_grows_def row_grows_def)
qed

end
