(* ===== verification/Sync.thy ===== *)
theory Sync
  imports Samples
begin

text \<open>
  Syncing returns, and brings the blocks.  The recursion from a block to the blocks of its
  signers is bounded because each level of it has added a block: \<open>keyed_store\<close> is what of a
  store this needs, and the bound is the number of keys the network has to offer that the
  store does not hold yet.
\<close>

section \<open>Stores that grow\<close>

locale keyed_store =
  fixes ops :: "'s store_ops" and keys :: "'s \<Rightarrow> string set"
  assumes Add_keys: "opAdd ops b s = (r, s') \<Longrightarrow> keys s \<subseteq> keys s'"
    and Add_key: "opAdd ops b s = (None, s') \<Longrightarrow> bFingerprint b \<notin> keys s \<and> bFingerprint b \<in> keys s'"
    and AddSig_keys: "opAddSig ops fp e s = (r, s') \<Longrightarrow> keys s \<subseteq> keys s'"
    and Revoke_keys: "opRevoke ops fp sig s = (r, s') \<Longrightarrow> keys s \<subseteq> keys s'"

sublocale keyed_store \<subseteq> store_preorder ops "\<lambda>s s'. keys s \<subseteq> keys s'"
  by unfold_locales (use Add_keys AddSig_keys Revoke_keys in blast)+

context keyed_store begin

lemmas run_keys = run_rel

end

interpretation mem_keys: keyed_store memory_ops "\<lambda>m. dom (mget m)"
  by unfold_locales (auto simp: mem_defs split: option.splits if_splits)

lemma update_rows_keys [simp]:
  "(\<And>r. rFingerprint (f r) = rFingerprint r) \<Longrightarrow>
     rFingerprint ` (\<lambda>r. if P r then f r else r) ` B = rFingerprint ` B"
  unfolding image_image by (rule image_cong) auto

interpretation sql_keys: keyed_store sqlite_ops "\<lambda>s. rFingerprint ` set (tBlocks s)"
  by unfold_locales
    (auto simp: sqlite_ops_def sq_Add_def sq_AddSig_def sq_Revoke_def new_row_def list_ex_iff
      simp del: if_image_distrib split: if_splits)

section \<open>Programs that return\<close>

text \<open>
  \<open>returns ops w p s\<close>: the run of \<open>p\<close> from \<open>s\<close> ends with a result.  \<open>settles\<close> says less: the
  run does not panic or use up its bound, but it may make a read that never returns.
\<close>

definition returns :: "'s store_ops \<Rightarrow> world \<Rightarrow> 'a io \<Rightarrow> 's node \<Rightarrow> bool" where
  "returns ops w p s \<longleftrightarrow> (\<exists>x s'. run ops w p s = (Done x, s'))"

definition settles :: "'s store_ops \<Rightarrow> world \<Rightarrow> 'a io \<Rightarrow> 's node \<Rightarrow> bool" where
  "settles ops w p s \<longleftrightarrow> fst (run ops w p s) \<noteq> Panicked \<and> fst (run ops w p s) \<noteq> OutOfFuel"

lemma settles_bind:
  "settles ops w p s \<Longrightarrow> (\<And>x s'. run ops w p s = (Done x, s') \<Longrightarrow> settles ops w (f x) s') \<Longrightarrow>
    settles ops w (bind p f) s"
  unfolding settles_def run_bind by (auto split: prod.splits outcome.splits)

lemma settles_simps [simp]:
  "settles ops w (Ret x) s" "settles ops w (go_all ts) s'"
  by (simp_all add: settles_def)

lemma settles_Get:
  "settles ops w (Get fp k) s \<longleftrightarrow> (\<forall>r. opGet ops fp (nStore s) = Some r \<longrightarrow> settles ops w (k r) s)"
  by (auto simp: settles_def split: option.splits)

text \<open>
  Reads return on the \<open>good\<close> states of a store; a state from which a good one can still be
  reached is good.  Then a run that ends, one way or another, in a good state does not hang.
\<close>

locale reading_store = store_preorder ops rel
  for ops :: "'s store_ops" and rel :: "'s \<Rightarrow> 's \<Rightarrow> bool" +
  fixes good :: "'s \<Rightarrow> bool"
  assumes good_before: "rel s s' \<Longrightarrow> good s' \<Longrightarrow> good s"
    and Get_returns: "good s \<Longrightarrow> opGet ops fp s \<noteq> None"
    and All_returns: "good s \<Longrightarrow> opAll ops s \<noteq> None"
begin

lemma good_now: "good (nStore (snd (run ops w p s))) \<Longrightarrow> good (nStore s)"
  using run_rel good_before by blast

lemma not_hung: "good (nStore (snd (run ops w p s))) \<Longrightarrow> fst (run ops w p s) \<noteq> Hung"
proof (induction p arbitrary: s)
  case (Get fp k)
  from good_now [OF Get.prems] Get_returns obtain r where "opGet ops fp (nStore s) = Some r" by blast
  with Get show ?case by simp
next
  case (All k)
  from good_now [OF All.prems] All_returns obtain r where "opAll ops (nStore s) = Some r" by blast
  with All show ?case by simp
qed (auto simp: Let_def split: prod.splits)

lemma settles_returns:
  "settles ops w p s \<Longrightarrow> good (nStore (snd (run ops w p s))) \<Longrightarrow> returns ops w p s"
  using not_hung [of w p s] unfolding settles_def returns_def
  by (cases "run ops w p s"; cases "fst (run ops w p s)") auto

end

interpretation mem_reads: reading_store memory_ops "\<lambda>_ _. True" "\<lambda>_. True"
  by unfold_locales (simp_all add: memory_ops_def)

text \<open>On the database the entries must not form a cycle of hashes; none is ever removed.\<close>

definition ranked :: "(string \<Rightarrow> nat) \<Rightarrow> sqlite \<Rightarrow> bool" where
  "ranked rk db \<longleftrightarrow> entries_ok rk (map snd (tSigs db))"

lemma ranked_reads:
  assumes "ranked rk db" shows "sq_Get fp db \<noteq> None" and "sq_All db \<noteq> None"
proof -
  have read: "\<exists>es. getSigEntries fp db = Some (Inr es)" for fp
    using order_entries_branch [of rk "rows_of db fp"] entries_ok_filter [OF assms [unfolded ranked_def]]
    by (auto simp: getSigEntries_def rows_of_def)
  from read [of fp] show "sq_Get fp db \<noteq> None" by (auto simp: sq_Get_def split: option.split)
  have "\<exists>bs. load_all db rs = Some (Inr bs)" for rs
  proof (induction rs)
    case (Cons row rs)
    with read [of "rFingerprint row"] show ?case by auto
  qed simp
  then show "sq_All db \<noteq> None" by (auto simp: sq_All_def)
qed

interpretation sql_reads: reading_store sqlite_ops "\<lambda>db db'. \<exists>rows. tSigs db' = tSigs db @ rows" "ranked rk"
  for rk :: "string \<Rightarrow> nat"
proof (unfold_locales, goal_cases)
  case (6 s s') then show ?case by (auto simp: ranked_def entries_ok_def)
next
  case (7 s fp) then show ?case using ranked_reads(1) by (simp add: sqlite_ops_def)
next
  case (8 s) then show ?case using ranked_reads(2) by (simp add: sqlite_ops_def)
qed (auto simp: sqlite_ops_def sq_Add_def sq_AddSig_def sq_Revoke_def split: if_splits)

text \<open>The fingerprints of the keys in the documents a network serves.\<close>

definition offered :: "lib \<Rightarrow> world \<Rightarrow> string set" where
  "offered L w =
     {fp. \<exists>url st body data uids. wGet w url = Reply st body \<and> decode_map body = Some data \<and>
        ParseArmoredKey L (getString data ''armored_key'') = Inr (fp, uids)}"

context keyed_store begin

lemma settles_check_entry:
  assumes "\<And>s'. keys (nStore s) \<subseteq> keys (nStore s') \<Longrightarrow> settles ops w skip s'"
    and "\<And>b s'. keys (nStore s) \<subseteq> keys (nStore s') \<Longrightarrow> settles ops w (added b) s'"
  shows "settles ops w (check_entry L fp block eMap skip added key) s"
proof -
  have skip: "settles ops w skip s" by (rule assms(1)) simp
  have "settles ops w (AddSig fp e (\<lambda>err. case err of Some _ \<Rightarrow> skip | None \<Rightarrow> Get fp (\<lambda>r.
      case drop_err r of None \<Rightarrow> Ret () | Some block' \<Rightarrow> added block'))) s" for e
  proof -
    obtain r st where "opAddSig ops fp e (nStore s) = (r, st)" by fastforce
    with AddSig_keys [OF this] assms [of "s\<lparr>nStore := st\<rparr>"] show ?thesis
      by (auto simp: settles_def split: option.splits)
  qed
  with skip show ?thesis by (simp add: check_entry_def settles_def Let_def)
qed

lemma settles_apply_loop:
  assumes fetch: "\<And>base fp s'. keys (nStore s) \<subseteq> keys (nStore s') \<Longrightarrow> settles ops w (fetch base fp) s'"
  shows "settles ops w (apply_loop L fetch fp fetchBase raws block existing) s"
  using fetch
proof (induction raws arbitrary: s block existing)
  case (Cons raw raws)
  note IH = Cons.IH [OF Cons.prems]
  let ?skip = "apply_loop L fetch fp fetchBase raws block existing"
  have later: "settles ops w (apply_loop L fetch fp fetchBase raws block' existing') s'"
    if "keys (nStore s) \<subseteq> keys (nStore s')" for block' existing' s'
    by (rule Cons.IH) (use Cons.prems that in blast)
  show ?case
  proof (cases raw)
    case (AObj eMap)
    let ?signer = "getString eMap ''signer_fingerprint''"
    let ?check = "check_entry L fp block eMap ?skip
      (\<lambda>block'. apply_loop L fetch fp fetchBase raws block' (insert ?signer existing))"
    have check: "settles ops w (?check key) s'" if "keys (nStore s) \<subseteq> keys (nStore s')" for key s'
      by (rule settles_check_entry; rule later) (use that in blast)+
    have refetch: "settles ops w (Get ?signer (\<lambda>r. case drop_err r of None \<Rightarrow> ?skip
        | Some signerBlock \<Rightarrow> ?check (bArmoredKey signerBlock))) s'" if "keys (nStore s) \<subseteq> keys (nStore s')" for s'
      using check [OF that] later [OF that] by (auto simp: settles_def split: option.splits)
    have "settles ops w (bind (fetch fetchBase ?signer) (\<lambda>_. Get ?signer (\<lambda>r. case drop_err r of None \<Rightarrow> ?skip
        | Some signerBlock \<Rightarrow> ?check (bArmoredKey signerBlock)))) s"
    proof (rule settles_bind)
      show "settles ops w (fetch fetchBase ?signer) s" by (rule Cons.prems) simp
      fix x s' assume "run ops w (fetch fetchBase ?signer) s = (Done x, s')"
      with run_keys [of s w "fetch fetchBase ?signer"] show "settles ops w (Get ?signer (\<lambda>r. case drop_err r of
          None \<Rightarrow> ?skip | Some signerBlock \<Rightarrow> ?check (bArmoredKey signerBlock))) s'"
        by (intro refetch) simp
    qed
    with AObj check [OF order_refl] later [OF order_refl] show ?thesis
      by (auto simp: Let_def settles_def split: option.splits)
  qed (use later [OF order_refl] in \<open>simp_all add: Let_def\<close>)
qed simp

text \<open>
  With \<open>n\<close> above the number of offered keys the store lacks, fetching settles: every deeper
  level runs on a store that holds one of them more.
\<close>

lemma settles_fetch:
  assumes "finite (offered L w)" and "card (offered L w - keys (nStore s)) < n"
  shows "settles ops w (fetchAndStoreBlock n L cfg base fp) s"
  using assms(2)
proof (induction n arbitrary: s base fp)
  case (Suc n)
  have "settles ops w (validateAndStore L cfg (fetchAndStoreBlock n L cfg) data base) s"
    if "wGet w url = Reply st body" "decode_map body = Some data" for url st body data
  proof -
    have "settles ops w (applySigEntries L (fetchAndStoreBlock n L cfg) fp' raws base) s'"
      if parse: "ParseArmoredKey L (getString data ''armored_key'') = Inr (fp', uids)"
        and new: "fp' \<notin> keys (nStore s)" and added: "insert fp' (keys (nStore s)) \<subseteq> keys (nStore s')"
      for fp' uids raws s'
    proof -
      have "fp' \<in> offered L w" using parse \<open>wGet w url = _\<close> \<open>decode_map body = _\<close>
        unfolding offered_def by blast
      have fetch: "settles ops w (fetchAndStoreBlock n L cfg base fp) s''"
        if grown: "keys (nStore s') \<subseteq> keys (nStore s'')" for s'' base fp
      proof -
        have "offered L w - keys (nStore s'') \<subset> offered L w - keys (nStore s)"
          using \<open>fp' \<in> offered L w\<close> new added grown by blast
        then have "card (offered L w - keys (nStore s'')) < card (offered L w - keys (nStore s))"
          using assms(1) by (intro psubset_card_mono) auto
        with Suc.prems have "card (offered L w - keys (nStore s'')) < n" by linarith
        then show ?thesis by (rule Suc.IH)
      qed
      show ?thesis
        unfolding applySigEntries_def
        using settles_apply_loop [of s' w "fetchAndStoreBlock n L cfg", OF fetch]
        by (auto simp: settles_def split: option.splits)
    qed note entries = this
    have "settles ops w (Add b (\<lambda>err. case err of Some _ \<Rightarrow> Ret () | None \<Rightarrow>
        (case get data ''sig_chain'' of
           AArr raws \<Rightarrow> applySigEntries L (fetchAndStoreBlock n L cfg) fp' raws base | _ \<Rightarrow> Ret ()))) s"
      if parse: "ParseArmoredKey L (getString data ''armored_key'') = Inr (fp', uids)" and b: "bFingerprint b = fp'"
      for fp' uids b
    proof -
      obtain r st where r: "opAdd ops b (nStore s) = (r, st)" by fastforce
      show ?thesis
      proof (cases r)
        case None
        with r Add_key [of b "nStore s" st] Add_keys [OF r] b entries [OF parse, of "s\<lparr>nStore := st\<rparr>"]
        show ?thesis by (auto simp: settles_def split: any.splits)
      qed (use r in \<open>simp add: settles_def\<close>)
    qed note add = this
    show ?thesis
      unfolding validateAndStore_def Let_def
      using add by (auto simp: settles_def make_block_def split: sum.splits option.splits)
  qed
  then show ?case by (auto simp: settles_def split: reply.splits option.splits)
qed simp

lemma fuel_kept:
  assumes "finite (offered L w)" and "card (offered L w - keys (nStore s)) < n"
    and "keys (nStore s) \<subseteq> keys (nStore s')"
  shows "card (offered L w - keys (nStore s')) < n"
proof -
  have "card (offered L w - keys (nStore s')) \<le> card (offered L w - keys (nStore s))"
    using assms by (intro card_mono) auto
  with assms(2) show ?thesis by linarith
qed

lemma settles_applySigEntries:
  assumes "finite (offered L w)" and "card (offered L w - keys (nStore s)) < n"
  shows "settles ops w (applySigEntries L (fetchAndStoreBlock n L cfg) fp raws base) s"
proof -
  have "settles ops w (apply_loop L (fetchAndStoreBlock n L cfg) fp base raws block existing) s" for block existing
    by (rule settles_apply_loop) (rule settles_fetch [OF assms(1) fuel_kept [OF assms]])
  then show ?thesis unfolding applySigEntries_def by (auto simp: settles_def split: option.splits)
qed

lemma settles_pull_loop:
  assumes "finite (offered L w)" and "card (offered L w - keys (nStore s)) < n"
  shows "settles ops w (pull_loop n L cfg base lh ph) s"
  using assms(2)
proof (induction ph arbitrary: s)
  case (Cons h ph)
  obtain fp head where h: "h = (fp, head)" by (cases h)
  let ?first = "case mget lh fp of None \<Rightarrow> fetchAndStoreBlock n L cfg base fp
    | Some localHead \<Rightarrow> if localHead \<noteq> head then syncSigChain n L cfg base fp else Ret ()"
  have "settles ops w ?first s"
    using settles_fetch [OF assms(1) Cons.prems] settles_applySigEntries [OF assms(1) Cons.prems]
    by (auto simp: syncSigChain_def settles_def split: option.splits reply.splits any.splits)
  then have "settles ops w (bind ?first (\<lambda>_. pull_loop n L cfg base lh ph)) s"
  proof (rule settles_bind)
    fix x s' assume "run ops w ?first s = (Done x, s')"
    with run_keys [of s w ?first] show "settles ops w (pull_loop n L cfg base lh ph) s'"
      by (intro Cons.IH fuel_kept [OF assms(1) Cons.prems]) simp
  qed
  then show ?case by (simp add: h)
qed simp

lemma settles_push_loop: "settles ops w (push_loop base ph lh) s"
proof (induction lh arbitrary: s)
  case (Cons h lh)
  then show ?case by (cases h) (auto simp: settles_def split: option.splits)
qed simp

lemma settles_SyncWithPeer:
  assumes "finite (offered L w)" and "card (offered L w - keys (nStore s)) < n"
  shows "settles ops w (SyncWithPeer n L cfg url) s"
proof -
  have "settles ops w (bind (pull_loop n L cfg base lh ph) (\<lambda>_. push_loop base ph lh)) s" for base lh ph
    by (rule settles_bind [OF settles_pull_loop [OF assms] settles_push_loop])
  then show ?thesis
    by (auto simp: SyncWithPeer_def Let_def settles_def split: reply.splits prod.splits sum.splits)
qed

lemma settles_FetchBlockFromPeers:
  assumes "finite (offered L w)" and "card (offered L w - keys (nStore s)) < n"
  shows "settles ops w (FetchBlockFromPeers n L cfg fp) s"
proof -
  have "settles ops w (fetch_loop n L cfg fp peers) s" for peers
    using assms(2)
  proof (induction peers arbitrary: s)
    case (Cons p peers)
    show ?case unfolding fetch_loop.simps Let_def
    proof (rule settles_bind)
      show "settles ops w (fetchAndStoreBlock n L cfg (TrimRightSlash p) fp) s"
        by (rule settles_fetch [OF assms(1) Cons.prems])
      fix x s' assume "run ops w (fetchAndStoreBlock n L cfg (TrimRightSlash p) fp) s = (Done x, s')"
      with run_keys [of s w "fetchAndStoreBlock n L cfg (TrimRightSlash p) fp"]
      have "settles ops w (fetch_loop n L cfg fp peers) s'"
        by (intro Cons.IH fuel_kept [OF assms(1) Cons.prems]) simp
      then show "settles ops w (Get fp (\<lambda>r. case drop_err r of Some b \<Rightarrow> Ret True
          | None \<Rightarrow> fetch_loop n L cfg fp peers)) s'"
        by (auto simp: settles_def split: option.splits)
    qed
  qed simp
  then show ?thesis by (simp add: FetchBlockFromPeers_def settles_def)
qed

end

text \<open>The reads of the memory store always return.\<close>

lemma mem_returns: "settles memory_ops w p s \<Longrightarrow> returns memory_ops w p s"
  by (rule mem_reads.settles_returns) simp_all

lemmas mem_returns_pull_loop = mem_keys.settles_pull_loop [THEN mem_returns]
lemmas mem_returns_SyncWithPeer = mem_keys.settles_SyncWithPeer [THEN mem_returns]
lemmas mem_returns_FetchBlockFromPeers = mem_keys.settles_FetchBlockFromPeers [THEN mem_returns]

section \<open>Syncing brings the blocks\<close>

lemma run_clock [simp]: "nClock (snd (run ops w p s)) = nClock s"
  by (induction p arbitrary: s) (simp_all add: Let_def split: prod.splits option.split)

text \<open>A peer serves a block that the syncing node accepts at the time \<open>now\<close>.\<close>

definition serves_data ::
    "lib \<Rightarrow> SyncConfig \<Rightarrow> world \<Rightarrow> int \<Rightarrow> string \<Rightarrow> string \<Rightarrow> (string, any) gomap \<Rightarrow> string list \<Rightarrow> bool" where
  "serves_data L cfg w now base fp data uids \<longleftrightarrow>
     wGet w (base @ ''/block/'' @ fp) = Reply 200 (Some (AObj data)) \<and>
     ParseArmoredKey L (getString data ''armored_key'') = Inr (fp, uids) \<and>
     CheckKeyStrength L (getString data ''armored_key'') = None \<and>
     (scAllowAll cfg \<or> domainAllowed (ExtractEmailDomains L uids) (scDomains cfg)) \<and>
     VerifyDetachedSig L now (SubmitPayload L fp (getString data ''armored_key'')
         (fst (toInt64 L (get data ''submit_timestamp''))))
       (getString data ''self_sig'') (getString data ''armored_key'')"

definition serves_block :: "lib \<Rightarrow> SyncConfig \<Rightarrow> world \<Rightarrow> int \<Rightarrow> string \<Rightarrow> string \<Rightarrow> bool" where
  "serves_block L cfg w now base fp \<longleftrightarrow> (\<exists>data uids. serves_data L cfg w now base fp data uids)"

lemma fetch_brings:
  assumes "serves_block L cfg w (nClock s) base fp" and "n \<noteq> 0"
  shows "fp \<in> dom (mget (nStore (snd (run memory_ops w (fetchAndStoreBlock n L cfg base fp) s))))"
proof -
  obtain m where n: "n = Suc m" using assms(2) by (cases n) auto
  from assms(1) obtain data uids where data:
    "wGet w (base @ ''/block/'' @ fp) = Reply 200 (Some (AObj data))"
    "ParseArmoredKey L (getString data ''armored_key'') = Inr (fp, uids)"
    "CheckKeyStrength L (getString data ''armored_key'') = None"
    "scAllowAll cfg \<or> domainAllowed (ExtractEmailDomains L uids) (scDomains cfg)"
    "VerifyDetachedSig L (nClock s) (SubmitPayload L fp (getString data ''armored_key'')
        (fst (toInt64 L (get data ''submit_timestamp'')))) (getString data ''self_sig'')
        (getString data ''armored_key'')"
    unfolding serves_block_def serves_data_def by blast
  let ?b = "make_block L fp (getString data ''armored_key'') uids
      (fst (toInt64 L (get data ''submit_timestamp''))) (getString data ''self_sig'')"
  let ?rest = "case get data ''sig_chain'' of
      AArr raws \<Rightarrow> applySigEntries L (fetchAndStoreBlock m L cfg) fp raws base | _ \<Rightarrow> Ret ()"
  have allowed: "(\<not> scAllowAll cfg \<and> \<not> domainAllowed (ExtractEmailDomains L uids) (scDomains cfg)) = False"
    using data(4) by simp
  have "run memory_ops w (fetchAndStoreBlock n L cfg base fp) s =
    (case mget (nStore s) fp of
       Some _ \<Rightarrow> (Done (), s)
     | None \<Rightarrow> run memory_ops w ?rest (s\<lparr>nStore := mset_key fp ?b (nStore s)\<rparr>))"
    using data(1-3,5) by (simp add: n validateAndStore_def Let_def mem_defs make_block_def allowed split: option.splits)
  moreover have "fp \<in> dom (mget (nStore (s\<lparr>nStore := mset_key fp ?b (nStore s)\<rparr>)))"
    by (simp add: domIff)
  ultimately show ?thesis
    using mem_keys.run_keys [of "s\<lparr>nStore := mset_key fp ?b (nStore s)\<rparr>" w ?rest]
    by (auto split: option.splits)
qed

lemma pull_loop_brings:
  assumes "finite (offered L w)" and "card (offered L w - dom (mget (nStore s))) < n"
    and "serves_block L cfg w (nClock s) base fp" and "(fp, head) \<in> set ph" and "mget lh fp = None"
  shows "fp \<in> dom (mget (nStore (snd (run memory_ops w (pull_loop n L cfg base lh ph) s))))"
  using assms(2-4)
proof (induction ph arbitrary: s)
  case (Cons h ph)
  obtain fp' head' where h: "h = (fp', head')" by (cases h)
  let ?first = "case mget lh fp' of None \<Rightarrow> fetchAndStoreBlock n L cfg base fp'
    | Some localHead \<Rightarrow> if localHead \<noteq> head' then syncSigChain n L cfg base fp' else Ret ()"
  from mem_returns_pull_loop [OF assms(1) Cons.prems(1), of cfg base lh "[h]"]
  have "returns memory_ops w ?first s" by (auto simp: h returns_def run_bind split: prod.splits outcome.splits)
  then obtain s1 where s1: "run memory_ops w ?first s = (Done (), s1)" by (auto simp: returns_def)
  then have keys: "dom (mget (nStore s)) \<subseteq> dom (mget (nStore s1))" and clock: "nClock s1 = nClock s"
    using mem_keys.run_keys [of s w ?first] run_clock [of memory_ops w ?first s] by simp_all
  have run: "run memory_ops w (pull_loop n L cfg base lh (h # ph)) s = run memory_ops w (pull_loop n L cfg base lh ph) s1"
    using s1 by (simp add: h run_bind)
  show ?case
  proof (cases "fp' = fp")
    case True
    have "fp \<in> dom (mget (nStore s1))"
      using fetch_brings [OF Cons.prems(2), of n] Cons.prems(1) s1 True assms(5) by simp
    then show ?thesis
      using mem_keys.run_keys [of s1 w "pull_loop n L cfg base lh ph"] run by auto
  next
    case False
    have "fp \<in> dom (mget (nStore (snd (run memory_ops w (pull_loop n L cfg base lh ph) s1))))"
    proof (rule Cons.IH)
      show "card (offered L w - dom (mget (nStore s1))) < n"
        by (rule mem_keys.fuel_kept [OF assms(1) Cons.prems(1) keys])
    qed (use Cons.prems False clock h in simp_all)
    with run show ?thesis by simp
  qed
qed simp

lemma run_SyncWithPeer:
  assumes "wGet w (TrimRightSlash url @ ''/p2p/hashes'') = Reply 200 (Some (AObj hs))"
    and "\<forall>(fp, v) \<in> set hs. \<not> bad_string v"
  shows "run memory_ops w (SyncWithPeer n L cfg url) s =
    run memory_ops w
      (bind (pull_loop n L cfg (TrimRightSlash url) (map (\<lambda>(fp, b). (fp, bSigChainHead b)) (nStore s))
           (map (\<lambda>(k, v). (k, as_string v)) hs))
         (\<lambda>_. push_loop (TrimRightSlash url) (map (\<lambda>(k, v). (k, as_string v)) hs)
           (map (\<lambda>(fp, b). (fp, bSigChainHead b)) (nStore s)))) s"
proof -
  have "\<not> list_ex (\<lambda>(k, v). bad_string v) hs" using assms(2) by (auto simp: list_ex_iff)
  then show ?thesis using assms(1) by (simp add: SyncWithPeer_def Let_def mem_defs)
qed

text \<open>
  What a program publishes in the world \<open>w\<close>: every block it adds satisfies \<open>P\<close>, and it revokes
  nothing.
\<close>

primrec publishes :: "world \<Rightarrow> (Block \<Rightarrow> bool) \<Rightarrow> 'a io \<Rightarrow> bool" where
  "publishes w P (Ret x) = True"
| "publishes w P Panic = True"
| "publishes w P NoFuel = True"
| "publishes w P (Now k) = (\<forall>r. publishes w P (k r))"
| "publishes w P (Get fp k) = (\<forall>r. publishes w P (k r))"
| "publishes w P (All k) = (\<forall>r. publishes w P (k r))"
| "publishes w P (Hashes k) = (\<forall>r. publishes w P (k r))"
| "publishes w P (Add b k) = (P b \<and> (\<forall>r. publishes w P (k r)))"
| "publishes w P (AddSig fp e k) = (\<forall>r. publishes w P (k r))"
| "publishes w P (Revoke fp sig k) = False"
| "publishes w P (PeersAll k) = (\<forall>r. publishes w P (k r))"
| "publishes w P (PeersAdd url k) = (\<forall>r. publishes w P (k r))"
| "publishes w P (PeersLen k) = (\<forall>r. publishes w P (k r))"
| "publishes w P (PeersContains url k) = (\<forall>r. publishes w P (k r))"
| "publishes w P (PeersSetMeta url m p) = publishes w P p"
| "publishes w P (PeersMeta k) = (\<forall>r. publishes w P (k r))"
| "publishes w P (IsSeen i k) = (\<forall>r. publishes w P (k r))"
| "publishes w P (MarkSeen i p) = publishes w P p"
| "publishes w P (Shuffle xs k) = (\<forall>r. publishes w P (k r))"
| "publishes w P (LookupHost h k) = (\<forall>r. publishes w P (k r))"
| "publishes w P (HttpGet url k) = publishes w P (k (wGet w url))"
| "publishes w P (HttpPost url body k) = (\<forall>r. publishes w P (k r))"
| "publishes w P (Go t p) = publishes w P p"

lemma publishes_bind:
  "publishes w P p \<Longrightarrow> (\<And>x. publishes w P (f x)) \<Longrightarrow> publishes w P (bind p f)"
  by (induction p) auto

text \<open>A block without its entries.\<close>

definition bare :: "Block \<Rightarrow> Block" where
  "bare b = b\<lparr>bSigEntries := [], bSigChainHead := []\<rparr>"

lemma bare_eqD: "bare b = bare c \<Longrightarrow> \<exists>es head. b = c\<lparr>bSigEntries := es, bSigChainHead := head\<rparr>"
  by (intro exI [of _ "bSigEntries b"] exI [of _ "bSigChainHead b"], cases b, cases c) (simp add: bare_def)

text \<open>A block of the later store is one of the earlier, or one that satisfies \<open>P\<close>, but for its entries.\<close>

definition published :: "(Block \<Rightarrow> bool) \<Rightarrow> MemoryStore \<Rightarrow> MemoryStore \<Rightarrow> bool" where
  "published P m m' \<longleftrightarrow>
     (\<forall>fp b. mget m' fp = Some b \<longrightarrow> (\<exists>c. bare b = bare c \<and>
        (mget m fp = Some c \<or> mget m fp = None \<and> bFingerprint c = fp \<and> P c)))"

lemma publishedD:
  "published P m m' \<Longrightarrow> mget m' fp = Some b \<Longrightarrow>
     \<exists>c. bare b = bare c \<and> (mget m fp = Some c \<or> mget m fp = None \<and> bFingerprint c = fp \<and> P c)"
  unfolding published_def by blast

lemma published_refl: "published P m m"
  unfolding published_def by blast

lemma published_trans:
  assumes "published P m m'" and "published P m' m''" and "dom (mget m) \<subseteq> dom (mget m')"
  shows "published P m m''"
  unfolding published_def
proof (intro allI impI)
  fix fp b assume "mget m'' fp = Some b"
  from publishedD [OF assms(2) this] obtain c where c: "bare b = bare c"
    "mget m' fp = Some c \<or> mget m' fp = None \<and> bFingerprint c = fp \<and> P c" by blast
  show "\<exists>c. bare b = bare c \<and> (mget m fp = Some c \<or> mget m fp = None \<and> bFingerprint c = fp \<and> P c)"
  proof (cases "mget m' fp")
    case (Some c')
    with c(2) have "mget m' fp = Some c" by simp
    from publishedD [OF assms(1) this] c(1) show ?thesis by simp
  next
    case None
    then have "mget m fp = None" using assms(3) by auto
    with c None show ?thesis by (intro exI [of _ c]) simp
  qed
qed

lemma published_put:
  assumes "bare b = bare c" and "mget m fp = Some c \<or> mget m fp = None \<and> bFingerprint c = fp \<and> P c"
  shows "published P m (mset_key fp b m)"
  unfolding published_def
proof (intro allI impI)
  fix fp' b' assume "mget (mset_key fp b m) fp' = Some b'"
  with assms show "\<exists>c. bare b' = bare c \<and> (mget m fp' = Some c \<or> mget m fp' = None \<and> bFingerprint c = fp' \<and> P c)"
    by (cases "fp' = fp") auto
qed

lemma published_AddSig:
  assumes "mem_AddSig fp e m = (r, m')" shows "published P m m'"
proof (cases "mget m fp")
  case (Some b)
  with assms have "m' = mset_key fp (b\<lparr>bSigEntries := bSigEntries b @ [e], bSigChainHead := seHash e\<rparr>) m"
    by (simp add: mem_AddSig_def)
  moreover have "bare (b\<lparr>bSigEntries := bSigEntries b @ [e], bSigChainHead := seHash e\<rparr>) = bare b"
    by (simp add: bare_def)
  ultimately show ?thesis using published_put Some by simp
qed (use assms in \<open>simp add: mem_AddSig_def published_refl\<close>)

lemma published_Add: "mem_Add b m = (r, m') \<Longrightarrow> P b \<Longrightarrow> published P m m'"
  by (auto simp: mem_Add_def split: option.splits if_splits intro!: published_refl published_put)

lemma run_published:
  "publishes w P p \<Longrightarrow> published P (nStore s) (nStore (snd (run memory_ops w p s)))"
proof (induction p arbitrary: s)
  case (Add b k)
  obtain r st where op: "opAdd memory_ops b (nStore s) = (r, st)" by fastforce
  then have "published P (nStore s) st" using published_Add [of b "nStore s" r st P] Add.prems by (simp add: memory_ops_def)
  from published_trans [OF this, of "nStore (snd (run memory_ops w (k r) (s\<lparr>nStore := st\<rparr>)))"]
  show ?case using Add.IH [OF rangeI, of r "s\<lparr>nStore := st\<rparr>"] Add.prems op mem_keys.Add_keys [OF op] by simp
next
  case (AddSig fp e k)
  obtain r st where op: "opAddSig memory_ops fp e (nStore s) = (r, st)" by fastforce
  then have "published P (nStore s) st" using published_AddSig [of fp e "nStore s" r st P] by (simp add: memory_ops_def)
  from published_trans [OF this, of "nStore (snd (run memory_ops w (k r) (s\<lparr>nStore := st\<rparr>)))"]
  show ?case using AddSig.IH [OF rangeI, of r "s\<lparr>nStore := st\<rparr>"] AddSig.prems op mem_keys.AddSig_keys [OF op] by simp
next
  case (PeersSetMeta url m q)
  from this(1) [of "s\<lparr>nPeers := SetMeta url m (nPeers s)\<rparr>"] this(2) show ?case by simp
next
  case (MarkSeen i q)
  from this(1) [of "s\<lparr>nSeen := markSeen (nClock s) i (nSeen s)\<rparr>"] this(2) show ?case by simp
next
  case (Go t q)
  from this(1) [of "s\<lparr>nGos := nGos s @ [t]\<rparr>"] this(2) show ?case by simp
next
  case (PeersAdd url k)
  obtain r p where "pl_Add url (nPeers s) = (r, p)" by fastforce
  with PeersAdd.IH [OF rangeI, of r "s\<lparr>nPeers := p\<rparr>"] PeersAdd.prems show ?case by simp
next
  case (IsSeen i k)
  obtain r p where "isSeen (nClock s) i (nSeen s) = (r, p)" by fastforce
  with IsSeen.IH [OF rangeI, of r "s\<lparr>nSeen := p\<rparr>"] IsSeen.prems show ?case by simp
next
  case (HttpPost url body k)
  from HttpPost.IH [OF rangeI, of "wPost w url body" "s\<lparr>nSent := nSent s @ [(url, body)]\<rparr>"] HttpPost.prems
  show ?case by simp
qed (simp_all add: published_refl split: option.split)

text \<open>All that syncing adds are blocks made from the documents of the network.\<close>

definition from_network :: "lib \<Rightarrow> world \<Rightarrow> Block \<Rightarrow> bool" where
  "from_network L w b \<longleftrightarrow>
     (\<exists>url st body data uids. wGet w url = Reply st body \<and> decode_map body = Some data \<and>
        ParseArmoredKey L (getString data ''armored_key'') = Inr (bFingerprint b, uids) \<and>
        b = make_block L (bFingerprint b) (getString data ''armored_key'') uids
          (fst (toInt64 L (get data ''submit_timestamp''))) (getString data ''self_sig''))"

lemma publishes_check_entry:
  "publishes w P skip \<Longrightarrow> (\<And>b. publishes w P (added b)) \<Longrightarrow>
     publishes w P (check_entry L fp block eMap skip added key)"
  by (auto simp: check_entry_def Let_def split: option.split)

lemma publishes_apply_loop:
  assumes "\<And>base fp. publishes w P (fetch base fp)"
  shows "publishes w P (apply_loop L fetch fp base raws block existing)"
proof (induction raws arbitrary: block existing)
  case (Cons raw raws)
  then show ?case
    by (auto simp: Let_def assms split: any.split option.split intro!: publishes_check_entry publishes_bind)
qed simp

lemma publishes_applySigEntries:
  "(\<And>base fp. publishes w P (fetch base fp)) \<Longrightarrow> publishes w P (applySigEntries L fetch fp raws base)"
  by (auto simp: applySigEntries_def split: option.split intro!: publishes_apply_loop)

lemma publishes_fetch: "publishes w (from_network L w) (fetchAndStoreBlock n L cfg base fp)"
proof (induction n arbitrary: base fp)
  case (Suc n)
  have "publishes w (from_network L w) (validateAndStore L cfg (fetchAndStoreBlock n L cfg) data base)"
    if "wGet w url = Reply st body" "decode_map body = Some data" for url st body data
  proof -
    have "from_network L w (make_block L fp (getString data ''armored_key'') uids
        (fst (toInt64 L (get data ''submit_timestamp''))) (getString data ''self_sig''))"
      if "ParseArmoredKey L (getString data ''armored_key'') = Inr (fp, uids)" for fp uids
      unfolding from_network_def
      by (intro exI [of _ url] exI [of _ st] exI [of _ body] exI [of _ data] exI [of _ uids])
        (use that \<open>wGet w url = _\<close> \<open>decode_map body = _\<close> in \<open>simp add: make_block_def\<close>)
    then show ?thesis using Suc.IH
      by (auto simp: validateAndStore_def Let_def split: sum.split option.split any.split intro!: publishes_applySigEntries)
  qed
  then show ?case by (auto split: reply.split option.split)
qed simp

lemma publishes_SyncWithPeer: "publishes w (from_network L w) (SyncWithPeer n L cfg url)"
proof -
  have "publishes w (from_network L w) (syncSigChain n L cfg base fp)" for base fp
    by (auto simp: syncSigChain_def split: reply.split option.split any.split
        intro!: publishes_applySigEntries publishes_fetch)
  then have "publishes w (from_network L w) (pull_loop n L cfg base lh ph)" for base lh ph
    by (induction ph) (auto intro!: publishes_bind publishes_fetch split: option.split)
  moreover have "publishes w (from_network L w) (push_loop base ph lh)" for base ph lh
    by (induction lh) (auto split: option.split)
  ultimately show ?thesis
    by (auto simp: SyncWithPeer_def Let_def split: reply.split prod.split sum.split intro!: publishes_bind)
qed

section \<open>Properties\<close>

text \<open>
  C11.  Syncing with a peer and fetching a block from the peers return, on both stores and
  whatever the network answers, when the recursion may go one level deeper than there are keys
  in the documents the network serves that the store does not hold: each level of the recursion
  has stored another of them.  On the database this needs, besides, that the entries it holds
  when the run stops, be it stuck, have different hashes that rank above the hashes they point
  at: the hashes form no cycle, on which \<open>getSigEntries\<close> would loop for ever.
\<close>

theorem sync_terminates:
  assumes "finite (offered L w)"
  shows "(card (offered L w - dom (mget (nStore s))) < n \<longrightarrow>
      (\<exists>s'. run memory_ops w (SyncWithPeer n L cfg url) s = (Done (), s')) \<and>
      (\<exists>x s'. run memory_ops w (FetchBlockFromPeers n L cfg fp) s = (Done x, s'))) \<and>
    (card (offered L w - rFingerprint ` set (tBlocks (nStore t))) < n \<longrightarrow>
      (ranked rk (nStore (snd (run sqlite_ops w (SyncWithPeer n L cfg url) t))) \<longrightarrow>
        (\<exists>t'. run sqlite_ops w (SyncWithPeer n L cfg url) t = (Done (), t'))) \<and>
      (ranked rk (nStore (snd (run sqlite_ops w (FetchBlockFromPeers n L cfg fp) t))) \<longrightarrow>
        (\<exists>x t'. run sqlite_ops w (FetchBlockFromPeers n L cfg fp) t = (Done x, t'))))"
  using mem_returns_SyncWithPeer [OF assms, of s n cfg url] mem_returns_FetchBlockFromPeers [OF assms, of s n cfg fp]
    sql_reads.settles_returns [OF sql_keys.settles_SyncWithPeer [OF assms, of t n cfg url], of rk]
    sql_reads.settles_returns [OF sql_keys.settles_FetchBlockFromPeers [OF assms, of t n cfg fp], of rk]
  unfolding returns_def by simp

theorem sync_terminates_witness:
  "(\<exists>s'. run memory_ops sample_world (SyncWithPeer 1 sample_lib (cSync sample_config) ''http://p'') (node0 NewMemoryStore)
     = (Done (), s')) \<and>
   (\<exists>t'. run sqlite_ops sample_world (SyncWithPeer 1 sample_lib (cSync sample_config) ''http://p'') (node0 empty_db)
     = (Done (), t'))"
proof -
  have "offered sample_lib sample_world = {}" by (simp add: offered_def sample_world_def)
  moreover have "ranked length (nStore (snd (run sqlite_ops sample_world
      (SyncWithPeer 1 sample_lib (cSync sample_config) ''http://p'') (node0 empty_db))))"
    by (simp add: SyncWithPeer_def Let_def sample_world_def ranked_def entries_ok_def empty_db_def)
  ultimately show ?thesis
    using sync_terminates [of sample_lib sample_world "node0 NewMemoryStore" 1 "cSync sample_config" "''http://p''"
        "[]" "node0 empty_db" length] by simp
qed

lemma sync_stores:
  assumes "finite (offered L w)" and "card (offered L w - dom (mget (nStore s))) < n"
    and "wGet w (TrimRightSlash url @ ''/p2p/hashes'') = Reply 200 (Some (AObj hs))"
    and "\<forall>(fp, v) \<in> set hs. \<not> bad_string v" and "fp \<in> fst ` set hs"
    and "serves_block L cfg w (nClock s) (TrimRightSlash url) fp"
  shows "\<exists>s' b. run memory_ops w (SyncWithPeer n L cfg url) s = (Done (), s') \<and>
    mget (nStore s') fp = Some b"
proof -
  from mem_returns_SyncWithPeer [OF assms(1,2), of cfg url] obtain s' where
    s': "run memory_ops w (SyncWithPeer n L cfg url) s = (Done (), s')" by (auto simp: returns_def)
  have "fp \<in> dom (mget (nStore s'))"
  proof (cases "fp \<in> dom (mget (nStore s))")
    case True
    then show ?thesis using mem_keys.run_keys [of s w "SyncWithPeer n L cfg url"] s' by auto
  next
    case False
    let ?lh = "map (\<lambda>(fp, b). (fp, bSigChainHead b)) (nStore s)"
    let ?ph = "map (\<lambda>(k, v). (k, as_string v)) hs" and ?base = "TrimRightSlash url"
    have lh: "mget ?lh fp = None" using False by (auto simp: mem_Hashes_iff)
    from assms(5) obtain head where ph: "(fp, head) \<in> set ?ph" by force
    note run_SyncWithPeer [OF assms(3,4), of n L cfg s]
    moreover obtain s1 where s1: "run memory_ops w (pull_loop n L cfg ?base ?lh ?ph) s = (Done (), s1)"
      using mem_returns_pull_loop [OF assms(1,2), of cfg ?base ?lh ?ph] unfolding returns_def by auto
    ultimately have "run memory_ops w (push_loop ?base ?ph ?lh) s1 = (Done (), s')"
      using s' by (simp add: run_bind)
    then have "dom (mget (nStore s1)) \<subseteq> dom (mget (nStore s'))"
      using mem_keys.run_keys [of s1 w "push_loop ?base ?ph ?lh"] by simp
    moreover have "fp \<in> dom (mget (nStore s1))"
      using pull_loop_brings [OF assms(1,2,6) ph lh] s1 by simp
    ultimately show ?thesis by blast
  qed
  with s' show ?thesis by auto
qed

text \<open>
  C12.  Syncing brings the blocks, as they are served but unrevoked: take a peer that answers
  the request for its hashes and that serves, for a fingerprint among them, a block the node
  accepts, where the network serves no other document with a key of this fingerprint.  Then the
  sync returns, whatever else the peer serves, and the store holds under the fingerprint the
  block made of the key, the time and the self-signature served, but for the entries that were
  applied to it: not revoked, whether or not it was served as revoked.  If the store held the
  fingerprint before, nothing but its entries changed.
\<close>

theorem sync_brings_blocks:
  assumes "finite (offered L w)" and "card (offered L w - dom (mget (nStore s))) < n"
    and "wGet w (TrimRightSlash url @ ''/p2p/hashes'') = Reply 200 (Some (AObj hs))"
    and "\<forall>(fp, v) \<in> set hs. \<not> bad_string v" and "fp \<in> fst ` set hs"
    and "serves_data L cfg w (nClock s) (TrimRightSlash url) fp data uids"
    and "\<forall>u st body d us. wGet w u = Reply st body \<and> decode_map body = Some d \<and>
      ParseArmoredKey L (getString d ''armored_key'') = Inr (fp, us) \<longrightarrow> d = data"
  shows "\<exists>s' es head. run memory_ops w (SyncWithPeer n L cfg url) s = (Done (), s') \<and>
    mem_Get fp (nStore s') = Inr (Some
      ((case mget (nStore s) fp of
          Some b \<Rightarrow> b
        | None \<Rightarrow> make_block L fp (getString data ''armored_key'') uids
            (fst (toInt64 L (get data ''submit_timestamp''))) (getString data ''self_sig''))
       \<lparr>bSigEntries := es, bSigChainHead := head\<rparr>))"
proof -
  from sync_stores [OF assms(1-5)] assms(6) obtain s' b where
    s': "run memory_ops w (SyncWithPeer n L cfg url) s = (Done (), s')" "mget (nStore s') fp = Some b"
    unfolding serves_block_def by blast
  from publishedD [OF run_published [OF publishes_SyncWithPeer [of w L n cfg url], of s], where fp = fp and b = b] s'
  obtain c where
    c: "bare b = bare c" "mget (nStore s) fp = Some c \<or> mget (nStore s) fp = None \<and> bFingerprint c = fp \<and> from_network L w c"
    by (metis snd_conv)
  have "c = (case mget (nStore s) fp of Some b \<Rightarrow> b | None \<Rightarrow> make_block L fp (getString data ''armored_key'') uids
      (fst (toInt64 L (get data ''submit_timestamp''))) (getString data ''self_sig''))"
    using c(2) assms(7) assms(6) by (fastforce simp: from_network_def serves_data_def)
  with s' bare_eqD [OF c(1)] show ?thesis unfolding mem_Get_def by auto
qed

definition serving_world :: world where
  "serving_world = sample_world\<lparr>wGet := (\<lambda>url.
     if url = ''http://p/p2p/hashes'' then Reply 200 (Some (AObj [(''41'', AStr [])]))
     else if url = ''http://p/block/41'' then Reply 200 (Some (AObj [(''armored_key'', AStr ''A''),
       (''self_sig'', AStr (sample_self_sig ''A'')), (''submit_timestamp'', AFloat 0 0)]))
     else Unreachable)\<rparr>"

lemma serving_world_serves:
  "serves_data sample_lib (cSync sample_config) serving_world now ''http://p'' ''41''
     [(''armored_key'', AStr ''A''), (''self_sig'', AStr (sample_self_sig ''A'')), (''submit_timestamp'', AFloat 0 0)]
     [''A@example.org'']"
proof -
  have "VerifyDetachedSig sample_lib now (SubmitPayload sample_lib ''41'' ''A'' 0) (sample_self_sig ''A'') ''A''" for now
    using sample_verify [of "''A''"] by (simp add: sample_self_sig_def sample_fp_A)
  then show ?thesis
    using sample_parse [of "''A''"]
    by (simp add: serves_data_def serving_world_def getString_def sample_fp_A)
      (simp add: sample_config_def main_config_def sample_flags_def Let_def)
qed

theorem sync_brings_blocks_witness:
  "\<exists>s' es head. run memory_ops serving_world (SyncWithPeer 3 sample_lib (cSync sample_config) ''http://p'')
     (node0 NewMemoryStore) = (Done (), s') \<and>
     mem_Get ''41'' (nStore s') = Inr (Some (sample_key_block ''A''\<lparr>bSigEntries := es, bSigChainHead := head\<rparr>))"
proof -
  let ?data = "[(''armored_key'', AStr ''A''), (''self_sig'', AStr (sample_self_sig ''A'')), (''submit_timestamp'', AFloat 0 0)]"
  have "ParseArmoredKey sample_lib [] = Inl ''parse armored key: read entity: EOF''"
    by (simp add: ParseArmoredKey_def readEntity_def sample_lib_def)
  then have only: "fp = ''41'' \<and> data = ?data"
    if "wGet serving_world url = Reply st body" "decode_map body = Some data"
      "ParseArmoredKey sample_lib (getString data ''armored_key'') = Inr (fp, uids)" for fp url st body data uids
    using that sample_parse [of "''A''"] sample_fp_A
    by (auto simp: serving_world_def sample_world_def getString_def split: if_splits)
  then have sub: "offered sample_lib serving_world \<subseteq> {''41''}" by (auto simp: offered_def)
  then have fin: "finite (offered sample_lib serving_world)" by (rule finite_subset) simp
  have "card (offered sample_lib serving_world - dom (mget (nStore (node0 NewMemoryStore)))) \<le> card {''41''}"
    using sub by (intro card_mono) auto
  then have fuel: "card (offered sample_lib serving_world - dom (mget (nStore (node0 NewMemoryStore)))) < 3" by simp
  have hashes: "wGet serving_world (TrimRightSlash ''http://p'' @ ''/p2p/hashes'') = Reply 200 (Some (AObj [(''41'', AStr [])]))"
    by (simp add: serving_world_def TrimRightSlash_def)
  have serves: "serves_data sample_lib (cSync sample_config) serving_world (nClock (node0 NewMemoryStore))
      (TrimRightSlash ''http://p'') ''41'' ?data [''A@example.org'']"
    using serving_world_serves by (simp add: TrimRightSlash_def)
  have "mget (nStore (node0 NewMemoryStore)) ''41'' = None" by (simp add: NewMemoryStore_def mget_def)
  moreover have "make_block sample_lib ''41'' ''A'' [''A@example.org''] 0 (sample_self_sig ''A'') = sample_key_block ''A''"
    by (simp add: sample_key_block_def sample_fp_A)
  moreover have "fst (toInt64 sample_lib (get ?data ''submit_timestamp'')) = 0" by (simp add: getInt64_toInt64 [symmetric])
  moreover have "\<forall>u st body d us. wGet serving_world u = Reply st body \<and> decode_map body = Some d \<and>
      ParseArmoredKey sample_lib (getString d ''armored_key'') = Inr (''41'', us) \<longrightarrow> d = ?data"
    using only by blast
  ultimately show ?thesis
    using sync_brings_blocks [OF fin fuel hashes _ _ serves] by (simp add: getString_def)
qed

text \<open>
  A refused request that changes the ledger: \<open>POST /p2p/sign\<close> with a worthless signature in the
  name of a key the node does not hold answers 400, after the block of that key was fetched
  from a peer and stored.
\<close>

definition worthless_sign :: request where
  "worthless_sign = \<lparr>rqBody = Some (AObj [(''fingerprint'', AStr ''42''), (''entry'', AObj [(''prev_hash'', AStr ''0''),
     (''signer_fingerprint'', AStr ''41''), (''sig'', AStr ''x'')])]), rqQ = [], rqForwardedFor = []\<rparr>"

lemma refused_signature_stores_block:
  assumes "nStore s = [(''42'', sample_key_block ''B'')]" and "plPeers (nPeers s) = [''http://p'']"
  shows "\<exists>s' b. run memory_ops serving_world (serve 1 sample_lib sample_config ''POST'' ''/p2p/sign'' worthless_sign) s =
      (Done (Response 400 b), s') \<and> mget (nStore s) ''41'' = None \<and> mget (nStore s') ''41'' \<noteq> None"
proof -
  let ?fetch = "fetchAndStoreBlock 1 sample_lib (cSync sample_config) ''http://p'' ''41''"
  obtain s1 where run: "run memory_ops serving_world ?fetch s = (Done (), s1)"
    "nStore s1 = mset_key ''41'' (make_block sample_lib ''41'' ''A'' [''A@example.org''] 0 (sample_self_sig ''A'')) (nStore s)"
    using serving_world_serves [of "nClock s"] assms(1)
    by (auto simp: serves_data_def serving_world_def validateAndStore_def Let_def mem_defs mget_Cons getString_def make_block_def)
  have "\<not> VerifyDetachedSig sample_lib now payload ''x'' key" for now payload key
  proof -
    have "DecodeString ''x'' = None" by code_simp
    then show ?thesis by (simp add: VerifyDetachedSig_def)
  qed
  moreover have "\<not> bRevoked (sample_key_block ''B'')" by (simp add: sample_key_block_def make_block_def)
  ultimately have "\<exists>b. run memory_ops serving_world (serve 1 sample_lib sample_config ''POST'' ''/p2p/sign'' worthless_sign) s =
      (Done (Response 400 b), s1)"
    using run assms
    by (simp add: serve_p2p_sign handleP2PReceiveSig_def worthless_sign_def getString_def Let_def memory_ops_def mem_Get_def
        mget_Cons FetchBlockFromPeers_def pl_All_def run_bind TrimRightSlash_def receive_with_key_def
        del: fetchAndStoreBlock.simps)
  with run(2) assms(1) show ?thesis by (auto simp: mget_Cons)
qed

end
