(* ===== verification/Document.thy ===== *)
theory Document
  imports Json
begin

text \<open>
  JSON documents as the client programs read them: \<open>encoding/json\<close> decoding into Go structs
  (\<open>chain.Block\<close>, \<open>chain.SigEntry\<close>).  A document keeps the literal of each number, since a
  field of type \<open>int64\<close> is read from the literal and not through a \<open>float64\<close>.

  Decoding into a struct looks each field up by its name, ignoring case; a missing field and
  \<open>null\<close> leave the zero value; a value of the wrong type leaves it too, and the decoder goes
  on and reports an error at the end.  So a decoder here returns the value together with
  whether there was an error.  (Documents in which one object has two keys that are equal up
  to case are read by their first; the code never writes such.)
\<close>

section \<open>Documents\<close>

datatype doc =
    DNull
  | DBool bool
  | DNum string
  | DStr string
  | DArr "doc list"
  | DObj "(string \<times> doc) list"

text \<open>Encoding a value of the code; \<open>fmtF\<close> prints a \<open>float64\<close>.\<close>

fun encode :: "(int \<Rightarrow> int \<Rightarrow> string) \<Rightarrow> any \<Rightarrow> doc" where
  "encode fmtF ANil = DNull"
| "encode fmtF (ABool b) = DBool b"
| "encode fmtF (AFloat m e) = DNum (fmtF m e)"
| "encode fmtF (AInt64 x) = DNum (fmt_d (sint x))"
| "encode fmtF (AInt x) = DNum (fmt_d (sint x))"
| "encode fmtF (AStr s) = DStr (utf8_fix s)"
| "encode fmtF (AArr xs) = DArr (map (encode fmtF) xs)"
| "encode fmtF (AObj m) = DObj (map (\<lambda>(k, v). (utf8_fix k, encode fmtF v)) m)"

text \<open>Decoding into \<open>any\<close>; \<open>parseF\<close> reads a \<open>float64\<close>.\<close>

fun decode_any :: "(string \<Rightarrow> int \<times> int) \<Rightarrow> doc \<Rightarrow> any" where
  "decode_any parseF DNull = ANil"
| "decode_any parseF (DBool b) = ABool b"
| "decode_any parseF (DNum lit) = (case parseF lit of (m, e) \<Rightarrow> AFloat m e)"
| "decode_any parseF (DStr s) = AStr s"
| "decode_any parseF (DArr xs) = AArr (map (decode_any parseF) xs)"
| "decode_any parseF (DObj m) = AObj (map (\<lambda>(k, v). (k, decode_any parseF v)) m)"

text \<open>What \<open>wire\<close> says of two nodes is what these two do, one after the other.\<close>

lemma decode_any_encode:
  assumes "\<And>n. (case parseF (fmt_d n) of (m, e) \<Rightarrow> AFloat m e) = float_of_int n"
    and "\<And>m e. parseF (fmtF m e) = (m, e)"
  shows "decode_any parseF (encode fmtF v) = wire v"
  by (induction v) (auto simp: assms)

section \<open>Decoding into structs\<close>

definition field :: "lib \<Rightarrow> (string \<times> doc) list \<Rightarrow> string \<Rightarrow> doc" where
  "field L m name = (case find (\<lambda>(k, v). EqualFold L k name) m of None \<Rightarrow> DNull | Some (k, v) \<Rightarrow> v)"

fun dec_string :: "doc \<Rightarrow> string \<times> bool" where
  "dec_string DNull = ([], False)"
| "dec_string (DStr s) = (s, False)"
| "dec_string _ = ([], True)"

fun dec_bool :: "doc \<Rightarrow> bool \<times> bool" where
  "dec_bool DNull = (False, False)"
| "dec_bool (DBool b) = (b, False)"
| "dec_bool _ = (False, True)"

text \<open>\<open>strconv.ParseInt\<close> with base 10 and 64 bits.\<close>

definition ParseInt64 :: "string \<Rightarrow> int64 option" where
  "ParseInt64 s =
     (let (neg, ds) = (case s of [] \<Rightarrow> (False, []) | c # r \<Rightarrow> if c = CHR ''-'' then (True, r) else (False, s));
          n = (if neg then - int (undec ds) else int (undec ds)) in
      if ds \<noteq> [] \<and> list_all (\<lambda>c. 48 \<le> byte c \<and> byte c \<le> 57) ds \<and> - (2 ^ 63) \<le> n \<and> n < 2 ^ 63
      then Some (word_of_int n) else None)"

fun dec_int64 :: "doc \<Rightarrow> int64 \<times> bool" where
  "dec_int64 DNull = (0, False)"
| "dec_int64 (DNum lit) = (case ParseInt64 lit of None \<Rightarrow> (0, True) | Some i \<Rightarrow> (i, False))"
| "dec_int64 _ = (0, True)"

text \<open>A slice: \<open>None\<close> is nil.\<close>

fun dec_slice :: "(doc \<Rightarrow> 'a \<times> bool) \<Rightarrow> doc \<Rightarrow> 'a list option \<times> bool" where
  "dec_slice f DNull = (None, False)"
| "dec_slice f (DArr xs) = (Some (map (\<lambda>x. fst (f x)) xs), list_ex (\<lambda>x. snd (f x)) xs)"
| "dec_slice f _ = (None, True)"

definition slice :: "'a list option \<Rightarrow> 'a list" where
  "slice xs = (case xs of None \<Rightarrow> [] | Some xs \<Rightarrow> xs)"

definition zero_entry :: SigEntry where
  "zero_entry = \<lparr>seHash = [], sePrevHash = [], seSigner = [], seSig = [], seTimestamp = 0,
     seSignerKey = [], seSourceNode = []\<rparr>"

definition zero_block :: Block where
  "zero_block = \<lparr>bHash = [], bFingerprint = [], bArmoredKey = [], bUIDs = [], bSubmitTimestamp = 0,
     bSelfSig = [], bSigChainHead = [], bSigEntries = [], bRevoked = False, bRevocationSig = []\<rparr>"

text \<open>A \<open>*SigEntry\<close>: \<open>null\<close> is the nil pointer, anything else allocates.\<close>

definition entry_fields :: "lib \<Rightarrow> (string \<times> doc) list \<Rightarrow> SigEntry \<times> bool" where
  "entry_fields L m =
     (let h = dec_string (field L m ''hash''); p = dec_string (field L m ''prev_hash'');
          fp = dec_string (field L m ''signer_fingerprint''); s = dec_string (field L m ''sig'');
          t = dec_int64 (field L m ''timestamp''); k = dec_string (field L m ''signer_armored_key'');
          n = dec_string (field L m ''source_node'') in
      (\<lparr>seHash = fst h, sePrevHash = fst p, seSigner = fst fp, seSig = fst s, seTimestamp = fst t,
         seSignerKey = fst k, seSourceNode = fst n\<rparr>,
       snd h \<or> snd p \<or> snd fp \<or> snd s \<or> snd t \<or> snd k \<or> snd n))"

definition dec_entry :: "lib \<Rightarrow> doc \<Rightarrow> SigEntry option \<times> bool" where
  "dec_entry L d =
     (case d of
        DNull \<Rightarrow> (None, False)
      | DObj m \<Rightarrow> (Some (fst (entry_fields L m)), snd (entry_fields L m))
      | _ \<Rightarrow> (Some zero_entry, True))"

text \<open>
  A decoded block, whose slice of entries may hold nil pointers: these are \<open>zero_entry\<close> in the
  block, and the second component is the position of the first, where reading the entries one
  after the other dereferences nil.
\<close>

datatype dblock = DBlock (db_block: Block) (db_first_nil: "nat option")

definition db_nil :: "dblock \<Rightarrow> bool" where
  "db_nil b \<longleftrightarrow> db_first_nil b \<noteq> None"

fun first_nil :: "nat \<Rightarrow> 'a option list \<Rightarrow> nat option" where
  "first_nil i [] = None"
| "first_nil i (None # es) = Some i"
| "first_nil i (Some e # es) = first_nil (Suc i) es"

lemma first_nil_map_Some [simp]: "first_nil i (map Some es) = None"
  by (induction es arbitrary: i) simp_all

definition block_fields :: "lib \<Rightarrow> (string \<times> doc) list \<Rightarrow> dblock \<times> bool" where
  "block_fields L m =
     (let h = dec_string (field L m ''hash''); fp = dec_string (field L m ''fingerprint'');
          k = dec_string (field L m ''armored_key''); u = dec_slice dec_string (field L m ''uids'');
          t = dec_int64 (field L m ''submit_timestamp''); s = dec_string (field L m ''self_sig'');
          hd = dec_string (field L m ''sig_chain_head''); es = dec_slice (dec_entry L) (field L m ''sig_chain'');
          r = dec_bool (field L m ''revoked''); rs = dec_string (field L m ''revocation_sig'') in
      (DBlock \<lparr>bHash = fst h, bFingerprint = fst fp, bArmoredKey = fst k, bUIDs = slice (fst u),
           bSubmitTimestamp = fst t, bSelfSig = fst s, bSigChainHead = fst hd,
           bSigEntries = map (\<lambda>e. case e of None \<Rightarrow> zero_entry | Some e \<Rightarrow> e) (slice (fst es)),
           bRevoked = fst r, bRevocationSig = fst rs\<rparr>
         (first_nil 0 (slice (fst es))),
       snd h \<or> snd fp \<or> snd k \<or> snd u \<or> snd t \<or> snd s \<or> snd hd \<or> snd es \<or> snd r \<or> snd rs))"

definition dec_block :: "lib \<Rightarrow> doc \<Rightarrow> dblock \<times> bool" where
  "dec_block L d =
     (case d of
        DNull \<Rightarrow> (DBlock zero_block None, False)
      | DObj m \<Rightarrow> block_fields L m
      | _ \<Rightarrow> (DBlock zero_block None, True))"

text \<open>A \<open>*Block\<close>, and a slice of them.\<close>

definition dec_block_ptr :: "lib \<Rightarrow> doc \<Rightarrow> dblock option \<times> bool" where
  "dec_block_ptr L d = (if d = DNull then (None, False) else (Some (fst (dec_block L d)), snd (dec_block L d)))"

definition dec_blocks :: "lib \<Rightarrow> doc \<Rightarrow> dblock option list option \<times> bool" where
  "dec_blocks L d = dec_slice (dec_block_ptr L) d"

section \<open>A served block is read back\<close>

lemma ParseInt64_fmt_d: "ParseInt64 (fmt_d (sint (x :: int64))) = Some x"
proof -
  have digits: "list_all (\<lambda>c. 48 \<le> byte c \<and> byte c \<le> 57) (dec_digits n)" for n
    using dec_digits_chars by (simp add: list_all_iff)
  have head: "dec_digits n = c # r \<Longrightarrow> c \<noteq> CHR ''-''" for n c r using dec_digits_not_minus by blast
  have range: "- (2 ^ 63) \<le> sint x" "sint x < 2 ^ 63"
    using sint_greater_eq [of x] sint_less [of x] by simp_all
  show ?thesis
  proof (cases "sint x < 0")
    case True
    then show ?thesis using range digits
      by (simp add: ParseInt64_def fmt_d_def Let_def)
  next
    case False
    obtain c r where cr: "dec_digits (nat (sint x)) = c # r" by (cases "dec_digits (nat (sint x))") auto
    have "undec (c # r) = nat (sint x)" "list_all (\<lambda>c. 48 \<le> byte c \<and> byte c \<le> 57) (c # r)"
      using digits cr by (metis undec_dec_digits, metis)
    then show ?thesis using False range head [OF cr]
      by (simp add: ParseInt64_def fmt_d_def Let_def cr)
  qed
qed

text \<open>Names of fields are lower case, so folding does not confuse them.\<close>

definition lower_ascii :: "string \<Rightarrow> bool" where
  "lower_ascii s \<longleftrightarrow> list_all (\<lambda>c. 91 \<le> byte c \<and> byte c < 128) s"

lemma EqualFold_lower: "lower_ascii s \<Longrightarrow> lower_ascii t \<Longrightarrow> EqualFold L s t \<longleftrightarrow> s = t"
proof -
  have id: "map lower_char s = s" if "lower_ascii s" for s
    using that by (induction s) (auto simp: lower_ascii_def lower_char_def)
  have "ascii s" if "lower_ascii s" for s using that by (auto simp: lower_ascii_def ascii_def list_all_iff)
  then show "lower_ascii s \<Longrightarrow> lower_ascii t \<Longrightarrow> EqualFold L s t \<longleftrightarrow> s = t" by (simp add: EqualFold_def id)
qed

lemma field_simps:
  "field L [] name = DNull"
  "lower_ascii k \<Longrightarrow> lower_ascii name \<Longrightarrow> field L ((k, v) # m) name = (if k = name then v else field L m name)"
  by (simp_all add: field_def EqualFold_lower)

text \<open>The strings of a block survive encoding when they are valid UTF-8.\<close>

definition utf8_entry :: "SigEntry \<Rightarrow> bool" where
  "utf8_entry e \<longleftrightarrow> (\<forall>s \<in> {seHash e, sePrevHash e, seSigner e, seSig e, seSignerKey e, seSourceNode e}. utf8_fix s = s)"

definition utf8_block :: "Block \<Rightarrow> bool" where
  "utf8_block b \<longleftrightarrow>
     (\<forall>s \<in> {bHash b, bFingerprint b, bArmoredKey b, bSelfSig b, bSigChainHead b, bRevocationSig b} \<union> set (bUIDs b).
        utf8_fix s = s) \<and> (\<forall>e \<in> set (bSigEntries b). utf8_entry e)"

lemmas encode_fields = utf8_fix_ascii ascii_def lower_ascii_def byte_def field_simps ParseInt64_fmt_d

lemma dec_entry_encode:
  "utf8_entry e \<Longrightarrow> dec_entry L (encode F (sigEntryToMap e)) = (Some e, False)"
  by (cases e) (simp add: sigEntryToMap_def dec_entry_def entry_fields_def utf8_entry_def encode_fields Let_def)

lemma dec_strings_encode:
  "\<forall>s \<in> set xs. utf8_fix s = s \<Longrightarrow>
     slice (fst (dec_slice dec_string (encode F (strings_any xs)))) = xs \<and>
     \<not> snd (dec_slice dec_string (encode F (strings_any xs)))"
  by (cases "xs = []") (auto simp: strings_any_def slice_def list_ex_iff comp_def map_idI)

lemma dec_block_encode:
  assumes "utf8_block b" shows "dec_block L (encode F (blockToMap b)) = (DBlock b None, False)"
proof -
  have "\<forall>e \<in> set (bSigEntries b). dec_entry L (encode F (sigEntryToMap e)) = (Some e, False)"
    using assms by (simp add: utf8_block_def dec_entry_encode)
  then have "dec_slice (dec_entry L) (encode F (AArr (map sigEntryToMap (bSigEntries b)))) =
      (Some (map Some (bSigEntries b)), False)"
    by (simp add: list_ex_iff)
  moreover have "map ((\<lambda>e. case e of None \<Rightarrow> zero_entry | Some e \<Rightarrow> e) \<circ> Some) es = es" for es
    by (induction es) simp_all
  ultimately show ?thesis
    using assms dec_strings_encode [of "bUIDs b" F]
    unfolding dec_block_def blockToMap_def encode.simps(8) list.map prod.case doc.case block_fields_def Let_def
    by (cases b) (simp add: utf8_block_def encode_fields slice_def list_ex_iff del: encode.simps(7))
qed

end
