(* ===== verification/Discovery.thy ===== *)
theory Discovery
  imports Document Trust Peers
begin

text \<open>
  Key discovery of the client (\<open>internal/discovery/discovery.go\<close>): a search over the graph of
  nodes, which asks each node for a key and then for the peers it knows.

  The network is a function that may answer a request in view of all requests made before;
  a program returns, with its result, the requests it made so far.  A nil pointer in a
  decoded document that the code goes on to use ends the program: \<open>None\<close>.
\<close>

section \<open>The network\<close>

datatype http_req = GET string | POST string any
datatype answer = Fail | Answer int "doc option"

type_synonym history = "http_req list"
type_synonym network = "history \<Rightarrow> http_req \<Rightarrow> answer"

definition ask :: "network \<Rightarrow> http_req \<Rightarrow> history \<Rightarrow> answer \<times> history" where
  "ask net r h = (net h r, h @ [r])"

section \<open>Fetching\<close>

record TrustConfig =
  tcRootFP :: string
  tcThreshold :: int
  tcMaxDepth :: int

record NodeBlock =
  nbNodeURL :: string
  nbBlock :: dblock

record BlockResult =
  brFound :: bool
  brNodeURL :: string
  brBlock :: "dblock option"
  brNodesTried :: int
  brTrustScore :: int
  brAllCopies :: "NodeBlock list"

record wkResponse =
  wkPeerNodes :: "PeerNode list option"
  wkPeers :: "string list"

definition dec_peer_node :: "lib \<Rightarrow> doc \<Rightarrow> PeerNode \<times> bool" where
  "dec_peer_node L d =
     (let m = (case d of DObj m \<Rightarrow> m | _ \<Rightarrow> []);
          u = dec_string (field L m ''url''); ds = dec_slice dec_string (field L m ''domains'');
          a = dec_bool (field L m ''allow_all'') in
      (\<lparr>pnURL = fst u, pnDomains = slice (fst ds), pnAllowAll = fst a\<rparr>,
       snd u \<or> snd ds \<or> snd a \<or> (case d of DObj m \<Rightarrow> False | DNull \<Rightarrow> False | _ \<Rightarrow> True)))"

definition dec_wkResponse :: "lib \<Rightarrow> doc option \<Rightarrow> wkResponse" where
  "dec_wkResponse L body =
     (let m = (case body of Some (DObj m) \<Rightarrow> m | _ \<Rightarrow> []) in
      \<lparr>wkPeerNodes = fst (dec_slice (dec_peer_node L) (field L m ''peer_nodes'')),
       wkPeers = slice (fst (dec_slice dec_string (field L m ''peers'')))\<rparr>)"

definition fetchWellKnown :: "lib \<Rightarrow> network \<Rightarrow> string \<Rightarrow> history \<Rightarrow> wkResponse option \<times> history" where
  "fetchWellKnown L net nodeURL h =
     (case ask net (GET (TrimRightSlash nodeURL @ ''/.well-known/gpgchain.json'')) h of
        (Fail, h) \<Rightarrow> (None, h)
      | (Answer status body, h) \<Rightarrow>
          (Some (dec_wkResponse L (if status \<noteq> 200 then None else body)), h))"

definition fetchBlock :: "lib \<Rightarrow> network \<Rightarrow> string \<Rightarrow> string \<Rightarrow> history \<Rightarrow> dblock option \<times> history" where
  "fetchBlock L net nodeURL fingerprint h =
     (case ask net (GET (TrimRightSlash nodeURL @ ''/block/'' @ fingerprint)) h of
        (Fail, h) \<Rightarrow> (None, h)
      | (Answer status body, h) \<Rightarrow>
          (if status \<noteq> 200 then None
           else (case body of
             None \<Rightarrow> None
           | Some d \<Rightarrow> (case dec_block L d of (b, bad) \<Rightarrow> if bad then None else Some b)), h))"

text \<open>\<open>None\<close> when there was an error or the slice is nil; an element may be a nil pointer.\<close>

definition fetchAllBlocks :: "lib \<Rightarrow> network \<Rightarrow> string \<Rightarrow> history \<Rightarrow> dblock option list option \<times> history" where
  "fetchAllBlocks L net nodeURL h =
     (case ask net (GET (TrimRightSlash nodeURL @ ''/blocks'')) h of
        (Fail, h) \<Rightarrow> (None, h)
      | (Answer status body, h) \<Rightarrow>
          (if status \<noteq> 200 then None
           else (case body of
             None \<Rightarrow> None
           | Some d \<Rightarrow> (case dec_blocks L d of (bs, bad) \<Rightarrow> if bad then None else bs)), h))"

section \<open>The frontier\<close>

record frontier =
  frExact :: "string list"
  frAllowAll :: "string list"
  frNormal :: "string list"
  frVisited :: "string list"

definition containsDomain :: "lib \<Rightarrow> string list \<Rightarrow> string \<Rightarrow> bool" where
  "containsDomain L domains target = list_ex (\<lambda>d. EqualFold L d target) domains"

fun enqueue_nodes :: "lib \<Rightarrow> string \<Rightarrow> PeerNode list \<Rightarrow> frontier \<Rightarrow> frontier" where
  "enqueue_nodes L targetDomain [] f = f"
| "enqueue_nodes L targetDomain (pn # pns) f =
     (let u = TrimRightSlash (pnURL pn) in
      enqueue_nodes L targetDomain pns
        (if u = [] \<or> u \<in> set (frVisited f) then f
         else
           (let f = f\<lparr>frVisited := frVisited f @ [u]\<rparr> in
            if targetDomain \<noteq> [] \<and> containsDomain L (pnDomains pn) targetDomain
            then f\<lparr>frExact := frExact f @ [u]\<rparr>
            else if targetDomain \<noteq> [] \<and> pnAllowAll pn then f\<lparr>frAllowAll := frAllowAll f @ [u]\<rparr>
            else f\<lparr>frNormal := frNormal f @ [u]\<rparr>)))"

fun enqueue_urls :: "string list \<Rightarrow> frontier \<Rightarrow> frontier" where
  "enqueue_urls [] f = f"
| "enqueue_urls (raw # raws) f =
     (let u = TrimRightSlash raw in
      enqueue_urls raws
        (if u = [] \<or> u \<in> set (frVisited f) then f
         else f\<lparr>frVisited := frVisited f @ [u], frNormal := frNormal f @ [u]\<rparr>))"

definition enqueuePeers :: "lib \<Rightarrow> wkResponse \<Rightarrow> string \<Rightarrow> frontier \<Rightarrow> frontier" where
  "enqueuePeers L wk targetDomain f =
     (case wkPeerNodes wk of
        Some pns \<Rightarrow> enqueue_nodes L targetDomain pns f
      | None \<Rightarrow> enqueue_urls (wkPeers wk) f)"

definition nextNode :: "frontier \<Rightarrow> string \<times> frontier" where
  "nextNode f =
     (if frExact f \<noteq> [] then (hd (frExact f), f\<lparr>frExact := tl (frExact f)\<rparr>)
      else if frAllowAll f \<noteq> [] then (hd (frAllowAll f), f\<lparr>frAllowAll := tl (frAllowAll f)\<rparr>)
      else (hd (frNormal f), f\<lparr>frNormal := tl (frNormal f)\<rparr>))"

definition hasQueued :: "frontier \<Rightarrow> bool" where
  "hasQueued f \<longleftrightarrow> frExact f \<noteq> [] \<or> frAllowAll f \<noteq> [] \<or> frNormal f \<noteq> []"

definition normaliseURL :: "lib \<Rightarrow> string \<Rightarrow> string" where
  "normaliseURL L raw =
     (let u = TrimRightSlash raw in
      if u = [] then [] else (case urlParse L u of None \<Rightarrow> [] | Some (scheme, host) \<Rightarrow> if scheme = [] then [] else u))"

fun seed_nodes :: "lib \<Rightarrow> string list \<Rightarrow> frontier \<Rightarrow> frontier" where
  "seed_nodes L [] f = f"
| "seed_nodes L (raw # raws) f =
     (let u = normaliseURL L raw in
      seed_nodes L raws
        (if u \<noteq> [] \<and> u \<notin> set (frVisited f)
         then f\<lparr>frVisited := frVisited f @ [u], frNormal := frNormal f @ [u]\<rparr> else f))"

definition new_frontier :: frontier where
  "new_frontier = \<lparr>frExact = [], frAllowAll = [], frNormal = [], frVisited = []\<rparr>"

section \<open>FindBlock\<close>

definition sigs :: "dblock \<Rightarrow> nat" where
  "sigs b = length (bSigEntries (db_block b))"

definition bestCopy :: "NodeBlock list \<Rightarrow> NodeBlock" where
  "bestCopy copies =
     fold (\<lambda>nb best. if sigs (nbBlock nb) > sigs (nbBlock best) then nb else best) (tl copies) (hd copies)"

definition blockSlice :: "(string, dblock) gomap \<Rightarrow> dblock list" where
  "blockSlice m = map snd m"

text \<open>\<open>trust.Build\<close> on decoded blocks; it reads the entries of the blocks that are not revoked.\<close>

definition build_blocks :: "dblock list \<Rightarrow> Graph option" where
  "build_blocks bs =
     (if list_ex (\<lambda>b. db_nil b \<and> \<not> bRevoked (db_block b)) bs then None else Some (Build (map db_block bs)))"

fun accumulate :: "dblock option list \<Rightarrow> (string, dblock) gomap \<Rightarrow> (string, dblock) gomap option" where
  "accumulate [] acc = Some acc"
| "accumulate (None # bs) acc = None"
| "accumulate (Some b # bs) acc =
     (let fp = bFingerprint (db_block b) in
      accumulate bs
        (if fp = [] then acc
         else (case mget acc fp of
           None \<Rightarrow> mset_key fp b acc
         | Some existing \<Rightarrow> if sigs b > sigs existing then mset_key fp b acc else acc)))"

record search =
  seFrontier :: frontier
  seCopies :: "NodeBlock list"
  seAccumulated :: "(string, dblock) gomap"

definition trust_score :: "lib \<Rightarrow> TrustConfig \<Rightarrow> string \<Rightarrow> (string, dblock) gomap \<Rightarrow> int option" where
  "trust_score L tc fp acc =
     map_option (\<lambda>g. Score g fp (ToUpper L (tcRootFP tc)) (tcMaxDepth tc)) (build_blocks (blockSlice acc))"

definition found :: "search \<Rightarrow> int \<Rightarrow> BlockResult" where
  "found st sc =
     (let best = bestCopy (seCopies st) in
      \<lparr>brFound = True, brNodeURL = nbNodeURL best, brBlock = Some (nbBlock best),
       brNodesTried = int (length (frVisited (seFrontier st))), brTrustScore = sc, brAllCopies = seCopies st\<rparr>)"

text \<open>
  The body of the loop, up to the peers: \<open>None\<close> is a nil dereference, \<open>Some (Inl r)\<close> returns
  \<open>r\<close>, \<open>Some (Inr st)\<close> goes on.
\<close>

definition try_node ::
    "lib \<Rightarrow> network \<Rightarrow> string \<Rightarrow> TrustConfig option \<Rightarrow> string \<Rightarrow> search \<Rightarrow> history \<Rightarrow>
     (BlockResult + search) option \<times> history" where
  "try_node L net fp tc nodeURL st h =
     (case fetchBlock L net nodeURL fp h of
        (None, h) \<Rightarrow> (Some (Inr st), h)
      | (Some block, h) \<Rightarrow>
          (let st = st\<lparr>seCopies := seCopies st @ [\<lparr>nbNodeURL = nodeURL, nbBlock = block\<rparr>]\<rparr> in
           case tc of
             None \<Rightarrow> (Some (Inr st), h)
           | Some tc \<Rightarrow>
               (case fetchAllBlocks L net nodeURL h of (all, h) \<Rightarrow>
                 (case (case all of None \<Rightarrow> Some (seAccumulated st) | Some bs \<Rightarrow> accumulate bs (seAccumulated st)) of
                    None \<Rightarrow> (None, h)
                  | Some acc \<Rightarrow>
                      (case trust_score L tc fp acc of
                         None \<Rightarrow> (None, h)
                       | Some sc \<Rightarrow>
                           (let st = st\<lparr>seAccumulated := acc\<rparr> in
                            if sc \<ge> tcThreshold tc then (Some (Inl (found st sc)), h) else (Some (Inr st), h)))))))"

definition ask_peers :: "lib \<Rightarrow> network \<Rightarrow> string \<Rightarrow> string \<Rightarrow> frontier \<Rightarrow> history \<Rightarrow> frontier \<times> history" where
  "ask_peers L net domainHint nodeURL f h =
     (case fetchWellKnown L net nodeURL h of
        (None, h) \<Rightarrow> (f, h)
      | (Some wk, h) \<Rightarrow> (enqueuePeers L wk domainHint f, h))"

text \<open>
  Every node that is put into a queue is put into \<open>visited\<close> at the same time, so the number of
  nodes taken out of the queues is the difference of the two, and the loop takes out at most
  \<open>maxNodes\<close>.
\<close>

definition queued :: "frontier \<Rightarrow> string list" where
  "queued f = frExact f @ frAllowAll f @ frNormal f"

lemma hasQueued_queued: "hasQueued f \<longleftrightarrow> queued f \<noteq> []"
  by (simp add: hasQueued_def queued_def)

lemma nextNode_queued:
  assumes "hasQueued f" and "nextNode f = (u, f')"
  shows "mset (queued f) = add_mset u (mset (queued f'))" "frVisited f' = frVisited f"
  using assms by (auto simp: nextNode_def hasQueued_def queued_def neq_Nil_conv split: if_splits)

lemma enqueue_nodes_spec:
  "\<exists>new. mset (queued (enqueue_nodes L hint pns f)) = mset (queued f) + mset new \<and>
     frVisited (enqueue_nodes L hint pns f) = frVisited f @ new \<and> distinct new \<and>
     set new = ((\<lambda>pn. TrimRightSlash (pnURL pn)) ` set pns) - {[]} - set (frVisited f)"
proof (induction pns arbitrary: f)
  case (Cons pn pns)
  let ?u = "TrimRightSlash (pnURL pn)"
  define f' where "f' = (if ?u = [] \<or> ?u \<in> set (frVisited f) then f
    else (let f = f\<lparr>frVisited := frVisited f @ [?u]\<rparr> in
      if hint \<noteq> [] \<and> containsDomain L (pnDomains pn) hint then f\<lparr>frExact := frExact f @ [?u]\<rparr>
      else if hint \<noteq> [] \<and> pnAllowAll pn then f\<lparr>frAllowAll := frAllowAll f @ [?u]\<rparr>
      else f\<lparr>frNormal := frNormal f @ [?u]\<rparr>))"
  define one where "one = (if ?u = [] \<or> ?u \<in> set (frVisited f) then [] else [?u])"
  have f': "mset (queued f') = mset (queued f) + mset one" "frVisited f' = frVisited f @ one"
    by (auto simp: f'_def one_def queued_def Let_def)
  obtain new where new: "mset (queued (enqueue_nodes L hint pns f')) = mset (queued f') + mset new"
    "frVisited (enqueue_nodes L hint pns f') = frVisited f' @ new" "distinct new"
    "set new = ((\<lambda>pn. TrimRightSlash (pnURL pn)) ` set pns) - {[]} - set (frVisited f')"
    using Cons.IH [of f'] by blast
  have "enqueue_nodes L hint (pn # pns) f = enqueue_nodes L hint pns f'" by (simp add: f'_def Let_def)
  then show ?case using new f' by (intro exI [of _ "one @ new"]) (auto simp: one_def split: if_splits)
qed (simp add: exI [of _ "[]"])

lemma enqueue_urls_spec:
  "\<exists>new. mset (queued (enqueue_urls raws f)) = mset (queued f) + mset new \<and>
     frVisited (enqueue_urls raws f) = frVisited f @ new \<and> distinct new \<and>
     set new = TrimRightSlash ` set raws - {[]} - set (frVisited f)"
proof (induction raws arbitrary: f)
  case (Cons raw raws)
  let ?u = "TrimRightSlash raw"
  define f' where "f' = (if ?u = [] \<or> ?u \<in> set (frVisited f) then f
    else f\<lparr>frVisited := frVisited f @ [?u], frNormal := frNormal f @ [?u]\<rparr>)"
  define one where "one = (if ?u = [] \<or> ?u \<in> set (frVisited f) then [] else [?u])"
  have f': "mset (queued f') = mset (queued f) + mset one" "frVisited f' = frVisited f @ one"
    by (auto simp: f'_def one_def queued_def)
  obtain new where new: "mset (queued (enqueue_urls raws f')) = mset (queued f') + mset new"
    "frVisited (enqueue_urls raws f') = frVisited f' @ new" "distinct new"
    "set new = TrimRightSlash ` set raws - {[]} - set (frVisited f')"
    using Cons.IH [of f'] by blast
  have "enqueue_urls (raw # raws) f = enqueue_urls raws f'" by (simp add: f'_def Let_def)
  then show ?case using new f' by (intro exI [of _ "one @ new"]) (auto simp: one_def split: if_splits)
qed (simp add: exI [of _ "[]"])

text \<open>The nodes a well-known document names.\<close>

definition wk_nodes :: "wkResponse \<Rightarrow> string set" where
  "wk_nodes wk =
     (case wkPeerNodes wk of
        Some pns \<Rightarrow> (\<lambda>pn. TrimRightSlash (pnURL pn)) ` set pns
      | None \<Rightarrow> TrimRightSlash ` set (wkPeers wk)) - {[]}"

lemma enqueuePeers_spec:
  "\<exists>new. mset (queued (enqueuePeers L wk hint f)) = mset (queued f) + mset new \<and>
     frVisited (enqueuePeers L wk hint f) = frVisited f @ new \<and> distinct new \<and>
     set new = wk_nodes wk - set (frVisited f)"
  using enqueue_nodes_spec [of L hint _ f] enqueue_urls_spec [of "wkPeers wk" f]
  by (cases "wkPeerNodes wk") (auto simp: enqueuePeers_def wk_nodes_def)

lemma ask_peers_spec:
  "\<exists>new. mset (queued (fst (ask_peers L net hint u f h))) = mset (queued f) + mset new \<and>
     frVisited (fst (ask_peers L net hint u f h)) = frVisited f @ new \<and> distinct new \<and>
     set new = (case fst (fetchWellKnown L net u h) of None \<Rightarrow> {} | Some wk \<Rightarrow> wk_nodes wk) - set (frVisited f)"
proof (cases "fst (fetchWellKnown L net u h)")
  case None
  then show ?thesis by (auto simp: ask_peers_def split: prod.splits intro: exI [of _ "[]"])
next
  case (Some wk)
  then show ?thesis using enqueuePeers_spec [of L wk hint f] by (simp add: ask_peers_def split_beta)
qed

lemma spec_length:
  "mset (queued f') = mset (queued f) + mset new \<Longrightarrow> length (queued f') = length (queued f) + length new"
  by (metis mset_append size_mset length_append)

definition pending :: "int \<Rightarrow> frontier \<Rightarrow> nat" where
  "pending maxNodes f = nat (maxNodes + int (length (queued f)) - int (length (frVisited f)))"

lemma pending_decreases:
  assumes "hasQueued f" and "int (length (frVisited f)) \<le> maxNodes" and "nextNode f = (u, f1)"
    and "frVisited f2 = frVisited f1" and "queued f2 = queued f1"
  shows "pending maxNodes (fst (ask_peers L net hint u f2 h)) < pending maxNodes f"
proof -
  obtain new where new: "mset (queued (fst (ask_peers L net hint u f2 h))) = mset (queued f2) + mset new"
    "frVisited (fst (ask_peers L net hint u f2 h)) = frVisited f2 @ new"
    using ask_peers_spec [of L net hint u f2 h] by blast
  have "length (queued f) = Suc (length (queued f1))"
    using arg_cong [OF nextNode_queued(1) [OF assms(1,3)], of size] by simp
  then show ?thesis
    using spec_length [OF new(1)] new(2) nextNode_queued(2) [OF assms(1,3)] assms(2,4,5)
    by (simp add: pending_def)
qed

lemma try_node_frontier:
  "fst (try_node L net fp tc u st h) = Some (Inr st') \<Longrightarrow> seFrontier st' = seFrontier st"
  by (auto simp: try_node_def Let_def split: prod.splits option.splits if_splits)

function find_loop ::
    "lib \<Rightarrow> network \<Rightarrow> string \<Rightarrow> TrustConfig option \<Rightarrow> string \<Rightarrow> int \<Rightarrow> search \<Rightarrow> history \<Rightarrow>
     (BlockResult + search) option \<times> history" where
  "find_loop L net fp tc domainHint maxNodes st h =
     (if hasQueued (seFrontier st) \<and> int (length (frVisited (seFrontier st))) \<le> maxNodes then
        (case nextNode (seFrontier st) of (nodeURL, f) \<Rightarrow>
          (case try_node L net fp tc nodeURL (st\<lparr>seFrontier := f\<rparr>) h of
             (Some (Inr st'), h') \<Rightarrow>
               (case ask_peers L net domainHint nodeURL (seFrontier st') h' of
                  (f', h'') \<Rightarrow> find_loop L net fp tc domainHint maxNodes (st'\<lparr>seFrontier := f'\<rparr>) h'')
           | stop \<Rightarrow> stop))
      else (Some (Inr st), h))"
  by pat_completeness auto
termination
proof (relation "measure (\<lambda>(L, net, fp, tc, hint, maxNodes, st, h). pending maxNodes (seFrontier st))", goal_cases)
  case (2 L net fp tc hint maxNodes st h u f r h' c st' f' h'')
  have fr: "seFrontier st' = f" using try_node_frontier [of L net fp tc u "st\<lparr>seFrontier := f\<rparr>" h st'] 2(3-5)
    by (metis fst_conv search.select_convs(1) search.surjective search.update_convs(1))
  have "pending maxNodes (fst (ask_peers L net hint u (seFrontier st') h')) < pending maxNodes (seFrontier st)"
    by (rule pending_decreases) (use 2(1) 2(2) [symmetric] fr in auto)
  then show ?case using 2(6) [symmetric] by simp
qed simp

declare find_loop.simps [simp del]

definition FindBlock ::
    "lib \<Rightarrow> network \<Rightarrow> string \<Rightarrow> string list \<Rightarrow> string \<Rightarrow> int \<Rightarrow> TrustConfig option \<Rightarrow> history \<Rightarrow>
     BlockResult option \<times> history" where
  "FindBlock L net fingerprint seedNodes domainHint maxNodes tc h =
     (let fp = ToUpper L fingerprint;
          st = \<lparr>seFrontier = seed_nodes L seedNodes new_frontier, seCopies = [], seAccumulated = []\<rparr> in
      case find_loop L net fp tc domainHint maxNodes st h of
        (None, h) \<Rightarrow> (None, h)
      | (Some (Inl r), h) \<Rightarrow> (Some r, h)
      | (Some (Inr st), h) \<Rightarrow>
          (if seCopies st = [] then
             Some \<lparr>brFound = False, brNodeURL = [], brBlock = None,
               brNodesTried = int (length (frVisited (seFrontier st))),
               brTrustScore = (case tc of None \<Rightarrow> - 1 | Some _ \<Rightarrow> 0), brAllCopies = []\<rparr>
           else (case tc of
             None \<Rightarrow> Some (found st (- 1))
           | Some tc \<Rightarrow> map_option (found st) (trust_score L tc fp (seAccumulated st))), h))"

section \<open>FindBlocksByEmail\<close>

definition unreserved :: "char \<Rightarrow> bool" where
  "unreserved c \<longleftrightarrow> 48 \<le> byte c \<and> byte c \<le> 57 \<or> 65 \<le> byte c \<and> byte c \<le> 90 \<or> 97 \<le> byte c \<and> byte c \<le> 122 \<or>
     c \<in> {CHR ''-'', CHR ''_'', CHR ''.'', CHR ''~''}"

definition QueryEscape :: "string \<Rightarrow> string" where
  "QueryEscape s = concat (map (\<lambda>c.
     if unreserved c then [c] else if c = CHR '' '' then ''+''
     else CHR ''%'' # map upper_char (fmt_x [c])) s)"

definition domainFromEmail :: "string \<Rightarrow> string" where
  "domainFromEmail email =
     (if CHR ''@'' \<in> set email then rev (takeWhile (\<lambda>c. c \<noteq> CHR ''@'') (rev email)) else [])"

type_synonym best_blocks = "(string, NodeBlock) gomap"

fun keep_best :: "lib \<Rightarrow> string \<Rightarrow> dblock option list \<Rightarrow> best_blocks \<Rightarrow> best_blocks option" where
  "keep_best L nodeURL [] best = Some best"
| "keep_best L nodeURL (None # bs) best = None"
| "keep_best L nodeURL (Some b # bs) best =
     keep_best L nodeURL bs
       (if bFingerprint (db_block b) = [] then best
        else
          (let fp = ToUpper L (bFingerprint (db_block b)) in
           case mget best fp of
             None \<Rightarrow> mset_key fp \<lparr>nbNodeURL = nodeURL, nbBlock = b\<rparr> best
           | Some existing \<Rightarrow>
               if sigs b > sigs (nbBlock existing) then mset_key fp \<lparr>nbNodeURL = nodeURL, nbBlock = b\<rparr> best
               else best))"

definition search_node ::
    "lib \<Rightarrow> network \<Rightarrow> string \<Rightarrow> string \<Rightarrow> best_blocks \<Rightarrow> history \<Rightarrow> best_blocks option \<times> history" where
  "search_node L net email nodeURL best h =
     (case ask net (GET (TrimRightSlash nodeURL @ ''/search?q='' @ QueryEscape email)) h of
        (Fail, h) \<Rightarrow> (Some best, h)
      | (Answer status body, h) \<Rightarrow>
          (if status \<noteq> 200 then Some best
           else (case body of
             None \<Rightarrow> Some best
           | Some d \<Rightarrow> (case dec_blocks L d of (bs, bad) \<Rightarrow>
               if bad then Some best else keep_best L nodeURL (slice bs) best)), h))"

function email_loop ::
    "lib \<Rightarrow> network \<Rightarrow> string \<Rightarrow> string \<Rightarrow> int \<Rightarrow> frontier \<Rightarrow> best_blocks \<Rightarrow> history \<Rightarrow>
     (frontier \<times> best_blocks) option \<times> history" where
  "email_loop L net email domain maxNodes f best h =
     (if hasQueued f \<and> int (length (frVisited f)) \<le> maxNodes then
        (case nextNode f of (nodeURL, f) \<Rightarrow>
          (case search_node L net email nodeURL best h of
             (None, h) \<Rightarrow> (None, h)
           | (Some best, h) \<Rightarrow>
               (case ask_peers L net domain nodeURL f h of
                  (f, h) \<Rightarrow> email_loop L net email domain maxNodes f best h)))
      else (Some (f, best), h))"
  by pat_completeness auto
termination
proof (relation "measure (\<lambda>(L, net, email, domain, maxNodes, f, best, h). pending maxNodes f)", goal_cases)
  case (2 L net email domain maxNodes f best h u f1 r h1 best1 f2 h2)
  have "pending maxNodes (fst (ask_peers L net domain u f1 h1)) < pending maxNodes f"
    by (rule pending_decreases) (use 2(1) 2(2) [symmetric] in auto)
  then show ?case using 2(5) [symmetric] by simp
qed simp

declare email_loop.simps [simp del]

definition FindBlocksByEmail ::
    "lib \<Rightarrow> network \<Rightarrow> string \<Rightarrow> string list \<Rightarrow> int \<Rightarrow> history \<Rightarrow> (NodeBlock list \<times> int) option \<times> history" where
  "FindBlocksByEmail L net email seedNodes maxNodes h =
     (case email_loop L net email (domainFromEmail email) maxNodes (seed_nodes L seedNodes new_frontier) [] h of
        (None, h) \<Rightarrow> (None, h)
      | (Some (f, best), h) \<Rightarrow> (Some (map snd best, int (length (frVisited f))), h))"

end
