(* ===== verification/Client.thy ===== *)
theory Client
  imports Discovery Disjoint Flags
begin

text \<open>
  The command line client (\<open>cmd/client/main.go\<close>).  A command is a function from the session
  to the way the program ends and the session it leaves: the requests made, the lines written
  to standard output and the number of times the clock was read.  What a command does after a
  step is the last argument of the step, so that \<open>die\<close> and the early returns of the code end the
  command.  The texts written to standard error are left out.

  The network, the clock, the files and the environment are given; so are the renderings of
  times and of quoted strings, the reading of a \<open>float64\<close> and the texts of network errors.
  A body is one JSON value or none; bodies with more text after the value are not modelled.
\<close>

section \<open>Sessions\<close>

record client_env =
  ceNet :: network
  ceNow :: "nat \<Rightarrow> int"
  ceFile :: "string \<Rightarrow> string option"
  ceGetenv :: "string \<Rightarrow> string"
  ceParseFloat :: "string \<Rightarrow> int \<times> int"
  ceFormatTime :: "int64 \<Rightarrow> string"
  ceQuote :: "string \<Rightarrow> string"
  ceNetErr :: "history \<Rightarrow> http_req \<Rightarrow> string"

record session =
  ssHist :: history
  ssOut :: "string list"
  ssTicks :: nat

text \<open>\<open>Exit 0\<close> is also a return of \<open>main\<close>; \<open>Crash\<close> is a nil dereference, \<open>Hang\<close> a loop without end.\<close>

datatype exit = Exit int | Crash | Hang

type_synonym cmd = "session \<Rightarrow> exit \<times> session"

definition os_exit :: "int \<Rightarrow> cmd" where
  "os_exit code s = (Exit code, s)"

definition crash :: cmd where
  "crash s = (Crash, s)"

definition hang :: cmd where
  "hang s = (Hang, s)"

definition die :: cmd where
  "die = os_exit 1"

definition println :: "string \<Rightarrow> cmd \<Rightarrow> cmd" where
  "println t k s = k (s\<lparr>ssOut := ssOut s @ [t]\<rparr>)"

fun println_all :: "string list \<Rightarrow> cmd \<Rightarrow> cmd" where
  "println_all [] k = k"
| "println_all (t # ts) k = println t (println_all ts k)"

definition now_unix :: "client_env \<Rightarrow> (int64 \<Rightarrow> cmd) \<Rightarrow> cmd" where
  "now_unix E k s = k (Unix (ceNow E (ssTicks s))) (s\<lparr>ssTicks := Suc (ssTicks s)\<rparr>)"

text \<open>Signing and verifying read the clock.\<close>

definition sign :: "lib \<Rightarrow> client_env \<Rightarrow> string \<Rightarrow> string \<Rightarrow> (string result \<Rightarrow> cmd) \<Rightarrow> cmd" where
  "sign L E payload armoredPriv k s =
     k (Sign L (ceNow E (ssTicks s)) payload armoredPriv) (s\<lparr>ssTicks := Suc (ssTicks s)\<rparr>)"

definition verify_sig :: "lib \<Rightarrow> client_env \<Rightarrow> string \<Rightarrow> string \<Rightarrow> string \<Rightarrow> (bool \<Rightarrow> cmd) \<Rightarrow> cmd" where
  "verify_sig L E payload sig key k s =
     k (VerifyDetachedSig L (ceNow E (ssTicks s)) payload sig key) (s\<lparr>ssTicks := Suc (ssTicks s)\<rparr>)"

definition envOr :: "client_env \<Rightarrow> string \<Rightarrow> string \<Rightarrow> string" where
  "envOr E key def = (let v = ceGetenv E key in if v \<noteq> [] then v else def)"

definition readFile :: "client_env \<Rightarrow> string \<Rightarrow> (string \<Rightarrow> cmd) \<Rightarrow> cmd" where
  "readFile E path k = (case ceFile E path of None \<Rightarrow> die | Some b \<Rightarrow> k b)"

definition http :: "client_env \<Rightarrow> http_req \<Rightarrow> (answer \<Rightarrow> cmd) \<Rightarrow> cmd" where
  "http E r k s = k (ceNet E (ssHist s) r) (s\<lparr>ssHist := ssHist s @ [r]\<rparr>)"

definition httpGet :: "client_env \<Rightarrow> string \<Rightarrow> (answer \<Rightarrow> cmd) \<Rightarrow> cmd" where
  "httpGet E url = http E (GET url)"

text \<open>Errors of decoding the answer are ignored: then the map is nil.\<close>

definition httpDo ::
    "client_env \<Rightarrow> string \<Rightarrow> any \<Rightarrow> (string + (string, any) gomap \<times> int \<Rightarrow> cmd) \<Rightarrow> cmd" where
  "httpDo E url body k s =
     http E (POST url body)
       (\<lambda>a. k (case a of
          Fail \<Rightarrow> Inl (ceNetErr E (ssHist s) (POST url body))
        | Answer status b \<Rightarrow>
            Inr (case decode_map (map_option (decode_any (ceParseFloat E)) b) of None \<Rightarrow> [] | Some m \<Rightarrow> m, status))) s"

text \<open>\<open>json.Unmarshal\<close> into a map and into a slice of blocks, an error ends the command.\<close>

definition unmarshal_map :: "client_env \<Rightarrow> doc option \<Rightarrow> ((string, any) gomap \<Rightarrow> cmd) \<Rightarrow> cmd" where
  "unmarshal_map E body k =
     (case decode_map (map_option (decode_any (ceParseFloat E)) body) of None \<Rightarrow> die | Some m \<Rightarrow> k m)"

definition unmarshal_blocks :: "lib \<Rightarrow> doc option \<Rightarrow> (dblock option list \<Rightarrow> cmd) \<Rightarrow> cmd" where
  "unmarshal_blocks L body k =
     (case body of
        None \<Rightarrow> die
      | Some d \<Rightarrow> (case dec_blocks L d of (bs, bad) \<Rightarrow> if bad then die else k (slice bs)))"

definition parse_flags :: "flagset \<Rightarrow> string list \<Rightarrow> (flagset \<Rightarrow> string list \<Rightarrow> cmd) \<Rightarrow> cmd" where
  "parse_flags fs args k = (case Parse fs args of Inl code \<Rightarrow> os_exit code | Inr (fs, rest) \<Rightarrow> k fs rest)"

definition server_flag :: "client_env \<Rightarrow> string \<times> fval" where
  "server_flag E = (''server'', VString (envOr E ''GPGCHAIN_SERVER'' ''http://localhost:8080''))"

definition keyid_flag :: "client_env \<Rightarrow> string \<times> fval" where
  "keyid_flag E = (''keyid'', VString (envOr E ''GPGCHAIN_KEYID'' []))"

section \<open>Printing blocks\<close>

definition commas :: "string list \<Rightarrow> string" where
  "commas xs = (case xs of [] \<Rightarrow> [] | x # xs \<Rightarrow> x @ concat (map (\<lambda>y. '', '' @ y) xs))"

fun as_strings :: "any list \<Rightarrow> string list" where
  "as_strings [] = []"
| "as_strings (AStr s # vs) = s # as_strings vs"
| "as_strings (_ # vs) = as_strings vs"

definition as_slice :: "any \<Rightarrow> any list" where
  "as_slice v = (case v of AArr vs \<Rightarrow> vs | _ \<Rightarrow> [])"

definition as_time :: "lib \<Rightarrow> any \<Rightarrow> int64" where
  "as_time L v = (case v of AFloat m e \<Rightarrow> float_to_int64 L m e | _ \<Rightarrow> 0)"

definition block_lines :: "lib \<Rightarrow> client_env \<Rightarrow> (string, any) gomap \<Rightarrow> string list" where
  "block_lines L E b =
     [''Fingerprint: '' @ getString b ''fingerprint'',
      ''Hash:        '' @ getString b ''hash'',
      ''UIDs:        '' @ commas (as_strings (as_slice (get b ''uids''))),
      ''Submitted:   '' @ ceFormatTime E (as_time L (get b ''submit_timestamp'')),
      ''Status:      '' @ (if get b ''revoked'' = ABool True then ''REVOKED'' else ''active''),
      ''Signatures:  '' @ fmt_d (int (length (as_slice (get b ''sig_chain''))))]"

definition printBlock :: "lib \<Rightarrow> client_env \<Rightarrow> (string, any) gomap \<Rightarrow> cmd \<Rightarrow> cmd" where
  "printBlock L E b = println_all (block_lines L E b)"

section \<open>add, sign, revoke\<close>

definition add_body :: "string \<Rightarrow> string \<Rightarrow> int64 \<Rightarrow> any" where
  "add_body armoredKey selfSig ts =
     AObj [(''armored_key'', AStr armoredKey), (''self_sig'', AStr selfSig), (''submit_timestamp'', AInt64 ts)]"

definition cmdAdd :: "lib \<Rightarrow> client_env \<Rightarrow> string list \<Rightarrow> cmd" where
  "cmdAdd L E args =
     parse_flags [(''key'', VString []), (''privkey'', VString []), server_flag E] args (\<lambda>fs _.
       if sflag fs ''key'' = [] \<or> sflag fs ''privkey'' = [] then os_exit 1
       else readFile E (sflag fs ''key'') (\<lambda>armoredKey. readFile E (sflag fs ''privkey'') (\<lambda>armoredPriv.
         case ParseArmoredKey L armoredKey of
           Inl err \<Rightarrow> die
         | Inr (fp, uids) \<Rightarrow>
             now_unix E (\<lambda>ts. sign L E (SubmitPayload L fp armoredKey ts) armoredPriv (\<lambda>signed.
               case signed of
                 Inl err \<Rightarrow> die
               | Inr selfSig \<Rightarrow>
                   httpDo E (TrimRightSlash (sflag fs ''server'') @ ''/block'') (add_body armoredKey selfSig ts)
                     (\<lambda>r. case r of
                        Inl err \<Rightarrow> die
                      | Inr (result, status) \<Rightarrow>
                          if status \<noteq> 201 then die else println (''Added block: '' @ fp) (os_exit 0)))))))"

text \<open>Fetching the block of a key and the hash in it.\<close>

definition fetch_hash :: "client_env \<Rightarrow> string \<Rightarrow> (string \<Rightarrow> cmd) \<Rightarrow> cmd" where
  "fetch_hash E url k =
     httpGet E url (\<lambda>a. case a of
       Fail \<Rightarrow> die
     | Answer status body \<Rightarrow>
         if status = 404 then die
         else if status \<noteq> 200 then die
         else unmarshal_map E body (\<lambda>blockData.
           let blockHash = getString blockData ''hash'' in if blockHash = [] then die else k blockHash))"

definition sign_body :: "string \<Rightarrow> string \<Rightarrow> int64 \<Rightarrow> (string \<times> any) list" where
  "sign_body signerFP sig ts =
     [(''signer_fingerprint'', AStr signerFP), (''sig'', AStr sig), (''timestamp'', AInt64 ts)]"

definition post_signature ::
    "lib \<Rightarrow> client_env \<Rightarrow> string \<Rightarrow> string \<Rightarrow> string \<Rightarrow> (string \<times> any) list \<Rightarrow> cmd" where
  "post_signature L E server target signer reqBody =
     httpDo E (TrimRightSlash server @ ''/block/'' @ target @ ''/sign'') (AObj reqBody) (\<lambda>r.
       case r of
         Inl err \<Rightarrow> die
       | Inr (result, status) \<Rightarrow>
           if status \<noteq> 200 then die
           else println (''Signed block '' @ target @ '' as '' @ signer) (os_exit 0))"

definition cmdSign :: "lib \<Rightarrow> client_env \<Rightarrow> string list \<Rightarrow> cmd" where
  "cmdSign L E args =
     parse_flags [(''fingerprint'', VString []), keyid_flag E, (''privkey'', VString []), server_flag E,
         (''signer-key'', VString []), (''source-node'', VString [])] args (\<lambda>fs _.
       let targetFP = sflag fs ''fingerprint''; signerFP = sflag fs ''keyid''; serverURL = sflag fs ''server'' in
       if targetFP = [] \<or> signerFP = [] \<or> sflag fs ''privkey'' = [] then os_exit 1
       else readFile E (sflag fs ''privkey'') (\<lambda>armoredPriv.
         fetch_hash E (TrimRightSlash serverURL @ ''/block/'' @ ToUpper L targetFP) (\<lambda>blockHash.
           now_unix E (\<lambda>ts. sign L E (TrustPayload blockHash (ToUpper L signerFP) ts) armoredPriv (\<lambda>signed.
             case signed of
               Inl err \<Rightarrow> die
             | Inr sig \<Rightarrow>
                 (let reqBody = sign_body (ToUpper L signerFP) sig ts;
                      src = (if sflag fs ''source-node'' = [] then []
                             else [(''source_node'', AStr (sflag fs ''source-node''))]);
                      post = (\<lambda>extra. post_signature L E serverURL (ToUpper L targetFP) (ToUpper L signerFP)
                                        (reqBody @ extra @ src)) in
                  if sflag fs ''signer-key'' = [] then post []
                  else readFile E (sflag fs ''signer-key'') (\<lambda>key. post [(''signer_armored_key'', AStr key)])))))))"

definition cmdRevoke :: "lib \<Rightarrow> client_env \<Rightarrow> string list \<Rightarrow> cmd" where
  "cmdRevoke L E args =
     parse_flags [(''fingerprint'', VString (envOr E ''GPGCHAIN_KEYID'' [])), keyid_flag E,
         (''privkey'', VString []), server_flag E] args (\<lambda>fs _.
       let target = (if sflag fs ''fingerprint'' = [] then sflag fs ''keyid'' else sflag fs ''fingerprint'');
           serverURL = sflag fs ''server'' in
       if target = [] \<or> sflag fs ''privkey'' = [] then os_exit 1
       else
         (let target = ToUpper L target in
          readFile E (sflag fs ''privkey'') (\<lambda>armoredPriv.
            fetch_hash E (TrimRightSlash serverURL @ ''/block/'' @ target) (\<lambda>blockHash.
              sign L E (RevokePayload target blockHash) armoredPriv (\<lambda>signed.
                case signed of
                  Inl err \<Rightarrow> die
                | Inr sig \<Rightarrow>
                    httpDo E (TrimRightSlash serverURL @ ''/block/'' @ target @ ''/revoke'')
                      (AObj [(''sig'', AStr sig)]) (\<lambda>r.
                        case r of
                          Inl err \<Rightarrow> die
                        | Inr (result, status) \<Rightarrow>
                            if status \<noteq> 200 then die
                            else println (''Revoked block '' @ target) (os_exit 0)))))))"

section \<open>endorse\<close>

definition get_blocks :: "lib \<Rightarrow> client_env \<Rightarrow> string \<Rightarrow> (dblock option list \<Rightarrow> cmd) \<Rightarrow> cmd" where
  "get_blocks L E server k =
     httpGet E (TrimRightSlash server @ ''/blocks'') (\<lambda>a. case a of
       Fail \<Rightarrow> die
     | Answer status body \<Rightarrow> if status \<noteq> 200 then die else unmarshal_blocks L body k)"

text \<open>\<open>trust.Build\<close> on decoded pointers.\<close>

definition build_ptrs :: "dblock option list \<Rightarrow> (Graph \<Rightarrow> cmd) \<Rightarrow> cmd" where
  "build_ptrs bs k =
     (case (case those bs of None \<Rightarrow> None | Some bs \<Rightarrow> build_blocks bs) of None \<Rightarrow> crash | Some g \<Rightarrow> k g)"

definition either_score :: "bool \<Rightarrow> Graph \<Rightarrow> string \<Rightarrow> string \<Rightarrow> int \<Rightarrow> (int \<Rightarrow> cmd) \<Rightarrow> cmd" where
  "either_score disjoint g fp root maxDepth k =
     (if disjoint then (case DisjointScore g fp root maxDepth of None \<Rightarrow> hang | Some score \<Rightarrow> k score)
      else k (Score g fp root maxDepth))"

record endorser =
  enOwnFP :: string
  enPriv :: string
  enServer :: string
  enThreshold :: int
  enMaxDepth :: int
  enDisjoint :: bool
  enDryRun :: bool

record counts =
  ctSigned :: int
  ctAlready :: int
  ctBelow :: int

definition already_signed :: "lib \<Rightarrow> string \<Rightarrow> Block \<Rightarrow> bool" where
  "already_signed L ownFP b = list_ex (\<lambda>e. ToUpper L (seSigner e) = ownFP) (bSigEntries b)"

text \<open>Signing one block: \<open>k\<close> is told whether it was signed.\<close>

definition endorse_one :: "lib \<Rightarrow> client_env \<Rightarrow> endorser \<Rightarrow> Block \<Rightarrow> string \<Rightarrow> int \<Rightarrow> (bool \<Rightarrow> cmd) \<Rightarrow> cmd" where
  "endorse_one L E p b fp score k =
     now_unix E (\<lambda>ts. sign L E (TrustPayload (bHash b) (enOwnFP p) ts) (enPriv p) (\<lambda>signed.
       case signed of
         Inl err \<Rightarrow> println (''error:      '' @ fp @ ''  signing failed: '' @ err) (k False)
       | Inr sig \<Rightarrow>
           httpDo E (TrimRightSlash (enServer p) @ ''/block/'' @ fp @ ''/sign'') (AObj (sign_body (enOwnFP p) sig ts))
             (\<lambda>r. case r of
                Inl err \<Rightarrow> println (''error:      '' @ fp @ ''  request failed: '' @ err) (k False)
              | Inr (result, status) \<Rightarrow>
                  if status \<noteq> 200 then
                    println (''error:      '' @ fp @ ''  server returned '' @ fmt_d status @ '': '' @
                      getString result ''error'') (k False)
                  else
                    println (''signed:     '' @ fp @ ''  (trust='' @ fmt_d score @ '')  '' @ commas (bUIDs b))
                      (k True))))"

fun endorse_loop ::
    "lib \<Rightarrow> client_env \<Rightarrow> endorser \<Rightarrow> Graph \<Rightarrow> dblock option list \<Rightarrow> counts \<Rightarrow> (counts \<Rightarrow> cmd) \<Rightarrow> cmd" where
  "endorse_loop L E p g [] n k = k n"
| "endorse_loop L E p g (None # bs) n k = crash"
| "endorse_loop L E p g (Some d # bs) n k =
     (let b = db_block d; fp = ToUpper L (bFingerprint b) in
      if fp = enOwnFP p \<or> bRevoked b then endorse_loop L E p g bs n k
      else either_score (enDisjoint p) g fp (enOwnFP p) (enMaxDepth p) (\<lambda>score.
        if score < enThreshold p then endorse_loop L E p g bs (n\<lparr>ctBelow := ctBelow n + 1\<rparr>) k
        else if already_signed L (enOwnFP p) b then endorse_loop L E p g bs (n\<lparr>ctAlready := ctAlready n + 1\<rparr>) k
        else if enDryRun p then
          println (''would sign: '' @ fp @ ''  (trust='' @ fmt_d score @ '')  '' @ commas (bUIDs b))
            (endorse_loop L E p g bs (n\<lparr>ctSigned := ctSigned n + 1\<rparr>) k)
        else endorse_one L E p b fp score (\<lambda>signed.
          if signed then endorse_loop L E p g bs (n\<lparr>ctSigned := ctSigned n + 1\<rparr>) k
          else endorse_loop L E p g bs n k)))"

definition endorse_summary :: "bool \<Rightarrow> counts \<Rightarrow> string" where
  "endorse_summary dryRun n =
     fmt_d (ctSigned n) @ (if dryRun then '' key(s) would be signed  ('' else '' key(s) signed  ('') @
     fmt_d (ctAlready n) @ '' already signed, '' @ fmt_d (ctBelow n) @ '' below threshold)''"

definition endorse_blocks :: "lib \<Rightarrow> client_env \<Rightarrow> endorser \<Rightarrow> cmd" where
  "endorse_blocks L E p =
     get_blocks L E (enServer p) (\<lambda>blocks. build_ptrs blocks (\<lambda>g.
       endorse_loop L E p g blocks \<lparr>ctSigned = 0, ctAlready = 0, ctBelow = 0\<rparr> (\<lambda>n.
         println [] (println (endorse_summary (enDryRun p) n) (os_exit 0)))))"

definition cmdEndorse :: "lib \<Rightarrow> client_env \<Rightarrow> string list \<Rightarrow> cmd" where
  "cmdEndorse L E args =
     parse_flags [keyid_flag E, (''privkey'', VString []), (''threshold'', VInt 2), (''max-depth'', VInt 2),
         (''disjoint'', VBool False), server_flag E, (''dry-run'', VBool False)] args (\<lambda>fs _.
       let dryRun = bflag fs ''dry-run'';
           run = (\<lambda>priv. endorse_blocks L E
             \<lparr>enOwnFP = ToUpper L (sflag fs ''keyid''), enPriv = priv, enServer = sflag fs ''server'',
              enThreshold = iflag fs ''threshold'', enMaxDepth = iflag fs ''max-depth'',
              enDisjoint = bflag fs ''disjoint'', enDryRun = dryRun\<rparr>) in
       if sflag fs ''keyid'' = [] then os_exit 1
       else if \<not> dryRun \<and> sflag fs ''privkey'' = [] then os_exit 1
       else if dryRun then run [] else readFile E (sflag fs ''privkey'') run)"

section \<open>list and check\<close>

definition pad8 :: "string \<Rightarrow> string" where
  "pad8 s = s @ replicate (8 - length s) (CHR '' '')"

definition list_line :: "string \<Rightarrow> Block \<Rightarrow> int \<Rightarrow> string" where
  "list_line fp b score =
     fp @ ''  '' @ pad8 (if bRevoked b then ''REVOKED'' else ''active'') @ ''  '' @ commas (bUIDs b) @
     (if score \<ge> 0 then ''  trust='' @ fmt_d score else [])"

fun list_loop ::
    "lib \<Rightarrow> bool \<Rightarrow> Graph option \<Rightarrow> string \<Rightarrow> int \<Rightarrow> int \<Rightarrow> dblock option list \<Rightarrow> cmd" where
  "list_loop L disjoint g root minTrust maxDepth [] = os_exit 0"
| "list_loop L disjoint g root minTrust maxDepth (None # bs) = crash"
| "list_loop L disjoint g root minTrust maxDepth (Some d # bs) =
     (let b = db_block d; fp = ToUpper L (bFingerprint b) in
      case g of
        Some g' \<Rightarrow>
          either_score disjoint g' fp root maxDepth (\<lambda>score.
            if score < minTrust then list_loop L disjoint g root minTrust maxDepth bs
            else println (list_line fp b score) (list_loop L disjoint g root minTrust maxDepth bs))
      | None \<Rightarrow>
          if minTrust > 0 then list_loop L disjoint g root minTrust maxDepth bs
          else println (list_line fp b (- 1)) (list_loop L disjoint g root minTrust maxDepth bs))"

definition cmdList :: "lib \<Rightarrow> client_env \<Rightarrow> string list \<Rightarrow> cmd" where
  "cmdList L E args =
     parse_flags [keyid_flag E, (''min-trust'', VInt 0), (''max-depth'', VInt 2), (''disjoint'', VBool False),
         server_flag E] args (\<lambda>fs _.
       get_blocks L E (sflag fs ''server'') (\<lambda>blocks.
         let root = ToUpper L (sflag fs ''keyid'');
             rows = (\<lambda>g. list_loop L (bflag fs ''disjoint'') g root (iflag fs ''min-trust'') (iflag fs ''max-depth'') blocks) in
         if root \<noteq> [] then build_ptrs blocks (\<lambda>g. rows (Some g)) else rows None))"

definition seed_list :: "lib \<Rightarrow> flagset \<Rightarrow> string list" where
  "seed_list L fs =
     TrimRightSlash (sflag fs ''server'') #
     (if sflag fs ''seeds'' = [] then []
      else filter (\<lambda>u. u \<noteq> []) (map (TrimSpace L) (Split (CHR '','') (sflag fs ''seeds''))))"

definition discover :: "(history \<Rightarrow> 'a option \<times> history) \<Rightarrow> ('a \<Rightarrow> cmd) \<Rightarrow> cmd" where
  "discover f k s =
     (case f (ssHist s) of
        (None, h) \<Rightarrow> (Crash, s\<lparr>ssHist := h\<rparr>)
      | (Some r, h) \<Rightarrow> k r (s\<lparr>ssHist := h\<rparr>))"

definition check_lines :: "string \<Rightarrow> BlockResult \<Rightarrow> int \<Rightarrow> int \<Rightarrow> string list" where
  "check_lines target r score threshold =
     [''Block:      '' @ target,
      ''Found on:   '' @ brNodeURL r,
      ''UIDs:       '' @ commas (case brBlock r of None \<Rightarrow> [] | Some d \<Rightarrow> bUIDs (db_block d)),
      ''Trust score: '' @ fmt_d score @ '' (threshold '' @ fmt_d threshold @ '')'',
      ''Result:     '' @ (if score \<ge> threshold then ''TRUSTED'' else ''NOT TRUSTED'')]"

definition check_verdict :: "string \<Rightarrow> BlockResult \<Rightarrow> int \<Rightarrow> int \<Rightarrow> cmd" where
  "check_verdict target r threshold score =
     println_all (check_lines target r score threshold) (if score \<ge> threshold then os_exit 0 else os_exit 2)"

definition cmdCheck :: "lib \<Rightarrow> client_env \<Rightarrow> string list \<Rightarrow> cmd" where
  "cmdCheck L E args =
     parse_flags [(''fingerprint'', VString []), keyid_flag E, (''max-depth'', VInt 2), (''threshold'', VInt 1),
         (''disjoint'', VBool False), server_flag E, (''seeds'', VString [])] args (\<lambda>fs _.
       let targetFP = ToUpper L (sflag fs ''fingerprint''); root = ToUpper L (sflag fs ''keyid'');
           threshold = iflag fs ''threshold''; maxDepth = iflag fs ''max-depth'';
           tc = (if bflag fs ''disjoint'' then None
                 else Some \<lparr>tcRootFP = root, tcThreshold = threshold, tcMaxDepth = maxDepth\<rparr>) in
       if sflag fs ''fingerprint'' = [] \<or> sflag fs ''keyid'' = [] then os_exit 1
       else discover (FindBlock L (ceNet E) targetFP (seed_list L fs) [] 20 tc) (\<lambda>r.
         if \<not> brFound r then
           println (''Block '' @ targetFP @ '': NOT FOUND (tried '' @ fmt_d (brNodesTried r) @ '' nodes)'') (os_exit 1)
         else if bflag fs ''disjoint'' then
           httpGet E (TrimRightSlash (sflag fs ''server'') @ ''/blocks'') (\<lambda>a. case a of
             Fail \<Rightarrow> die
           | Answer status body \<Rightarrow>
               if status \<noteq> 200 then die
               else build_ptrs (slice (case body of None \<Rightarrow> None | Some d \<Rightarrow> fst (dec_blocks L d))) (\<lambda>g.
                 case DisjointScore g targetFP root maxDepth of
                   None \<Rightarrow> hang
                 | Some score \<Rightarrow> check_verdict targetFP r threshold score))
         else check_verdict targetFP r threshold (if brTrustScore r < 0 then 0 else brTrustScore r)))"

section \<open>show and search\<close>

fun chain_lines :: "lib \<Rightarrow> client_env \<Rightarrow> nat \<Rightarrow> any list \<Rightarrow> string list" where
  "chain_lines L E i [] = []"
| "chain_lines L E i (AObj e # es) =
     (''  ['' @ fmt_d (int i + 1) @ ''] signer='' @ getString e ''signer_fingerprint'' @ ''  time='' @
        ceFormatTime E (as_time L (get e ''timestamp''))) # chain_lines L E (Suc i) es"
| "chain_lines L E i (_ # es) = chain_lines L E (Suc i) es"

definition cmdShow :: "lib \<Rightarrow> client_env \<Rightarrow> string list \<Rightarrow> cmd" where
  "cmdShow L E args =
     parse_flags [(''fingerprint'', VString []), server_flag E] args (\<lambda>fs _.
       if sflag fs ''fingerprint'' = [] then os_exit 1
       else httpGet E (TrimRightSlash (sflag fs ''server'') @ ''/block/'' @ ToUpper L (sflag fs ''fingerprint'')) (\<lambda>a.
         case a of
           Fail \<Rightarrow> die
         | Answer status body \<Rightarrow>
             if status = 404 then die
             else if status \<noteq> 200 then die
             else unmarshal_map E body (\<lambda>blockData.
               printBlock L E blockData
                 (let sigChain = as_slice (get blockData ''sig_chain'') in
                  if sigChain = [] then os_exit 0
                  else println [] (println (''Signature chain ('' @ fmt_d (int (length sigChain)) @ '' entries):'')
                    (println_all (chain_lines L E 0 sigChain) (os_exit 0)))))))"

definition toAny :: "string list \<Rightarrow> any list" where
  "toAny ss = map AStr ss"

definition search_map :: "Block \<Rightarrow> (string, any) gomap" where
  "search_map b =
     [(''fingerprint'', AStr (bFingerprint b)), (''hash'', AStr (bHash b)), (''uids'', AArr (toAny (bUIDs b))),
      (''submit_timestamp'', float_of_int (sint (bSubmitTimestamp b))), (''revoked'', ABool (bRevoked b)),
      (''sig_chain'', AArr [])]"

fun print_found :: "lib \<Rightarrow> client_env \<Rightarrow> NodeBlock list \<Rightarrow> cmd" where
  "print_found L E [] = os_exit 0"
| "print_found L E (nb # nbs) =
     println (''Node: '' @ nbNodeURL nb)
       (printBlock L E (search_map (db_block (nbBlock nb))) (println [] (print_found L E nbs)))"

definition cmdSearch :: "lib \<Rightarrow> client_env \<Rightarrow> string list \<Rightarrow> cmd" where
  "cmdSearch L E args =
     parse_flags [(''email'', VString []), server_flag E, (''seeds'', VString [])] args (\<lambda>fs rest.
       let query = (if sflag fs ''email'' = [] \<and> rest \<noteq> [] then hd rest else sflag fs ''email'') in
       if query = [] then os_exit 1
       else discover (FindBlocksByEmail L (ceNet E) query (seed_list L fs) 20) (\<lambda>(blocks, tried).
         if blocks = [] then
           println (''No blocks found for '' @ ceQuote E query @ '' (tried '' @ fmt_d tried @ '' nodes)'') (os_exit 0)
         else println (''Found '' @ fmt_d (int (length blocks)) @ '' block(s) for '' @ ceQuote E query @
             '' (tried '' @ fmt_d tried @ '' nodes):'') (println [] (print_found L E blocks))))"

section \<open>verify\<close>

text \<open>The keys of the blocks by fingerprint; a later block replaces an earlier one.\<close>

definition key_map :: "lib \<Rightarrow> dblock list \<Rightarrow> (string, string) gomap" where
  "key_map L bs =
     fold (\<lambda>d. mset_key (ToUpper L (bFingerprint (db_block d))) (bArmoredKey (db_block d))) bs []"

definition audit_key :: "lib \<Rightarrow> (string, string) gomap \<Rightarrow> SigEntry \<Rightarrow> string" where
  "audit_key L keyMap e =
     (if seSignerKey e = [] then (case mget keyMap (ToUpper L (seSigner e)) of None \<Rightarrow> [] | Some k \<Rightarrow> k)
      else seSignerKey e)"

definition fail_line :: "string \<Rightarrow> string \<Rightarrow> string" where
  "fail_line fp what = ''FAIL  '' @ fp @ ''  '' @ what"

fun verify_entries ::
    "lib \<Rightarrow> client_env \<Rightarrow> dblock \<Rightarrow> string \<Rightarrow> (string, string) gomap \<Rightarrow> SigEntry list \<Rightarrow> nat \<Rightarrow> string \<Rightarrow> int \<Rightarrow>
     (int \<Rightarrow> cmd) \<Rightarrow> cmd" where
  "verify_entries L E d fp keyMap [] i prevHash n k = k n"
| "verify_entries L E d fp keyMap (e # es) i prevHash n k =
     (let entry = ''sig_chain['' @ fmt_d (int i) @ '']'' in
      if db_first_nil d = Some i then crash
      else if \<not> EqualFold L (ComputeSigEntryHash (Sum256 L) (sePrevHash e) (seSigner e) (seSig e) (seTimestamp e)) (seHash e)
      then println (fail_line fp (entry @ '' hash mismatch''))
        (verify_entries L E d fp keyMap es (Suc i) prevHash (n + 1) k)
      else if \<not> EqualFold L (sePrevHash e) prevHash
      then println (fail_line fp (entry @ '' prev_hash broken''))
        (verify_entries L E d fp keyMap es (Suc i) prevHash (n + 1) k)
      else if audit_key L keyMap e = []
      then println (''WARN  '' @ fp @ ''  '' @ entry @ '' signer '' @ seSigner e @ '' key not available for verification'')
        (verify_entries L E d fp keyMap es (Suc i) (seHash e) n k)
      else verify_sig L E (TrustPayload (bHash (db_block d)) (ToUpper L (seSigner e)) (seTimestamp e)) (seSig e)
        (audit_key L keyMap e) (\<lambda>ok.
          if ok then verify_entries L E d fp keyMap es (Suc i) (seHash e) n k
          else println (fail_line fp (entry @ '' sig verification failed (signer '' @ seSigner e @ '')''))
            (verify_entries L E d fp keyMap es (Suc i) (seHash e) (n + 1) k)))"

definition verify_revocation :: "lib \<Rightarrow> client_env \<Rightarrow> string \<Rightarrow> Block \<Rightarrow> int \<Rightarrow> (int \<Rightarrow> cmd) \<Rightarrow> cmd" where
  "verify_revocation L E fp b n k =
     (if bRevoked b \<and> bRevocationSig b \<noteq> [] then
        verify_sig L E (RevokePayload fp (bHash b)) (bRevocationSig b) (bArmoredKey b) (\<lambda>ok.
          if ok then k n else println (fail_line fp ''revocation_sig verification failed'') (k (n + 1)))
      else k n)"

definition verify_block :: "lib \<Rightarrow> client_env \<Rightarrow> (string, string) gomap \<Rightarrow> dblock \<Rightarrow> (int \<Rightarrow> cmd) \<Rightarrow> cmd" where
  "verify_block L E keyMap d k =
     (let b = db_block d; fp = ToUpper L (bFingerprint b);
          finish = (\<lambda>n. if n = 0 then println (''OK    '' @ fp @ ''  ('' @ fmt_d (int (length (bSigEntries b))) @ '' sigs)'') (k n)
                        else k n);
          rest = (\<lambda>n. verify_revocation L E fp b n (\<lambda>n.
            verify_entries L E d fp keyMap (bSigEntries b) 0 (bHash b) n finish)) in
      verify_sig L E (SubmitPayload L fp (bArmoredKey b) (bSubmitTimestamp b)) (bSelfSig b) (bArmoredKey b) (\<lambda>ok.
        if ok then rest 0 else println (fail_line fp ''self_sig verification failed'') (rest 1)))"

fun verify_blocks :: "lib \<Rightarrow> client_env \<Rightarrow> (string, string) gomap \<Rightarrow> dblock list \<Rightarrow> int \<Rightarrow> (int \<Rightarrow> cmd) \<Rightarrow> cmd" where
  "verify_blocks L E keyMap [] acc k = k acc"
| "verify_blocks L E keyMap (d # ds) acc k =
     verify_block L E keyMap d (\<lambda>n. verify_blocks L E keyMap ds (acc + n) k)"

definition cmdVerify :: "lib \<Rightarrow> client_env \<Rightarrow> string list \<Rightarrow> cmd" where
  "cmdVerify L E args =
     parse_flags [server_flag E] args (\<lambda>fs _.
       get_blocks L E (sflag fs ''server'') (\<lambda>blocks.
         case those blocks of
           None \<Rightarrow> crash
         | Some ds \<Rightarrow>
             verify_blocks L E (key_map L ds) ds 0 (\<lambda>failures.
               println []
                 (if failures > 0 then println (fmt_d failures @ '' verification failure(s)'') (os_exit 1)
                  else println (''All '' @ fmt_d (int (length blocks)) @ '' block(s) verified OK'') (os_exit 0)))))"

section \<open>main\<close>

definition client_main :: "lib \<Rightarrow> client_env \<Rightarrow> string list \<Rightarrow> cmd" where
  "client_main L E args =
     (case args of
        [] \<Rightarrow> os_exit 1
      | c # args \<Rightarrow>
          if c = ''add'' then cmdAdd L E args
          else if c = ''sign'' then cmdSign L E args
          else if c = ''revoke'' then cmdRevoke L E args
          else if c = ''endorse'' then cmdEndorse L E args
          else if c = ''list'' then cmdList L E args
          else if c = ''check'' then cmdCheck L E args
          else if c = ''show'' then cmdShow L E args
          else if c = ''search'' then cmdSearch L E args
          else if c = ''verify'' then cmdVerify L E args
          else die)"

end
