(* ===== verification/Verify.thy ===== *)
theory Verify
  imports Client Exchange
begin

text \<open>
  What \<open>gpgchain verify\<close> decides: the checks it makes of each block, as a predicate on the
  blocks a node serves, and the exit code of the command, also when the node that serves the
  blocks is the one modelled in \<open>Node\<close>.
\<close>

section \<open>The checks\<close>

definition entry_verifies :: "lib \<Rightarrow> int \<Rightarrow> (string, string) gomap \<Rightarrow> string \<Rightarrow> string \<Rightarrow> SigEntry \<Rightarrow> bool" where
  "entry_verifies L t keyMap hash prev e \<longleftrightarrow>
     EqualFold L (ComputeSigEntryHash (Sum256 L) (sePrevHash e) (seSigner e) (seSig e) (seTimestamp e)) (seHash e) \<and>
     EqualFold L (sePrevHash e) prev \<and>
     (audit_key L keyMap e \<noteq> [] \<longrightarrow>
        VerifyDetachedSig L t (TrustPayload hash (ToUpper L (seSigner e)) (seTimestamp e)) (seSig e)
          (audit_key L keyMap e))"

text \<open>The hash the entry at position \<open>i\<close> has to follow.\<close>

definition previous :: "Block \<Rightarrow> nat \<Rightarrow> string" where
  "previous b i = (if i = 0 then bHash b else seHash (bSigEntries b ! (i - 1)))"

definition block_verifies :: "lib \<Rightarrow> int \<Rightarrow> (string, string) gomap \<Rightarrow> Block \<Rightarrow> bool" where
  "block_verifies L t keyMap b \<longleftrightarrow>
     VerifyDetachedSig L t (SubmitPayload L (ToUpper L (bFingerprint b)) (bArmoredKey b) (bSubmitTimestamp b))
       (bSelfSig b) (bArmoredKey b) \<and>
     (bRevoked b \<and> bRevocationSig b \<noteq> [] \<longrightarrow>
        VerifyDetachedSig L t (RevokePayload (ToUpper L (bFingerprint b)) (bHash b)) (bRevocationSig b) (bArmoredKey b)) \<and>
     (\<forall>i < length (bSigEntries b). entry_verifies L t keyMap (bHash b) (previous b i) (bSigEntries b ! i))"

text \<open>A clock that stands still during the command.\<close>

definition steady :: "client_env \<Rightarrow> int \<Rightarrow> bool" where
  "steady E t \<longleftrightarrow> (\<forall>i. ceNow E i = t)"

lemma verify_sig_steady:
  "steady E t \<Longrightarrow> \<exists>s'. verify_sig L E payload sig key k s = k (VerifyDetachedSig L t payload sig key) s'"
  by (auto simp: verify_sig_def steady_def)

lemma println_session: "\<exists>s'. println t k s = k s'"
  by (auto simp: println_def)

section \<open>The command makes them\<close>

fun chain_verifies :: "lib \<Rightarrow> int \<Rightarrow> (string, string) gomap \<Rightarrow> string \<Rightarrow> string \<Rightarrow> SigEntry list \<Rightarrow> bool" where
  "chain_verifies L t keyMap hash prev [] = True"
| "chain_verifies L t keyMap hash prev (e # es) =
     (entry_verifies L t keyMap hash prev e \<and> chain_verifies L t keyMap hash (seHash e) es)"

lemma chain_verifies_nth:
  "chain_verifies L t keyMap hash prev es \<longleftrightarrow>
     (\<forall>i < length es. entry_verifies L t keyMap hash (if i = 0 then prev else seHash (es ! (i - 1))) (es ! i))"
proof (induction es arbitrary: prev)
  case (Cons e es)
  show ?case unfolding chain_verifies.simps Cons.IH length_Cons All_less_Suc2
    by (simp add: nth_Cons' if_distrib [of seHash])
qed simp

text \<open>Running the checks goes on, and adds a number that is 0 exactly when they succeed.\<close>

lemma verify_entries_spec:
  assumes "steady E t" and "db_first_nil d = None"
  shows "\<exists>m s'. verify_entries L E d fp keyMap es i prev n k s = k (n + int m) s' \<and>
    (m = 0 \<longleftrightarrow> chain_verifies L t keyMap (bHash (db_block d)) prev es)"
proof (induction es arbitrary: i prev n s)
  case Nil
  show ?case by (intro exI [of _ 0]) auto
next
  case (Cons e es)
  let ?go = "\<lambda>prev n. verify_entries L E d fp keyMap es (Suc i) prev n k"
  have fail: "\<exists>m s'. println line (?go prev' (n + 1)) s = k (n + int m) s' \<and> m \<noteq> 0" for line prev' s
  proof -
    obtain s1 where "println line (?go prev' (n + 1)) s = ?go prev' (n + 1) s1" using println_session by blast
    moreover obtain m s' where "?go prev' (n + 1) s1 = k (n + 1 + int m) s'" using Cons.IH by blast
    ultimately show ?thesis by (intro exI [of _ "Suc m"] exI [of _ s']) (simp add: add.assoc)
  qed
  have ok: "\<exists>m s'. ?go (seHash e) n s = k (n + int m) s' \<and>
      (m = 0 \<longleftrightarrow> chain_verifies L t keyMap (bHash (db_block d)) (seHash e) es)" for s
    by (rule Cons.IH)
  define payload where "payload = TrustPayload (bHash (db_block d)) (ToUpper L (seSigner e)) (seTimestamp e)"
  consider (bad) "\<not> EqualFold L (ComputeSigEntryHash (Sum256 L) (sePrevHash e) (seSigner e) (seSig e) (seTimestamp e)) (seHash e)
      \<or> \<not> EqualFold L (sePrevHash e) prev"
    | (good) "EqualFold L (ComputeSigEntryHash (Sum256 L) (sePrevHash e) (seSigner e) (seSig e) (seTimestamp e)) (seHash e)"
      "EqualFold L (sePrevHash e) prev" by blast
  then show ?case
  proof cases
    case bad
    then show ?thesis using fail assms(2) by (auto simp: Let_def entry_verifies_def)
  next
    case good
    show ?thesis
    proof (cases "audit_key L keyMap e = []")
      case True
      obtain line where run: "verify_entries L E d fp keyMap (e # es) i prev n k s = println line (?go (seHash e) n) s"
        using good True assms(2) by (auto simp: Let_def)
      obtain s1 where "println line (?go (seHash e) n) s = ?go (seHash e) n s1" using println_session by blast
      then show ?thesis using run ok [of s1] good True by (simp add: entry_verifies_def)
    next
      case False
      obtain line where run: "verify_entries L E d fp keyMap (e # es) i prev n k s =
          verify_sig L E payload (seSig e) (audit_key L keyMap e)
            (\<lambda>ok. if ok then ?go (seHash e) n else println line (?go (seHash e) (n + 1))) s"
        using good False assms(2) by (auto simp: Let_def payload_def)
      obtain s1 where s1: "verify_entries L E d fp keyMap (e # es) i prev n k s =
          (if VerifyDetachedSig L t payload (seSig e) (audit_key L keyMap e) then ?go (seHash e) n
           else println line (?go (seHash e) (n + 1))) s1"
        using verify_sig_steady [OF assms(1)] run by metis
      show ?thesis
        using ok [of s1] fail [of line "seHash e" s1] good False
        unfolding s1 by (auto simp: entry_verifies_def payload_def)
    qed
  qed
qed

lemma verify_block_spec:
  assumes "steady E t" and "db_first_nil d = None"
  shows "\<exists>m s'. verify_block L E keyMap d k s = k (int m) s' \<and> (m = 0 \<longleftrightarrow> block_verifies L t keyMap (db_block d))"
proof -
  define b where "b = db_block d"
  define fp where "fp = ToUpper L (bFingerprint b)"
  define finish where "finish = (\<lambda>n :: int. if n = 0
    then println (''OK    '' @ fp @ ''  ('' @ fmt_d (int (length (bSigEntries b))) @ '' sigs)'') (k n) else k n)"
  define entries where "entries = (\<lambda>n. verify_entries L E d fp keyMap (bSigEntries b) 0 (bHash b) n finish)"
  define self where "self \<longleftrightarrow> VerifyDetachedSig L t (SubmitPayload L fp (bArmoredKey b) (bSubmitTimestamp b)) (bSelfSig b) (bArmoredKey b)"
  define rev where "rev \<longleftrightarrow> (bRevoked b \<and> bRevocationSig b \<noteq> [] \<longrightarrow>
    VerifyDetachedSig L t (RevokePayload fp (bHash b)) (bRevocationSig b) (bArmoredKey b))"
  define chain where "chain \<longleftrightarrow> chain_verifies L t keyMap (bHash b) (bHash b) (bSigEntries b)"
  have fin: "\<exists>s'. finish n s = k n s'" for n s
    using println_session by (auto simp: finish_def)
  have ent: "\<exists>m s'. entries n s = k (n + int m) s' \<and> (m = 0 \<longleftrightarrow> chain)" for n s
    using verify_entries_spec [OF assms, of L fp keyMap "bSigEntries b" 0 "bHash b" n finish s] fin
    unfolding entries_def chain_def b_def by metis
  have rv: "\<exists>m s'. verify_revocation L E fp b n entries s = k (n + int m) s' \<and> (m = 0 \<longleftrightarrow> rev \<and> chain)" for n s
  proof (cases "bRevoked b \<and> bRevocationSig b \<noteq> []")
    case False
    then have "rev" "verify_revocation L E fp b n entries s = entries n s" by (auto simp: rev_def verify_revocation_def)
    then show ?thesis using ent by simp
  next
    case True
    define line where "line = fail_line fp ''revocation_sig verification failed''"
    define next_step where "next_step = (\<lambda>ok. if ok then entries n else println line (entries (n + 1)))"
    have "verify_revocation L E fp b n entries s =
        verify_sig L E (RevokePayload fp (bHash b)) (bRevocationSig b) (bArmoredKey b) next_step s"
      using True unfolding verify_revocation_def next_step_def line_def by simp
    moreover have "rev \<longleftrightarrow> VerifyDetachedSig L t (RevokePayload fp (bHash b)) (bRevocationSig b) (bArmoredKey b)"
      using True by (simp add: rev_def)
    moreover obtain s1 where "verify_sig L E (RevokePayload fp (bHash b)) (bRevocationSig b) (bArmoredKey b) next_step s =
        next_step (VerifyDetachedSig L t (RevokePayload fp (bHash b)) (bRevocationSig b) (bArmoredKey b)) s1"
      using verify_sig_steady [OF assms(1)] by blast
    ultimately have "verify_revocation L E fp b n entries s = next_step rev s1" by simp
    then have s1: "verify_revocation L E fp b n entries s = (if rev then entries n else println line (entries (n + 1))) s1"
      by (simp only: next_step_def)
    show ?thesis
    proof (cases rev)
      case True
      then show ?thesis using ent unfolding s1 by simp
    next
      case False
      obtain s2 where "println line (entries (n + 1)) s1 = entries (n + 1) s2" using println_session by blast
      moreover obtain m s' where "entries (n + 1) s2 = k (n + 1 + int m) s'" using ent by blast
      ultimately show ?thesis using False unfolding s1
        by (intro exI [of _ "Suc m"] exI [of _ s']) (simp add: add.assoc)
    qed
  qed
  define line where "line = fail_line fp ''self_sig verification failed''"
  define next_step where "next_step = (\<lambda>ok. if ok then verify_revocation L E fp b 0 entries
    else println line (verify_revocation L E fp b 1 entries))"
  have "verify_block L E keyMap d k s = verify_sig L E (SubmitPayload L fp (bArmoredKey b) (bSubmitTimestamp b))
      (bSelfSig b) (bArmoredKey b) next_step s"
    by (simp only: verify_block_def Let_def b_def fp_def entries_def finish_def next_step_def line_def)
  then obtain s1 where "verify_block L E keyMap d k s = next_step self s1"
    unfolding self_def using verify_sig_steady [OF assms(1)] by metis
  then have s1: "verify_block L E keyMap d k s =
      (if self then verify_revocation L E fp b 0 entries else println line (verify_revocation L E fp b 1 entries)) s1"
    by (simp only: next_step_def)
  have all: "block_verifies L t keyMap (db_block d) \<longleftrightarrow> self \<and> rev \<and> chain"
    by (simp add: block_verifies_def self_def rev_def chain_def chain_verifies_nth previous_def fp_def b_def)
  show ?thesis
  proof (cases self)
    case True
    then show ?thesis using rv [of 0 s1] all unfolding s1 by simp
  next
    case False
    obtain s2 where s2: "println line (verify_revocation L E fp b 1 entries) s1 = verify_revocation L E fp b 1 entries s2"
      using println_session by blast
    obtain m s' where "verify_revocation L E fp b 1 entries s2 = k (1 + int m) s'" using rv by blast
    then show ?thesis using s2 False all unfolding s1 by (intro exI [of _ "Suc m"] exI [of _ s']) simp
  qed
qed

lemma verify_blocks_spec:
  assumes "steady E t" and "\<forall>d \<in> set ds. db_first_nil d = None"
  shows "\<exists>m s'. verify_blocks L E keyMap ds n k s = k (n + int m) s' \<and>
    (m = 0 \<longleftrightarrow> (\<forall>d \<in> set ds. block_verifies L t keyMap (db_block d)))"
  using assms(2)
proof (induction ds arbitrary: n s)
  case Nil
  show ?case by (intro exI [of _ 0]) auto
next
  case (Cons d ds)
  obtain m s1 where m: "verify_blocks L E keyMap (d # ds) n k s = verify_blocks L E keyMap ds (n + int m) k s1"
    "m = 0 \<longleftrightarrow> block_verifies L t keyMap (db_block d)"
    using verify_block_spec [OF assms(1), of d L keyMap "\<lambda>m. verify_blocks L E keyMap ds (n + m) k" s] Cons.prems by auto
  obtain m' s' where "verify_blocks L E keyMap ds (n + int m) k s1 = k (n + int m + int m') s'"
    "m' = 0 \<longleftrightarrow> (\<forall>d \<in> set ds. block_verifies L t keyMap (db_block d))"
    using Cons.IH [of "n + int m" s1] Cons.prems by auto
  then show ?case using m by (intro exI [of _ "m + m'"] exI [of _ s']) (simp add: add.assoc)
qed

lemma verify_exit_code:
  assumes "steady E t" and "Parse [server_flag E] args = Inr (fs, rest)"
    and "ceNet E (ssHist s) (GET (TrimRightSlash (sflag fs ''server'') @ ''/blocks'')) = Answer 200 (Some doc)"
    and "dec_blocks L doc = (Some (map Some ds), False)" and "\<forall>d \<in> set ds. db_first_nil d = None"
  shows "fst (cmdVerify L E args s) =
    Exit (if \<forall>d \<in> set ds. block_verifies L t (key_map L ds) (db_block d) then 0 else 1)"
proof -
  have those: "those (map Some ds) = Some ds" by (induction ds) auto
  define finish where "finish = (\<lambda>failures :: int. println []
     (if failures > 0 then println (fmt_d failures @ '' verification failure(s)'') (os_exit 1)
      else println (''All '' @ fmt_d (int (length ds)) @ '' block(s) verified OK'') (os_exit 0)))"
  let ?s = "s\<lparr>ssHist := ssHist s @ [GET (TrimRightSlash (sflag fs ''server'') @ ''/blocks'')]\<rparr>"
  have run: "cmdVerify L E args s = verify_blocks L E (key_map L ds) ds 0 finish ?s"
    using assms(2-4) those unfolding finish_def
    by (simp add: cmdVerify_def parse_flags_def get_blocks_def httpGet_def http_def unmarshal_blocks_def slice_def
        cong: if_cong)
  obtain m s' where m: "verify_blocks L E (key_map L ds) ds 0 finish ?s = finish (0 + int m) s'"
    "m = 0 \<longleftrightarrow> (\<forall>d \<in> set ds. block_verifies L t (key_map L ds) (db_block d))"
    using verify_blocks_spec [OF assms(1,5), of L "key_map L ds" 0 finish ?s] by (elim exE conjE) (rule that)
  have "fst (cmdVerify L E args s) = Exit (if int m > 0 then 1 else 0)"
    unfolding run m(1) by (simp add: finish_def println_def os_exit_def)
  then show ?thesis using m(2) by (cases "m = 0") auto
qed

section \<open>Auditing a node\<close>

text \<open>What a client receives when a node has answered.\<close>

definition answered :: "(int \<Rightarrow> int \<Rightarrow> string) \<Rightarrow> response outcome \<Rightarrow> answer" where
  "answered F out = (case out of Done r \<Rightarrow> Answer (rsStatus r) (Some (encode F (rsBody r))) | _ \<Rightarrow> Fail)"

lemma dec_blocks_encode:
  assumes "\<forall>b \<in> set bs. utf8_block b"
  shows "dec_blocks L (encode F (blocks_any bs)) = (Some (map Some (map (\<lambda>b. DBlock b None) bs)), False)"
proof -
  have "dec_block_ptr L (encode F (blockToMap b)) = (Some (DBlock b None), False)" if "b \<in> set bs" for b
  proof -
    have "encode F (blockToMap b) \<noteq> DNull" by (simp add: blockToMap_def)
    then show ?thesis using dec_block_encode [of b L F] that assms by (simp add: dec_block_ptr_def)
  qed
  then show ?thesis by (simp add: dec_blocks_def blocks_any_def list_ex_iff del: blockToMap_def)
qed

lemma serve_blocks: "serve n L cfg ''GET'' ''/blocks'' rq = handleListBlocks"
  by (simp add: serve_def NewRouter_def)

text \<open>
  C22.  \<open>gpgchain verify\<close> against a node, on either store: when the strings of the stored blocks
  are valid UTF-8, the command exits with 0 exactly when every stored block passes its checks,
  and with 1 otherwise.  The checks are the self-signature, the revocation signature when
  there is one, and of every entry its hash, its link to the entry before it and, when a key
  is at hand, its signature.
\<close>

theorem verify_audits_node:
  assumes "steady E t" and "Parse [server_flag E] args = Inr (fs, rest)"
    and "ceNet E (ssHist s) (GET (TrimRightSlash (sflag fs ''server'') @ ''/blocks'')) =
      answered F (fst (run ops w (serve n L cfg ''GET'' ''/blocks'' rq) nd))"
    and "opAll ops (nStore nd) = Some (Inr bs)" and "\<forall>b \<in> set bs. utf8_block b"
  shows "fst (cmdVerify L E args s) =
    Exit (if \<forall>b \<in> set bs. block_verifies L t (key_map L (map (\<lambda>b. DBlock b None) bs)) b then 0 else 1)"
proof -
  have "answered F (fst (run ops w (serve n L cfg ''GET'' ''/blocks'' rq) nd)) = Answer 200 (Some (encode F (blocks_any bs)))"
    using assms(4) by (simp add: serve_blocks handleListBlocks_def writeJSON_def answered_def)
  then have net: "ceNet E (ssHist s) (GET (TrimRightSlash (sflag fs ''server'') @ ''/blocks'')) =
      Answer 200 (Some (encode F (blocks_any bs)))" using assms(3) by simp
  from verify_exit_code [OF assms(1,2) net dec_blocks_encode [OF assms(5)]]
  show ?thesis by simp
qed

text \<open>A client whose network is one server, with the default address.\<close>

definition client_of :: "network \<Rightarrow> client_env" where
  "client_of net = \<lparr>ceNet = net, ceNow = (\<lambda>i. 0), ceFile = (\<lambda>path. None), ceGetenv = (\<lambda>v. []),
     ceParseFloat = (\<lambda>s. (int (undec s), 0)), ceFormatTime = (\<lambda>t. fmt_d (sint t)), ceQuote = (\<lambda>s. s),
     ceNetErr = (\<lambda>h r. [])\<rparr>"

definition session0 :: session where
  "session0 = \<lparr>ssHist = [], ssOut = [], ssTicks = 0\<rparr>"

lemma client_of_simps [simp]:
  "ceNet (client_of net) = net" "ceNow (client_of net) i = 0" "steady (client_of net) 0" "ssHist session0 = []"
  "Parse [server_flag (client_of net)] [] = Inr ([server_flag (client_of net)], [])"
  "sflag [server_flag (client_of net)] ''server'' = ''http://localhost:8080''"
  by (simp_all add: client_of_def steady_def session0_def server_flag_def envOr_def sflag_def mget_def)

lemma localhost [simp]: "TrimRightSlash ''http://localhost:8080'' = ''http://localhost:8080''"
  by (simp add: TrimRightSlash_def)

lemma utf8_sample_block: "key = ''A'' \<or> key = ''B'' \<Longrightarrow> utf8_block (sample_key_block key)"
proof -
  assume key: "key = ''A'' \<or> key = ''B''"
  have "ascii key" "ascii (key @ ''@example.org'')" using key by (auto simp: ascii_def byte_def)
  moreover have "ascii (sample_fp key)" using key by (auto simp: sample_fp_A sample_fp_B ascii_def byte_def)
  moreover have "ascii (sample_self_sig key)" by (simp add: sample_self_sig_def ascii_EncodeToString)
  moreover have "ascii (ComputeBlockHash H a b c)" for H a b c by (simp add: ComputeBlockHash_def ascii_hash)
  ultimately show ?thesis
    by (simp add: utf8_block_def sample_key_block_def make_block_def utf8_fix_ascii)
qed

theorem verify_audits_node_witness:
  "fst (cmdVerify sample_lib (client_of (\<lambda>h r. answered (\<lambda>m e. fmt_d m)
     (fst (run memory_ops sample_world (serve 0 sample_lib sample_config ''GET'' ''/blocks'' (add_request ''A'')) node_A))))
     [] session0) = Exit 0"
proof -
  have all: "opAll memory_ops (nStore node_A) = Some (Inr [sample_key_block ''A''])"
    by (simp add: memory_ops_def mem_All_def node_A_def)
  have "VerifyDetachedSig sample_lib 0 (SubmitPayload sample_lib ''41'' ''A'' 0) (sample_self_sig ''A'') ''A''"
    using sample_verify [of "''A''" 0 "SubmitPayload sample_lib ''41'' ''A'' 0"] by (simp add: sample_self_sig_def sample_fp_A)
  moreover have "ToUpper sample_lib ''41'' = ''41''" by code_simp
  ultimately have "block_verifies sample_lib 0 km (sample_key_block ''A'')" for km
    by (simp add: block_verifies_def sample_fp_A) (simp add: sample_key_block_def make_block_def)
  then show ?thesis
    by (subst verify_audits_node [where bs = "[sample_key_block ''A'']", OF client_of_simps(3,5) _ all])
      (simp_all add: utf8_sample_block)
qed

text \<open>
  C23.  \<open>gpgchain verify\<close> recomputes no block hash and never reads the key of a block.  So a node
  can serve, under any fingerprint and any hash, a key of its own with a self-signature by
  that key, and the audit succeeds: here the block claims to be \<open>46\<close> and carries the key \<open>A\<close>,
  whose fingerprint is \<open>41\<close>, with the hash \<open>0\<close>.
\<close>

theorem verify_accepts_foreign_block:
  "\<exists>d b fp uids. dec_block sample_lib d = (DBlock b None, False) \<and>
     bHash b \<noteq> ComputeBlockHash (Sum256 sample_lib) (bFingerprint b) (bArmoredKey b) (bSelfSig b) \<and>
     ParseArmoredKey sample_lib (bArmoredKey b) = Inr (fp, uids) \<and> fp \<noteq> bFingerprint b \<and>
     fst (cmdVerify sample_lib (client_of (\<lambda>h r. Answer 200 (Some (DArr [d])))) [] session0) = Exit 0"
proof -
  define sig where "sig = EncodeToString (''A'' @ SubmitPayload sample_lib ''46'' ''A'' 0)"
  define b where "b = zero_block\<lparr>bHash := ''0'', bFingerprint := ''46'', bArmoredKey := ''A'', bSelfSig := sig\<rparr>"
  define d where "d = encode (\<lambda>m e. fmt_d m) (blockToMap b)"
  have "ascii sig" by (simp add: sig_def ascii_EncodeToString)
  then have utf8: "utf8_block b"
    by (simp add: utf8_block_def b_def zero_block_def utf8_fix_ascii ascii_def byte_def)
  have dec: "dec_block sample_lib d = (DBlock b None, False)" unfolding d_def by (rule dec_block_encode [OF utf8])
  have "ToUpper sample_lib ''46'' = ''46''" by code_simp
  then have ok: "block_verifies sample_lib 0 km b" for km
    using sample_verify [of "''A''" 0 "SubmitPayload sample_lib ''46'' ''A'' 0"]
    by (simp add: block_verifies_def b_def zero_block_def sig_def)
  have "dec_blocks sample_lib (DArr [d]) = (Some (map Some [DBlock b None]), False)"
    using dec_blocks_encode [of "[b]" sample_lib "\<lambda>m e. fmt_d m"] utf8 by (simp add: blocks_any_def d_def)
  from verify_exit_code [OF client_of_simps(3,5) _ this, of "\<lambda>h r. Answer 200 (Some (DArr [d]))" session0]
  have "fst (cmdVerify sample_lib (client_of (\<lambda>h r. Answer 200 (Some (DArr [d])))) [] session0) = Exit 0"
    using ok by simp
  moreover have "bHash b \<noteq> ComputeBlockHash (Sum256 sample_lib) (bFingerprint b) (bArmoredKey b) (bSelfSig b)"
  proof -
    have "even (length (ComputeBlockHash (Sum256 sample_lib) (bFingerprint b) (bArmoredKey b) (bSelfSig b)))"
      by (simp add: ComputeBlockHash_def length_hexSHA256)
    moreover have "odd (length (bHash b))" by (simp add: b_def zero_block_def)
    ultimately show ?thesis by metis
  qed
  moreover have "ParseArmoredKey sample_lib (bArmoredKey b) = Inr (''41'', [''A@example.org''])"
    using sample_parse [of "''A''"] by (simp add: b_def zero_block_def sample_fp_A)
  ultimately show ?thesis using dec by (intro exI [of _ d] exI [of _ b] exI [of _ "''41''"]) (auto simp: b_def zero_block_def)
qed

end
