(* ===== verification/Endorse.thy ===== *)
theory Endorse
  imports Verify
begin

text \<open>
  What \<open>gpgchain endorse\<close> signs: exactly the keys of other, unrevoked blocks whose score
  reaches the threshold and that the caller has not signed; a dry run lists the same keys and
  posts nothing.
\<close>

section \<open>The scores\<close>

definition score_of :: "endorser \<Rightarrow> Graph \<Rightarrow> string \<Rightarrow> int" where
  "score_of p g fp =
     (if enDisjoint p then (case DisjointScore g fp (enOwnFP p) (enMaxDepth p) of None \<Rightarrow> 0 | Some s \<Rightarrow> s)
      else Score g fp (enOwnFP p) (enMaxDepth p))"

lemma DisjointScore_total: "graph_ok g \<Longrightarrow> \<exists>s. DisjointScore g target root md = Some s"
  using DisjointScore_cut [of g root target md] by (cases "root = target") (auto simp: DisjointScore_def)

lemma either_score_of:
  assumes "graph_ok g"
  shows "either_score (enDisjoint p) g fp (enOwnFP p) (enMaxDepth p) k = k (score_of p g fp)"
  using DisjointScore_total [OF assms, of fp "enOwnFP p" "enMaxDepth p"] by (auto simp: either_score_def score_of_def)

definition eligible :: "lib \<Rightarrow> endorser \<Rightarrow> Graph \<Rightarrow> Block \<Rightarrow> bool" where
  "eligible L p g b \<longleftrightarrow>
     ToUpper L (bFingerprint b) \<noteq> enOwnFP p \<and> \<not> bRevoked b \<and>
     enThreshold p \<le> score_of p g (ToUpper L (bFingerprint b)) \<and>
     (\<forall>e \<in> set (bSigEntries b). ToUpper L (seSigner e) \<noteq> enOwnFP p)"

text \<open>The line of a dry run, and the requests that signing a block makes.\<close>

definition would_line :: "lib \<Rightarrow> endorser \<Rightarrow> Graph \<Rightarrow> Block \<Rightarrow> string" where
  "would_line L p g b =
     (let fp = ToUpper L (bFingerprint b) in
      ''would sign: '' @ fp @ ''  (trust='' @ fmt_d (score_of p g fp) @ '')  '' @ commas (bUIDs b))"

definition signing :: "lib \<Rightarrow> endorser \<Rightarrow> Block \<Rightarrow> history \<Rightarrow> bool" where
  "signing L p b seg \<longleftrightarrow>
     (\<exists>ts now. case Sign L now (TrustPayload (bHash b) (enOwnFP p) ts) (enPriv p) of
        Inl err \<Rightarrow> seg = []
      | Inr sig \<Rightarrow> seg = [POST (TrimRightSlash (enServer p) @ ''/block/'' @ ToUpper L (bFingerprint b) @ ''/sign'')
          (AObj (sign_body (enOwnFP p) sig ts))])"

text \<open>The steps and the requests they make.\<close>

lemma println_hist: "\<exists>s'. println t k s = k s' \<and> ssHist s' = ssHist s"
  by (simp add: println_def) (metis session.select_convs(1) session.surjective session.update_convs(2))

lemma httpDo_hist: "\<exists>res s'. httpDo E url body k s = k res s' \<and> ssHist s' = ssHist s @ [POST url body]"
proof -
  obtain res where "httpDo E url body k s = k res (s\<lparr>ssHist := ssHist s @ [POST url body]\<rparr>)"
    unfolding httpDo_def http_def by blast
  then show ?thesis by force
qed

lemma now_sign_hist:
  "\<exists>ts now s'. now_unix E (\<lambda>ts. sign L E (P ts) priv (k ts)) s = k ts (Sign L now (P ts) priv) s' \<and> ssHist s' = ssHist s"
proof -
  let ?s = "s\<lparr>ssTicks := Suc (Suc (ssTicks s))\<rparr>" and ?ts = "Unix (ceNow E (ssTicks s))"
  have "now_unix E (\<lambda>ts. sign L E (P ts) priv (k ts)) s = k ?ts (Sign L (ceNow E (Suc (ssTicks s))) (P ?ts) priv) ?s"
    by (simp add: now_unix_def sign_def)
  moreover have "ssHist ?s = ssHist s" by simp
  ultimately show ?thesis by blast
qed

lemma endorse_one_spec:
  "\<exists>ok seg s'. endorse_one L E p b (ToUpper L (bFingerprint b)) sc k s = k ok s' \<and>
     ssHist s' = ssHist s @ seg \<and> signing L p b seg"
proof -
  define fp where "fp = ToUpper L (bFingerprint b)"
  define url where "url = TrimRightSlash (enServer p) @ ''/block/'' @ fp @ ''/sign''"
  define on_answer where "on_answer = (\<lambda>r. case r of
      Inl err \<Rightarrow> println (''error:      '' @ fp @ ''  request failed: '' @ err) (k False)
    | Inr (result, status) \<Rightarrow>
        if status \<noteq> 200 then
          println (''error:      '' @ fp @ ''  server returned '' @ fmt_d status @ '': '' @ getString result ''error'') (k False)
        else println (''signed:     '' @ fp @ ''  (trust='' @ fmt_d sc @ '')  '' @ commas (bUIDs b)) (k True))"
  define on_signed where "on_signed = (\<lambda>ts signed. case signed of
      Inl err \<Rightarrow> println (''error:      '' @ fp @ ''  signing failed: '' @ err) (k False)
    | Inr sig \<Rightarrow> httpDo E url (AObj (sign_body (enOwnFP p) sig ts)) on_answer)"
  have run: "endorse_one L E p b fp sc k s =
      now_unix E (\<lambda>ts. sign L E (TrustPayload (bHash b) (enOwnFP p) ts) (enPriv p) (on_signed ts)) s"
    by (simp only: endorse_one_def on_signed_def on_answer_def url_def)
  obtain ts now s1 where s1: "endorse_one L E p b fp sc k s =
      on_signed ts (Sign L now (TrustPayload (bHash b) (enOwnFP p) ts) (enPriv p)) s1" "ssHist s1 = ssHist s"
    unfolding run using now_sign_hist by blast
  have answer: "\<exists>ok s'. on_answer r s = k ok s' \<and> ssHist s' = ssHist s" for r s
  proof -
    have "\<exists>line ok. on_answer r = println line (k ok)"
    proof (cases r)
      case (Inr x)
      then show ?thesis unfolding on_answer_def by (cases "snd x = 200") (auto simp: split_beta)
    qed (auto simp: on_answer_def)
    then obtain line ok where "on_answer r = println line (k ok)" by blast
    then show ?thesis using println_hist [of line "k ok" s] by metis
  qed
  show ?thesis
  proof (cases "Sign L now (TrustPayload (bHash b) (enOwnFP p) ts) (enPriv p)")
    case (Inl err)
    obtain s2 where "on_signed ts (Inl err) s1 = k False s2" "ssHist s2 = ssHist s1"
      unfolding on_signed_def sum.case using println_hist by blast
    moreover have "signing L p b []" unfolding signing_def by (intro exI [of _ ts] exI [of _ now]) (simp add: Inl)
    ultimately show ?thesis using s1 Inl unfolding fp_def by (metis append_Nil2)
  next
    case (Inr sig)
    let ?r = "POST url (AObj (sign_body (enOwnFP p) sig ts))"
    obtain res s2 where s2: "on_signed ts (Inr sig) s1 = on_answer res s2" "ssHist s2 = ssHist s1 @ [?r]"
      unfolding on_signed_def sum.case using httpDo_hist by blast
    obtain ok s3 where s3: "on_answer res s2 = k ok s3" "ssHist s3 = ssHist s2" using answer by blast
    have "signing L p b [?r]"
      unfolding signing_def by (intro exI [of _ ts] exI [of _ now]) (simp add: Inr url_def fp_def)
    then show ?thesis using s1 s2 s3 Inr unfolding fp_def by metis
  qed
qed

section \<open>The loop\<close>

lemma endorse_skip:
  assumes "graph_ok g" and "\<not> eligible L p g (db_block d)"
  shows "\<exists>n1. endorse_loop L E p g (Some d # bs) n k = endorse_loop L E p g bs n1 k"
  using assms(2) unfolding endorse_loop.simps(3) Let_def either_score_of [OF assms(1)]
  by (auto simp: eligible_def already_signed_def list_ex_iff not_le)

lemma endorse_take:
  assumes "graph_ok g" and "eligible L p g (db_block d)"
  shows "endorse_loop L E p g (Some d # bs) n k =
    (if enDryRun p then println (would_line L p g (db_block d)) (endorse_loop L E p g bs (n\<lparr>ctSigned := ctSigned n + 1\<rparr>) k)
     else endorse_one L E p (db_block d) (ToUpper L (bFingerprint (db_block d)))
       (score_of p g (ToUpper L (bFingerprint (db_block d))))
       (\<lambda>signed. if signed then endorse_loop L E p g bs (n\<lparr>ctSigned := ctSigned n + 1\<rparr>) k
                 else endorse_loop L E p g bs n k))"
  using assms(2) unfolding endorse_loop.simps(3) Let_def either_score_of [OF assms(1)]
  by (auto simp: eligible_def already_signed_def list_ex_iff would_line_def Let_def)

definition real_run :: "lib \<Rightarrow> endorser \<Rightarrow> Graph \<Rightarrow> Block list \<Rightarrow> history \<Rightarrow> bool" where
  "real_run L p g bs posts \<longleftrightarrow> (\<exists>segs. posts = concat segs \<and> list_all2 (signing L p) (filter (eligible L p g) bs) segs)"

lemma endorse_loop_real:
  assumes "graph_ok g" and "\<not> enDryRun p"
  shows "\<exists>n' s' posts. endorse_loop L E p g (map Some ds) n k s = k n' s' \<and>
    ssHist s' = ssHist s @ posts \<and> real_run L p g (map db_block ds) posts"
proof (induction ds arbitrary: n s)
  case Nil
  show ?case by (intro exI [of _ n] exI [of _ s] exI [of _ "[]"]) (simp add: real_run_def)
next
  case (Cons d ds)
  let ?b = "db_block d" and ?go = "\<lambda>n. endorse_loop L E p g (map Some ds) n k"
  show ?case
  proof (cases "eligible L p g ?b")
    case False
    obtain n1 where "endorse_loop L E p g (Some d # map Some ds) n k = ?go n1"
      using endorse_skip [OF assms(1) False, of E "map Some ds" n k] by blast
    then have "endorse_loop L E p g (map Some (d # ds)) n k s = ?go n1 s" by simp
    then show ?thesis using Cons.IH [of n1 s] False by (simp add: real_run_def)
  next
    case True
    define after where "after = (\<lambda>signed. if signed then ?go (n\<lparr>ctSigned := ctSigned n + 1\<rparr>) else ?go n)"
    have "endorse_loop L E p g (map Some (d # ds)) n k s =
        endorse_one L E p ?b (ToUpper L (bFingerprint ?b)) (score_of p g (ToUpper L (bFingerprint ?b))) after s"
      using endorse_take [OF assms(1) True] assms(2) by (simp add: after_def)
    then obtain ok seg s1 where s1: "endorse_loop L E p g (map Some (d # ds)) n k s = after ok s1"
      "ssHist s1 = ssHist s @ seg" "signing L p ?b seg"
      using endorse_one_spec by metis
    obtain n1 where "after ok s1 = ?go n1 s1" by (cases ok) (auto simp: after_def)
    moreover obtain n' s' posts where "?go n1 s1 = k n' s'" "ssHist s' = ssHist s1 @ posts"
      "real_run L p g (map db_block ds) posts" using Cons.IH by blast
    moreover have "real_run L p g (map db_block (d # ds)) (seg @ posts)"
    proof -
      from \<open>real_run L p g (map db_block ds) posts\<close> obtain segs where
        "posts = concat segs" "list_all2 (signing L p) (filter (eligible L p g) (map db_block ds)) segs"
        by (auto simp: real_run_def)
      then show ?thesis using True s1(3) unfolding real_run_def by (intro exI [of _ "seg # segs"]) simp
    qed
    ultimately show ?thesis using s1(1,2) by (metis append.assoc)
  qed
qed

lemma endorse_loop_dry:
  assumes "graph_ok g" and "enDryRun p"
  shows "\<exists>n' s'. endorse_loop L E p g (map Some ds) n k s = k n' s' \<and> ssHist s' = ssHist s \<and>
    ssOut s' = ssOut s @ map (would_line L p g) (filter (eligible L p g) (map db_block ds))"
proof (induction ds arbitrary: n s)
  case Nil
  show ?case by (intro exI [of _ n] exI [of _ s]) simp
next
  case (Cons d ds)
  let ?b = "db_block d" and ?go = "\<lambda>n. endorse_loop L E p g (map Some ds) n k"
  show ?case
  proof (cases "eligible L p g ?b")
    case False
    obtain n1 where "endorse_loop L E p g (Some d # map Some ds) n k = ?go n1"
      using endorse_skip [OF assms(1) False, of E "map Some ds" n k] by blast
    then have "endorse_loop L E p g (map Some (d # ds)) n k s = ?go n1 s" by simp
    then show ?thesis using Cons.IH [of n1 s] False by simp
  next
    case True
    have "endorse_loop L E p g (map Some (d # ds)) n k s =
        println (would_line L p g ?b) (?go (n\<lparr>ctSigned := ctSigned n + 1\<rparr>)) s"
      using endorse_take [OF assms(1) True] assms(2) by simp
    then have "endorse_loop L E p g (map Some (d # ds)) n k s =
        ?go (n\<lparr>ctSigned := ctSigned n + 1\<rparr>) (s\<lparr>ssOut := ssOut s @ [would_line L p g ?b]\<rparr>)" by (simp add: println_def)
    then show ?thesis
      using Cons.IH [of "n\<lparr>ctSigned := ctSigned n + 1\<rparr>" "s\<lparr>ssOut := ssOut s @ [would_line L p g ?b]\<rparr>"] True by simp
  qed
qed

section \<open>The command\<close>

lemma build_ptrs_some:
  "\<forall>d \<in> set ds. db_first_nil d = None \<Longrightarrow> build_ptrs (map Some ds) k = k (Build (map db_block ds))"
proof -
  assume "\<forall>d \<in> set ds. db_first_nil d = None"
  moreover have "those (map Some ds) = Some ds" by (induction ds) auto
  ultimately show ?thesis by (simp add: build_ptrs_def build_blocks_def db_nil_def list_ex_iff)
qed

lemma endorse_run:
  assumes "ceNet E (ssHist s) (GET (TrimRightSlash (enServer p) @ ''/blocks'')) = Answer 200 (Some doc)"
    and "dec_blocks L doc = (Some (map Some ds), False)" and "\<forall>d \<in> set ds. db_first_nil d = None"
    and "g = Build (map db_block ds)"
  shows "\<exists>s'. endorse_blocks L E p s = (Exit 0, s') \<and>
    (if enDryRun p then
       ssHist s' = ssHist s @ [GET (TrimRightSlash (enServer p) @ ''/blocks'')] \<and>
       (\<exists>summary. ssOut s' = ssOut s @ map (would_line L p g) (filter (eligible L p g) (map db_block ds)) @ [[], summary])
     else
       (\<exists>segs. ssHist s' = ssHist s @ [GET (TrimRightSlash (enServer p) @ ''/blocks'')] @ concat segs \<and>
          list_all2 (signing L p) (filter (eligible L p g) (map db_block ds)) segs))"
proof -
  let ?s = "s\<lparr>ssHist := ssHist s @ [GET (TrimRightSlash (enServer p) @ ''/blocks'')]\<rparr>"
  define k where "k = (\<lambda>n. println [] (println (endorse_summary (enDryRun p) n) (os_exit 0)))"
  define n0 where "n0 = \<lparr>ctSigned = 0, ctAlready = 0, ctBelow = 0\<rparr>"
  have run: "endorse_blocks L E p s = endorse_loop L E p g (map Some ds) n0 k ?s"
    using assms(1,2) unfolding k_def n0_def
    by (simp add: endorse_blocks_def get_blocks_def httpGet_def http_def unmarshal_blocks_def slice_def
        build_ptrs_some [OF assms(3)] assms(4))
  have k: "k n s' = (Exit 0, s'\<lparr>ssOut := ssOut s' @ [[], endorse_summary (enDryRun p) n]\<rparr>)" for n s'
    by (simp add: k_def println_def os_exit_def)
  have ok: "graph_ok g" unfolding assms(4) by (rule graph_ok_Build)
  show ?thesis
  proof (cases "enDryRun p")
    case True
    obtain n' s' where "endorse_loop L E p g (map Some ds) n0 k ?s = k n' s'" "ssHist s' = ssHist ?s"
      "ssOut s' = ssOut ?s @ map (would_line L p g) (filter (eligible L p g) (map db_block ds))"
      using endorse_loop_dry [OF ok True] by blast
    then show ?thesis using True run k by auto
  next
    case False
    obtain n' s' posts where "endorse_loop L E p g (map Some ds) n0 k ?s = k n' s'" "ssHist s' = ssHist ?s @ posts"
      "real_run L p g (map db_block ds) posts"
      using endorse_loop_real [OF ok False] by blast
    then show ?thesis using False run k by (auto simp: real_run_def)
  qed
qed

text \<open>
  C30.  \<open>gpgchain endorse\<close> signs what it should: when the server answers with blocks, the command
  ends with 0 after the request for them and, for each eligible block in order, one request
  that signs the block hash in the caller's name (none when signing fails).  Eligible are the
  unrevoked blocks of other keys whose score from the caller reaches the threshold and which
  have no entry of the caller.  A dry run makes no further request and lists exactly the
  eligible blocks.
\<close>

theorem endorse_signs_eligible:
  assumes "ceNet E (ssHist s) (GET (TrimRightSlash (enServer p) @ ''/blocks'')) = Answer 200 (Some doc)"
    and "dec_blocks L doc = (Some (map Some ds), False)" and "\<forall>d \<in> set ds. db_first_nil d = None"
    and "g = Build (map db_block ds)"
  shows "\<exists>s'. endorse_blocks L E p s = (Exit 0, s') \<and>
    (if enDryRun p then
       ssHist s' = ssHist s @ [GET (TrimRightSlash (enServer p) @ ''/blocks'')] \<and>
       (\<exists>summary. ssOut s' = ssOut s @ map (would_line L p g) (filter (eligible L p g) (map db_block ds)) @ [[], summary])
     else
       (\<exists>segs. ssHist s' = ssHist s @ [GET (TrimRightSlash (enServer p) @ ''/blocks'')] @ concat segs \<and>
          list_all2 (signing L p) (filter (eligible L p g) (map db_block ds)) segs))"
  by (rule endorse_run [OF assms])

text \<open>
  A ledger that one server makes up: the keys \<open>42\<close> and \<open>4D\<close> with entries in the names of \<open>41\<close>
  and \<open>42\<close> whose signatures are no signatures at all.
\<close>

definition forged_block :: "string \<Rightarrow> string \<Rightarrow> Block" where
  "forged_block fp signer = zero_block\<lparr>bHash := ''0'', bFingerprint := fp,
     bSigEntries := [zero_entry\<lparr>seSigner := signer, seSig := ''eA==''\<rparr>]\<rparr>"

definition forged_ledger :: "Block list" where
  "forged_ledger = [forged_block ''42'' ''41'', forged_block ''4D'' ''42'']"

definition forged_net :: network where
  "forged_net h r =
     (if r = GET ''http://localhost:8080/block/4D''
      then Answer 200 (Some (encode (\<lambda>m e. fmt_d m) (blockToMap (forged_block ''4D'' ''42''))))
      else if r = GET ''http://localhost:8080/blocks''
      then Answer 200 (Some (encode (\<lambda>m e. fmt_d m) (blocks_any forged_ledger)))
      else Fail)"

definition sample_endorser :: endorser where
  "sample_endorser = \<lparr>enOwnFP = ''41'', enPriv = ''A'', enServer = ''http://localhost:8080'', enThreshold = 1,
     enMaxDepth = 2, enDisjoint = False, enDryRun = False\<rparr>"

lemma forged_utf8: "ascii fp \<Longrightarrow> ascii signer \<Longrightarrow> utf8_block (forged_block fp signer)"
  by (simp add: utf8_block_def utf8_entry_def forged_block_def zero_block_def zero_entry_def
      utf8_fix_ascii ascii_def byte_def)

lemma forged_ledger_utf8: "\<forall>b \<in> set forged_ledger. utf8_block b"
  by (simp add: forged_ledger_def forged_utf8 ascii_def byte_def)

lemma forged_decoded:
  "dec_blocks L (encode F (blocks_any forged_ledger)) = (Some (map Some (map (\<lambda>b. DBlock b None) forged_ledger)), False)"
  by (rule dec_blocks_encode [OF forged_ledger_utf8])

lemma forged_score: "Score (Build forged_ledger) ''4D'' ''41'' 2 = 1"
  by code_simp

lemma forged_eligible:
  "filter (eligible sample_lib sample_endorser (Build forged_ledger)) forged_ledger = [forged_block ''4D'' ''42'']"
proof -
  have "ToUpper sample_lib ''4D'' = ''4D''" "ToUpper sample_lib ''41'' = ''41''" "ToUpper sample_lib ''42'' = ''42''"
    by code_simp+
  moreover have "bFingerprint (forged_block fp x) = fp" "\<not> bRevoked (forged_block fp x)"
    "set (bSigEntries (forged_block fp x)) = {zero_entry\<lparr>seSigner := x, seSig := ''eA==''\<rparr>}" for fp x
    by (simp_all add: forged_block_def zero_block_def)
  moreover have "seSigner (zero_entry\<lparr>seSigner := x, seSig := y\<rparr>) = x" for x y by (simp add: zero_entry_def)
  ultimately have "\<not> eligible sample_lib sample_endorser g (forged_block ''42'' ''41'')"
    "eligible sample_lib sample_endorser (Build forged_ledger) (forged_block ''4D'' ''42'')" for g
    using forged_score by (simp_all add: eligible_def score_of_def sample_endorser_def)
  then show ?thesis by (simp add: forged_ledger_def)
qed

lemma forged_signing:
  "signing sample_lib sample_endorser (forged_block ''4D'' ''42'') seg \<Longrightarrow>
     \<exists>sig ts. seg = [POST ''http://localhost:8080/block/4D/sign'' (AObj (sign_body ''41'' sig ts))]"
proof -
  have "ToUpper sample_lib ''4D'' = ''4D''" by code_simp
  moreover have "Sign sample_lib now x ''A'' = Inr (EncodeToString (''A'' @ x))" for now x
    by (simp add: Sign_def sample_lib_def)
  ultimately show "signing sample_lib sample_endorser (forged_block ''4D'' ''42'') seg \<Longrightarrow> ?thesis"
    by (auto simp: signing_def sample_endorser_def forged_block_def zero_block_def)
qed

lemma forged_served:
  "ceNet (client_of forged_net) (ssHist session0) (GET (TrimRightSlash (enServer sample_endorser) @ ''/blocks'')) =
     Answer 200 (Some (encode (\<lambda>m e. fmt_d m) (blocks_any forged_ledger)))"
  "\<forall>d \<in> set (map (\<lambda>b. DBlock b None) forged_ledger). db_first_nil d = None"
  "map db_block (map (\<lambda>b. DBlock b None) forged_ledger) = forged_ledger"
  "\<not> enDryRun sample_endorser"
  by (simp_all add: sample_endorser_def forged_net_def comp_def)

lemma forged_posts:
  assumes "list_all2 (signing sample_lib sample_endorser)
      (filter (eligible sample_lib sample_endorser (Build forged_ledger)) forged_ledger) segs"
  shows "\<exists>sig ts. concat segs = [POST ''http://localhost:8080/block/4D/sign'' (AObj (sign_body ''41'' sig ts))]"
proof -
  obtain seg where "segs = [seg]" "signing sample_lib sample_endorser (forged_block ''4D'' ''42'') seg"
    using assms unfolding forged_eligible by (auto simp: list_all2_Cons1)
  then show ?thesis using forged_signing [of seg] by auto
qed

theorem endorse_signs_eligible_witness:
  "\<exists>s' sig ts. endorse_blocks sample_lib (client_of forged_net) sample_endorser session0 = (Exit 0, s') \<and>
     ssHist s' = [GET ''http://localhost:8080/blocks'',
       POST ''http://localhost:8080/block/4D/sign'' (AObj (sign_body ''41'' sig ts))]"
proof -
  obtain s' segs where s': "endorse_blocks sample_lib (client_of forged_net) sample_endorser session0 = (Exit 0, s')"
    "ssHist s' = ssHist session0 @ [GET (TrimRightSlash (enServer sample_endorser) @ ''/blocks'')] @ concat segs"
    "list_all2 (signing sample_lib sample_endorser)
       (filter (eligible sample_lib sample_endorser (Build forged_ledger)) forged_ledger) segs"
    using endorse_signs_eligible [OF forged_served(1) forged_decoded forged_served(2) refl, where L = sample_lib]
      forged_served(4) unfolding forged_served(3) by auto
  then show ?thesis using forged_posts [of segs] by (auto simp: sample_endorser_def)
qed

end
