(* ===== verification/Crawl.thy ===== *)
theory Crawl
  imports Discovery
begin

text \<open>
  What the two searches of \<open>Discovery\<close> have in common, as a locale: a loop that takes nodes
  from the frontier, visits each and asks it for its peers.  Each node is contacted at most
  once and no more than \<open>maxNodes\<close> are; when no more nodes than that can be reached, all of
  them are contacted.  The interpretations on \<open>find_loop\<close> and \<open>email_loop\<close> give the
  properties of \<open>FindBlock\<close> and \<open>FindBlocksByEmail\<close>.
\<close>

section \<open>Frontiers\<close>

text \<open>
  The nodes of a frontier: \<open>tried\<close> are those already taken from the queues.  A node is a base
  URL without slashes at its end, so different members are different nodes.
\<close>

definition frontier_ok :: "string list \<Rightarrow> frontier \<Rightarrow> bool" where
  "frontier_ok tried f \<longleftrightarrow> distinct (frVisited f) \<and> mset (queued f) + mset tried = mset (frVisited f) \<and>
     (\<forall>u \<in> set (frVisited f). TrimRightSlash u = u)"

lemma frontier_ok_next:
  assumes "frontier_ok tried f" and "hasQueued f" and "nextNode f = (u, f')"
  shows "frontier_ok (tried @ [u]) f'" "u \<in> set (frVisited f)" "u \<notin> set tried"
proof -
  note q = nextNode_queued [OF assms(2,3)]
  have eq: "mset (u # queued f' @ tried) = mset (frVisited f)" using assms(1) q(1) by (simp add: frontier_ok_def)
  then show "frontier_ok (tried @ [u]) f'" using assms(1) q(2) by (simp add: frontier_ok_def)
  show "u \<in> set (frVisited f)" using mset_eq_setD [OF eq] by auto
  have "distinct (u # queued f' @ tried)"
    using mset_eq_imp_distinct_iff [OF eq] assms(1) by (simp add: frontier_ok_def)
  then show "u \<notin> set tried" by simp
qed

lemma frontier_ok_tried: "frontier_ok tried f \<Longrightarrow> distinct tried \<and> set tried \<subseteq> set (frVisited f) \<and>
    length tried + length (queued f) = length (frVisited f)"
proof -
  assume ok: "frontier_ok tried f"
  then have eq: "mset (queued f @ tried) = mset (frVisited f)" by (simp add: frontier_ok_def)
  have "distinct (queued f @ tried)" using mset_eq_imp_distinct_iff [OF eq] ok by (simp add: frontier_ok_def)
  moreover have "set tried \<subseteq> set (frVisited f)" using mset_eq_setD [OF eq] by auto
  moreover have "length (queued f @ tried) = length (frVisited f)" using mset_eq_length [OF eq] .
  ultimately show ?thesis by simp
qed

lemma frontier_ok_ask:
  assumes "frontier_ok tried f"
  shows "frontier_ok tried (fst (ask_peers L net hint u f h))"
proof -
  obtain new where new: "mset (queued (fst (ask_peers L net hint u f h))) = mset (queued f) + mset new"
    "frVisited (fst (ask_peers L net hint u f h)) = frVisited f @ new" "distinct new"
    "set new = (case fst (fetchWellKnown L net u h) of None \<Rightarrow> {} | Some wk \<Rightarrow> wk_nodes wk) - set (frVisited f)"
    using ask_peers_spec [of L net hint u f h] by blast
  have "TrimRightSlash v = v" if "v \<in> wk_nodes wk" for v wk
    using that by (auto simp: wk_nodes_def split: option.splits)
  then have "TrimRightSlash v = v" if "v \<in> set new" for v
    using that unfolding new(4) by (auto split: option.splits)
  moreover have "set new \<inter> set (frVisited f) = {}" unfolding new(4) by blast
  ultimately show ?thesis using new(1-3) assms by (auto simp: frontier_ok_def)
qed

lemma seed_nodes_ok:
  "frontier_ok tried f \<Longrightarrow> frontier_ok tried (seed_nodes L raws f) \<and>
     set (frVisited (seed_nodes L raws f)) = set (frVisited f) \<union> (normaliseURL L ` set raws - {[]})"
proof (induction raws arbitrary: f)
  case (Cons raw raws)
  let ?u = "normaliseURL L raw"
  let ?f = "if ?u \<noteq> [] \<and> ?u \<notin> set (frVisited f)
    then f\<lparr>frVisited := frVisited f @ [?u], frNormal := frNormal f @ [?u]\<rparr> else f"
  have "TrimRightSlash ?u = ?u"
    by (auto simp: normaliseURL_def Let_def TrimRightSlash_def [of "[]"] split: option.split)
  with Cons.prems have "frontier_ok tried ?f" by (simp add: frontier_ok_def queued_def)
  from Cons.IH [OF this] show ?case by (auto simp: Let_def)
qed simp

lemma new_frontier_ok: "frontier_ok [] new_frontier"
  by (simp add: frontier_ok_def new_frontier_def queued_def)

definition wk_request :: "string \<Rightarrow> http_req" where
  "wk_request u = GET (TrimRightSlash u @ ''/.well-known/gpgchain.json'')"

lemma ask_peers_log: "snd (ask_peers L net hint u f h) = h @ [wk_request u]"
  by (simp add: ask_peers_def fetchWellKnown_def ask_def wk_request_def split: answer.splits)

text \<open>Links between nodes, when the network always answers alike.\<close>

definition alike :: "network \<Rightarrow> bool" where
  "alike net \<longleftrightarrow> (\<forall>h h' r. net h r = net h' r)"

definition node_links :: "lib \<Rightarrow> network \<Rightarrow> (string \<times> string) set" where
  "node_links L net =
     {(u, v). \<exists>wk. fst (fetchWellKnown L net u []) = Some wk \<and> v \<in> wk_nodes wk}"

definition node_reach :: "lib \<Rightarrow> network \<Rightarrow> string list \<Rightarrow> string set" where
  "node_reach L net seeds = (node_links L net)\<^sup>* `` (normaliseURL L ` set seeds - {[]})"

lemma fst_ask: "alike net \<Longrightarrow> ask net r h = (net [] r, h @ [r])"
  by (metis alike_def ask_def)

lemma fetchWellKnown_alike:
  "alike net \<Longrightarrow> fst (fetchWellKnown L net u h) = fst (fetchWellKnown L net u [])"
  by (simp add: fetchWellKnown_def fst_ask split: answer.splits)

lemma ask_peers_visited:
  assumes "alike net"
  shows "set (frVisited (fst (ask_peers L net hint u f h))) = set (frVisited f) \<union> node_links L net `` {u}"
proof -
  obtain new where "frVisited (fst (ask_peers L net hint u f h)) = frVisited f @ new"
    "set new = (case fst (fetchWellKnown L net u h) of None \<Rightarrow> {} | Some wk \<Rightarrow> wk_nodes wk) - set (frVisited f)"
    using ask_peers_spec [of L net hint u f h] by blast
  then show ?thesis
    by (auto simp: node_links_def fetchWellKnown_alike [OF assms, of L u h] split: option.splits)
qed

section \<open>The loop\<close>

locale crawl =
  fixes L :: lib and net :: network and hint :: string and maxNodes :: int
    and visit :: "frontier \<Rightarrow> string \<Rightarrow> 's \<Rightarrow> history \<Rightarrow> ('r + 's) option \<times> history"
    and loop :: "frontier \<Rightarrow> 's \<Rightarrow> history \<Rightarrow> ('r + frontier \<times> 's) option \<times> history"
    and requests :: "string \<Rightarrow> history set"
  assumes visit_log: "\<exists>seg \<in> requests u. snd (visit f u s h) = h @ seg"
    and loop_stop: "\<not> (hasQueued f \<and> int (length (frVisited f)) \<le> maxNodes) \<Longrightarrow>
      loop f s h = (Some (Inr (f, s)), h)"
    and loop_step: "hasQueued f \<Longrightarrow> int (length (frVisited f)) \<le> maxNodes \<Longrightarrow> nextNode f = (u, f1) \<Longrightarrow>
      loop f s h =
        (case visit f1 u s h of
           (None, h1) \<Rightarrow> (None, h1)
         | (Some (Inl r), h1) \<Rightarrow> (Some (Inl r), h1)
         | (Some (Inr s1), h1) \<Rightarrow>
             (case ask_peers L net hint u f1 h1 of (f2, h2) \<Rightarrow> loop f2 s1 h2))"
begin

definition visit_requests :: "string \<Rightarrow> history set" where
  "visit_requests u = requests u \<union> {seg @ [wk_request u] | seg. seg \<in> requests u}"

theorem loop_bounded:
  assumes "frontier_ok tried f"
  shows "\<exists>us segs. snd (loop f s h) = h @ concat segs \<and> list_all2 (\<lambda>u seg. seg \<in> visit_requests u) us segs \<and>
    distinct (tried @ us) \<and> (\<forall>u \<in> set us. TrimRightSlash u = u) \<and>
    int (length (tried @ us)) \<le> max (int (length tried)) maxNodes"
  using assms
proof (induction "pending maxNodes f" arbitrary: f s h tried rule: less_induct)
  case less
  show ?case
  proof (cases "hasQueued f \<and> int (length (frVisited f)) \<le> maxNodes")
    case False
    then show ?thesis
      using loop_stop [OF False] frontier_ok_tried [OF less.prems] by (intro exI [of _ "[]"]) auto
  next
    case True
    obtain u f1 where u: "nextNode f = (u, f1)" by fastforce
    note next' = frontier_ok_next [OF less.prems conjunct1 [OF True] u]
    have trim: "TrimRightSlash u = u" using next'(2) less.prems by (simp add: frontier_ok_def)
    have d: "distinct (tried @ [u])" using frontier_ok_tried [OF less.prems] next'(3) by simp
    have bound: "int (length (tried @ [u])) \<le> maxNodes"
      using frontier_ok_tried [OF next'(1)] nextNode_queued(2) [OF conjunct1 [OF True] u] True by simp
    obtain seg where seg: "seg \<in> requests u" "snd (visit f1 u s h) = h @ seg" using visit_log by blast
    note unfold = loop_step [OF conjunct1 [OF True] conjunct2 [OF True] u, of s h]
    show ?thesis
    proof (cases "\<exists>s1. fst (visit f1 u s h) = Some (Inr s1)")
      case False
      then have "snd (loop f s h) = h @ seg"
        using seg(2) unfolding unfold by (auto split: prod.splits option.splits sum.splits)
      then show ?thesis using seg(1) d bound trim
        by (intro exI [of _ "[u]"] exI [of _ "[seg]"]) (auto simp: visit_requests_def)
    next
      case True': True
      then obtain s1 where s1: "visit f1 u s h = (Some (Inr s1), h @ seg)" using seg(2) by (metis prod.collapse)
      let ?f2 = "fst (ask_peers L net hint u f1 (h @ seg))"
      have "pending maxNodes ?f2 < pending maxNodes f"
        by (rule pending_decreases) (use True u in auto)
      from less.hyps [OF this frontier_ok_ask [OF next'(1)], of s1 "h @ seg @ [wk_request u]"]
      obtain us segs where r: "snd (loop ?f2 s1 (h @ seg @ [wk_request u])) = (h @ seg @ [wk_request u]) @ concat segs"
        "list_all2 (\<lambda>u seg. seg \<in> visit_requests u) us segs" "distinct ((tried @ [u]) @ us)"
        "\<forall>u \<in> set us. TrimRightSlash u = u"
        "int (length ((tried @ [u]) @ us)) \<le> max (int (length (tried @ [u]))) maxNodes" by blast
      have "snd (loop f s h) = h @ concat ((seg @ [wk_request u]) # segs)"
        using r(1) ask_peers_log [of L net hint u f1 "h @ seg"] unfolding unfold s1
        by (simp add: split_beta)
      moreover have "seg @ [wk_request u] \<in> visit_requests u" using seg(1) by (auto simp: visit_requests_def)
      ultimately show ?thesis using r(2-5) bound trim
        by (intro exI [of _ "u # us"] exI [of _ "(seg @ [wk_request u]) # segs"]) auto
    qed
  qed
qed

text \<open>When no visit ends the loop, it visits every node that can be reached.\<close>

theorem loop_complete:
  assumes "alike net" and go: "\<And>f u s h. fst (visit f u s h) = Some (Inr (upd u s))"
    and "frontier_ok tried f" and R: "set (frVisited f) \<subseteq> R" "node_links L net `` R \<subseteq> R" "finite R" "int (card R) \<le> maxNodes"
    and closed: "node_links L net `` set tried \<subseteq> set (frVisited f)"
  shows "\<exists>us f'. fst (loop f s h) = Some (Inr (f', fold upd us s)) \<and> distinct (tried @ us) \<and>
    set (frVisited f) \<subseteq> set (tried @ us) \<and> set us \<subseteq> R \<and> node_links L net `` set (tried @ us) \<subseteq> set (tried @ us)"
  using assms(3,4) closed
proof (induction "pending maxNodes f" arbitrary: f s h tried rule: less_induct)
  case less
  have "length (frVisited f) \<le> card R"
    using less.prems(1) card_mono [OF R(3) less.prems(2)] by (simp add: frontier_ok_def distinct_card)
  then have small: "int (length (frVisited f)) \<le> maxNodes" using R(4) by simp
  show ?case
  proof (cases "hasQueued f")
    case False
    then have "queued f = []" by (simp add: hasQueued_queued)
    then have "mset tried = mset (frVisited f)" using less.prems(1) by (simp add: frontier_ok_def)
    then have "set tried = set (frVisited f)" by (rule mset_eq_setD)
    then show ?thesis
      using loop_stop [of f s h] False frontier_ok_tried [OF less.prems(1)] less.prems(3)
      by (intro exI [of _ "[]"] exI [of _ f]) auto
  next
    case True
    obtain u f1 where u: "nextNode f = (u, f1)" by fastforce
    note next' = frontier_ok_next [OF less.prems(1) True u]
    obtain h1 where h1: "visit f1 u s h = (Some (Inr (upd u s)), h1)" using go by (metis prod.collapse)
    let ?f2 = "fst (ask_peers L net hint u f1 h1)"
    have vis: "set (frVisited ?f2) = set (frVisited f) \<union> node_links L net `` {u}"
      using ask_peers_visited [OF assms(1)] nextNode_queued(2) [OF True u] by simp
    have "pending maxNodes ?f2 < pending maxNodes f" by (rule pending_decreases) (use True small u in auto)
    moreover have "set (frVisited ?f2) \<subseteq> R" using vis less.prems(2) next'(2) R(2) by blast
    moreover have "node_links L net `` set (tried @ [u]) \<subseteq> set (frVisited ?f2)"
      using less.prems(3) vis by auto
    ultimately obtain us f' where r: "fst (loop ?f2 (upd u s) (snd (ask_peers L net hint u f1 h1))) =
        Some (Inr (f', fold upd us (upd u s)))" "distinct ((tried @ [u]) @ us)"
      "set (frVisited ?f2) \<subseteq> set ((tried @ [u]) @ us)" "set us \<subseteq> R"
      "node_links L net `` set ((tried @ [u]) @ us) \<subseteq> set ((tried @ [u]) @ us)"
      using less.hyps [OF _ frontier_ok_ask [OF next'(1)]] by blast
    have "fst (loop f s h) = Some (Inr (f', fold upd (u # us) s))"
      using r(1) by (simp add: loop_step [OF True small u] h1 split_beta)
    then show ?thesis using r vis next'(2) less.prems(2)
      by (intro exI [of _ "u # us"] exI [of _ f']) auto
  qed
qed

end

section \<open>FindBlock and FindBlocksByEmail are such loops\<close>

type_synonym find_state = "NodeBlock list \<times> (string, dblock) gomap"

definition with_frontier :: "frontier \<Rightarrow> find_state \<Rightarrow> search" where
  "with_frontier f s = \<lparr>seFrontier = f, seCopies = fst s, seAccumulated = snd s\<rparr>"

definition find_visit ::
    "lib \<Rightarrow> network \<Rightarrow> string \<Rightarrow> TrustConfig option \<Rightarrow> frontier \<Rightarrow> string \<Rightarrow> find_state \<Rightarrow> history \<Rightarrow>
     (BlockResult + find_state) option \<times> history" where
  "find_visit L net fp tc f u s h =
     (case try_node L net fp tc u (with_frontier f s) h of
        (None, h) \<Rightarrow> (None, h)
      | (Some (Inl r), h) \<Rightarrow> (Some (Inl r), h)
      | (Some (Inr st), h) \<Rightarrow> (Some (Inr (seCopies st, seAccumulated st)), h))"

definition block_request :: "string \<Rightarrow> string \<Rightarrow> http_req" where
  "block_request fp u = GET (TrimRightSlash u @ ''/block/'' @ fp)"

definition find_requests :: "string \<Rightarrow> string \<Rightarrow> history set" where
  "find_requests fp u = {[block_request fp u], [block_request fp u, GET (TrimRightSlash u @ ''/blocks'')]}"

lemma try_node_log: "\<exists>seg \<in> find_requests fp u. snd (try_node L net fp tc u st h) = h @ seg"
  by (auto simp: try_node_def find_requests_def block_request_def fetchBlock_def fetchAllBlocks_def ask_def Let_def
      split: answer.splits option.splits prod.splits)

lemma try_node_parts:
  "fst (try_node L net fp tc u (with_frontier f s) h) = Some (Inr st') \<Longrightarrow>
     st' = with_frontier f (seCopies st', seAccumulated st')"
  using try_node_frontier [of L net fp tc u "with_frontier f s" h st'] by (simp add: with_frontier_def)

definition find_crawl ::
    "lib \<Rightarrow> network \<Rightarrow> string \<Rightarrow> TrustConfig option \<Rightarrow> string \<Rightarrow> int \<Rightarrow> frontier \<Rightarrow> find_state \<Rightarrow> history \<Rightarrow>
     (BlockResult + frontier \<times> find_state) option \<times> history" where
  "find_crawl L net fp tc hint maxNodes f s h =
     (case find_loop L net fp tc hint maxNodes (with_frontier f s) h of
        (None, h) \<Rightarrow> (None, h)
      | (Some (Inl r), h) \<Rightarrow> (Some (Inl r), h)
      | (Some (Inr st), h) \<Rightarrow> (Some (Inr (seFrontier st, seCopies st, seAccumulated st)), h))"

interpretation find: crawl L net hint maxNodes "find_visit L net fp tc" "find_crawl L net fp tc hint maxNodes"
    "find_requests fp"
  for L net hint maxNodes fp tc
proof (unfold_locales, goal_cases)
  case (1 u f s h)
  then show ?case using try_node_log [of fp u L net tc "with_frontier f s" h]
    by (auto simp: find_visit_def split: prod.splits option.splits sum.splits)
next
  case (2 f s h)
  then show ?case
    by (subst find_crawl_def, subst find_loop.simps) (auto simp: with_frontier_def)
next
  case (3 f u f1 s h)
  have f: "(with_frontier f s)\<lparr>seFrontier := f1\<rparr> = with_frontier f1 s" by (simp add: with_frontier_def)
  have sel: "seFrontier (with_frontier f s) = f" by (simp add: with_frontier_def)
  obtain r h1 where r: "try_node L net fp tc u (with_frontier f1 s) h = (r, h1)" by fastforce
  show ?case
  proof (cases "\<exists>st. r = Some (Inr st)")
    case False
    then show ?thesis using 3 r
      by (subst find_crawl_def, subst find_loop.simps) (auto simp: sel f find_visit_def split: option.splits sum.splits)
  next
    case True
    then obtain st where st: "r = Some (Inr st)" by blast
    have st': "st = with_frontier f1 (seCopies st, seAccumulated st)"
      using try_node_parts [of L net fp tc u f1 s h st] r st by simp
    then have "seFrontier st = f1" "st\<lparr>seFrontier := f2\<rparr> = with_frontier f2 (seCopies st, seAccumulated st)" for f2
      by (metis search.select_convs(1) with_frontier_def, metis search.update_convs(1) with_frontier_def)
    then show ?thesis using 3 r st
      by (subst find_crawl_def, subst find_loop.simps) (simp add: sel f find_visit_def find_crawl_def split_beta)
  qed
qed

definition search_request :: "string \<Rightarrow> string \<Rightarrow> http_req" where
  "search_request email u = GET (TrimRightSlash u @ ''/search?q='' @ QueryEscape email)"

definition email_visit ::
    "lib \<Rightarrow> network \<Rightarrow> string \<Rightarrow> frontier \<Rightarrow> string \<Rightarrow> best_blocks \<Rightarrow> history \<Rightarrow> (unit + best_blocks) option \<times> history" where
  "email_visit L net email f u best h =
     (case search_node L net email u best h of (r, h) \<Rightarrow> (map_option Inr r, h))"

definition email_crawl ::
    "lib \<Rightarrow> network \<Rightarrow> string \<Rightarrow> string \<Rightarrow> int \<Rightarrow> frontier \<Rightarrow> best_blocks \<Rightarrow> history \<Rightarrow>
     (unit + frontier \<times> best_blocks) option \<times> history" where
  "email_crawl L net email domain maxNodes f best h =
     (case email_loop L net email domain maxNodes f best h of (r, h) \<Rightarrow> (map_option Inr r, h))"

interpretation email: crawl L net domain maxNodes "email_visit L net email" "email_crawl L net email domain maxNodes"
    "\<lambda>u. {[search_request email u]}"
  for L net domain maxNodes email
proof (unfold_locales, goal_cases)
  case (1 u f s h)
  then show ?case
    by (auto simp: email_visit_def search_node_def ask_def search_request_def split: prod.splits answer.splits option.splits)
next
  case (2 f s h)
  then show ?case by (subst email_crawl_def, subst email_loop.simps) auto
next
  case (3 f u f1 s h)
  then show ?case
    by (subst email_crawl_def, subst email_loop.simps)
      (auto simp: email_visit_def email_crawl_def split: prod.splits option.splits)
qed

section \<open>Properties\<close>

lemma FindBlock_log:
  "snd (FindBlock L net fingerprint seeds hint maxNodes tc h) =
     snd (find_crawl L net (ToUpper L fingerprint) tc hint maxNodes (seed_nodes L seeds new_frontier) ([], []) h)"
  by (simp add: FindBlock_def find_crawl_def with_frontier_def Let_def split: prod.splits option.splits sum.splits)

lemma FindBlocksByEmail_log:
  "snd (FindBlocksByEmail L net email seeds maxNodes h) =
     snd (email_crawl L net email (domainFromEmail email) maxNodes (seed_nodes L seeds new_frontier) [] h)"
  by (simp add: FindBlocksByEmail_def email_crawl_def split: prod.splits option.splits)

lemma seeds_frontier:
  "frontier_ok [] (seed_nodes L seeds new_frontier)"
  "set (frVisited (seed_nodes L seeds new_frontier)) = normaliseURL L ` set seeds - {[]}"
  using seed_nodes_ok [OF new_frontier_ok, of L seeds] by (simp_all add: new_frontier_def)

lemma distinct_trimmed: "\<forall>u \<in> set us. TrimRightSlash u = u \<Longrightarrow> distinct us \<Longrightarrow> distinct (map TrimRightSlash us)"
  by (simp add: map_idI)

lemma too_many_seeds:
  assumes "maxNodes < int (card (normaliseURL L ` set seeds - {[]}))"
  shows "maxNodes < int (length (frVisited (seed_nodes L seeds new_frontier)))"
  using assms seeds_frontier [of L seeds] distinct_card by (metis frontier_ok_def)

text \<open>
  C20.  A search is bounded whatever the nodes answer: \<open>FindBlock\<close> and \<open>FindBlocksByEmail\<close> contact
  no node twice, where a node is a base URL up to slashes at its end, and at most \<open>maxNodes\<close> of
  them, and make at most three requests (two) to each, in a fixed order.  When there are more
  seeds than \<open>maxNodes\<close>, no node is contacted at all.
\<close>

theorem discovery_bounded:
  "(\<exists>us segs. snd (FindBlock L net fingerprint seeds hint maxNodes tc h) = h @ concat segs \<and>
     list_all2 (\<lambda>u seg. \<exists>a \<in> find_requests (ToUpper L fingerprint) u. seg = a \<or> seg = a @ [wk_request u]) us segs \<and>
     distinct (map TrimRightSlash us) \<and> int (length us) \<le> max 0 maxNodes) \<and>
   (\<exists>us segs. snd (FindBlocksByEmail L net email seeds maxNodes h) = h @ concat segs \<and>
     list_all2 (\<lambda>u seg. seg = [search_request email u] \<or> seg = [search_request email u, wk_request u]) us segs \<and>
     distinct (map TrimRightSlash us) \<and> int (length us) \<le> max 0 maxNodes) \<and>
   (maxNodes < int (card (normaliseURL L ` set seeds - {[]})) \<longrightarrow>
     snd (FindBlock L net fingerprint seeds hint maxNodes tc h) = h \<and>
     snd (FindBlocksByEmail L net email seeds maxNodes h) = h)"
proof (intro conjI impI)
  show "\<exists>us segs. snd (FindBlock L net fingerprint seeds hint maxNodes tc h) = h @ concat segs \<and>
     list_all2 (\<lambda>u seg. \<exists>a \<in> find_requests (ToUpper L fingerprint) u. seg = a \<or> seg = a @ [wk_request u]) us segs \<and>
     distinct (map TrimRightSlash us) \<and> int (length us) \<le> max 0 maxNodes"
    using find.loop_bounded [OF seeds_frontier(1) [of L seeds], where L = L and net = net and hint = hint
        and maxNodes = maxNodes and fp = "ToUpper L fingerprint" and tc = tc and s = "([], [])" and h = h]
    unfolding FindBlock_log find.visit_requests_def
    by (elim exE conjE) (rule exI, rule exI, intro conjI, assumption, erule list_all2_mono, auto simp: distinct_trimmed)
  show "\<exists>us segs. snd (FindBlocksByEmail L net email seeds maxNodes h) = h @ concat segs \<and>
     list_all2 (\<lambda>u seg. seg = [search_request email u] \<or> seg = [search_request email u, wk_request u]) us segs \<and>
     distinct (map TrimRightSlash us) \<and> int (length us) \<le> max 0 maxNodes"
    using email.loop_bounded [OF seeds_frontier(1) [of L seeds], where L = L and net = net
        and domain = "domainFromEmail email" and maxNodes = maxNodes and email = email and s = "[]" and h = h]
    unfolding FindBlocksByEmail_log email.visit_requests_def
    by (elim exE conjE) (rule exI, rule exI, intro conjI, assumption, erule list_all2_mono, auto simp: distinct_trimmed)
next
  assume "maxNodes < int (card (normaliseURL L ` set seeds - {[]}))"
  then have stop: "\<not> (hasQueued (seed_nodes L seeds new_frontier) \<and>
      int (length (frVisited (seed_nodes L seeds new_frontier))) \<le> maxNodes)"
    using too_many_seeds by (simp add: not_le)
  show "snd (FindBlock L net fingerprint seeds hint maxNodes tc h) = h"
    unfolding FindBlock_log by (subst find.loop_stop [OF stop]) simp
  show "snd (FindBlocksByEmail L net email seeds maxNodes h) = h"
    unfolding FindBlocksByEmail_log by (subst email.loop_stop [OF stop]) simp
qed

theorem discovery_bounded_witness:
  "snd (FindBlock sample_lib (\<lambda>h r. Fail) ''41'' [''http://a'', ''http://b''] [] 1 None []) = []"
proof -
  have "normaliseURL sample_lib ` set [''http://a'', ''http://b''] - {[]} = {''http://a'', ''http://b''}"
    by (simp add: normaliseURL_def TrimRightSlash_def sample_lib_def Let_def insert_commute)
  then have "1 < int (card (normaliseURL sample_lib ` set [''http://a'', ''http://b''] - {[]}))" by simp
  then show ?thesis
    using discovery_bounded [of sample_lib "\<lambda>h r. Fail" "''41''" "[''http://a'', ''http://b'']" "[]" 1 None "[]" "[]"]
    by blast
qed

lemma bestCopy_max:
  assumes "copies \<noteq> []"
  shows "bestCopy copies \<in> set copies" "c \<in> set copies \<Longrightarrow> sigs (nbBlock c) \<le> sigs (nbBlock (bestCopy copies))"
proof -
  let ?f = "\<lambda>nb best. if sigs (nbBlock nb) > sigs (nbBlock best) then nb else best"
  have "fold ?f cs b \<in> insert b (set cs) \<and>
      (\<forall>c \<in> insert b (set cs). sigs (nbBlock c) \<le> sigs (nbBlock (fold ?f cs b)))" for cs b
  proof (induction cs arbitrary: b)
    case (Cons c cs)
    show ?case using Cons.IH [of "?f c b"] by (auto split: if_splits)
  qed simp
  from this [of "tl copies" "hd copies"] assms
  show "bestCopy copies \<in> set copies" "c \<in> set copies \<Longrightarrow> sigs (nbBlock c) \<le> sigs (nbBlock (bestCopy copies))"
    unfolding bestCopy_def by (auto simp: insert_absorb neq_Nil_conv)
qed

text \<open>The block a node serves, and what visiting nodes without a trust configuration collects.\<close>

definition served_block :: "lib \<Rightarrow> network \<Rightarrow> string \<Rightarrow> string \<Rightarrow> dblock option" where
  "served_block L net fp u = fst (fetchBlock L net u fp [])"

definition collect :: "lib \<Rightarrow> network \<Rightarrow> string \<Rightarrow> string \<Rightarrow> find_state \<Rightarrow> find_state" where
  "collect L net fp u s =
     (case served_block L net fp u of
        None \<Rightarrow> s
      | Some b \<Rightarrow> (fst s @ [\<lparr>nbNodeURL = u, nbBlock = b\<rparr>], snd s))"

lemma find_visit_collect:
  "alike net \<Longrightarrow> fst (find_visit L net fp None f u s h) = Some (Inr (collect L net fp u s))"
  by (auto simp: find_visit_def try_node_def collect_def served_block_def fetchBlock_def fst_ask with_frontier_def
      split: answer.splits option.splits prod.splits)

lemma fold_collect:
  "fold (collect L net fp) us s =
     (fst s @ List.map_filter (\<lambda>u. map_option (\<lambda>b. \<lparr>nbNodeURL = u, nbBlock = b\<rparr>) (served_block L net fp u)) us, snd s)"
  by (induction us arbitrary: s) (auto simp: collect_def List.map_filter_def split: option.splits)

text \<open>
  C21.  A search without a trust configuration is complete: when every node that can be reached
  from the seeds over the peers the nodes name is reached within \<open>maxNodes\<close>, and the network
  always answers alike, \<open>FindBlock\<close> returns a copy from each of those nodes that serves the
  block, and as its result one of them with the longest chain of signatures.
\<close>

theorem FindBlock_complete:
  assumes "alike net" and "finite (node_reach L net seeds)" and "int (card (node_reach L net seeds)) \<le> maxNodes"
    and "fp = ToUpper L fingerprint"
  shows "\<exists>res. fst (FindBlock L net fingerprint seeds hint maxNodes None h) = Some res \<and>
    (brFound res \<longleftrightarrow> (\<exists>u \<in> node_reach L net seeds. served_block L net fp u \<noteq> None)) \<and>
    (\<forall>u b. \<lparr>nbNodeURL = u, nbBlock = b\<rparr> \<in> set (brAllCopies res) \<longleftrightarrow>
       u \<in> node_reach L net seeds \<and> served_block L net fp u = Some b) \<and>
    (brFound res \<longrightarrow> brNodeURL res \<in> node_reach L net seeds \<and>
       (\<exists>b. brBlock res = Some b \<and> served_block L net fp (brNodeURL res) = Some b \<and>
       (\<forall>c \<in> set (brAllCopies res). sigs (nbBlock c) \<le> sigs b)))"
proof -
  let ?R = "node_reach L net seeds" and ?f = "seed_nodes L seeds new_frontier"
  have "set (frVisited ?f) \<subseteq> ?R" unfolding seeds_frontier(2) node_reach_def by auto
  moreover have "node_links L net `` ?R \<subseteq> ?R" unfolding node_reach_def by (auto intro: rtrancl_into_rtrancl)
  ultimately obtain us f' where loop: "fst (find_crawl L net fp None hint maxNodes ?f ([], []) h) =
      Some (Inr (f', fold (collect L net fp) us ([], [])))"
    and us: "set (frVisited ?f) \<subseteq> set us" "set us \<subseteq> ?R" "node_links L net `` set us \<subseteq> set us"
    using find.loop_complete [OF assms(1) find_visit_collect [OF assms(1), of L fp] seeds_frontier(1) [of L seeds] _ _ assms(2,3),
        where hint = hint and s = "([], [])" and h = h] by auto
  have "x \<in> set us" if "(s, x) \<in> (node_links L net)\<^sup>*" "s \<in> set us" for s x
    using that by (induction rule: rtrancl_induct) (use us(3) in auto)
  then have all: "set us = ?R" using us(1,2) unfolding seeds_frontier(2) node_reach_def by blast
  let ?copies = "List.map_filter (\<lambda>u. map_option (\<lambda>b. \<lparr>nbNodeURL = u, nbBlock = b\<rparr>) (served_block L net fp u)) us"
  have copies: "c \<in> set ?copies \<longleftrightarrow> nbNodeURL c \<in> ?R \<and> served_block L net fp (nbNodeURL c) = Some (nbBlock c)" for c
    unfolding all [symmetric] List.map_filter_def by (cases c) force
  from loop obtain st h' where st: "find_loop L net fp None hint maxNodes (with_frontier ?f ([], [])) h = (Some (Inr st), h')"
    "seCopies st = ?copies"
    by (auto simp: find_crawl_def fold_collect split: prod.splits option.splits sum.splits)
  show ?thesis
  proof (cases "?copies = []")
    case True
    then have "\<forall>u \<in> ?R. served_block L net fp u = None"
      using copies [of "\<lparr>nbNodeURL = _, nbBlock = _\<rparr>"] by (metis NodeBlock.select_convs empty_iff list.set(1) option.exhaust)
    then show ?thesis using st True copies
      by (auto simp: FindBlock_def assms(4) [symmetric] with_frontier_def Let_def)
  next
    case False
    note best = bestCopy_max [OF False]
    have "\<exists>u \<in> ?R. served_block L net fp u \<noteq> None" using best(1) copies by auto
    then show ?thesis using st False best copies
      by (simp add: FindBlock_def assms(4) [symmetric] with_frontier_def Let_def found_def)
  qed
qed

text \<open>Two nodes: \<open>a\<close> knows \<open>b\<close>, and \<open>b\<close> serves a block.\<close>

definition sample_doc :: doc where
  "sample_doc = DObj [(''fingerprint'', DStr ''41''), (''hash'', DStr ''h'')]"

definition sample_net :: network where
  "sample_net h r =
     (if r = GET ''http://a/.well-known/gpgchain.json''
      then Answer 200 (Some (DObj [(''peers'', DArr [DStr ''http://b/''])]))
      else if r = GET ''http://b/block/41'' then Answer 200 (Some sample_doc)
      else Fail)"

definition sample_served :: dblock where
  "sample_served = DBlock (zero_block\<lparr>bFingerprint := ''41'', bHash := ''h''\<rparr>) None"

lemma sample_answers:
  "fst (fetchWellKnown sample_lib sample_net ''http://a'' []) = Some \<lparr>wkPeerNodes = None, wkPeers = [''http://b/'']\<rparr>"
  "fst (fetchWellKnown sample_lib sample_net ''http://b'' []) = None"
  "served_block sample_lib sample_net ''41'' ''http://a'' = None"
  "served_block sample_lib sample_net ''41'' ''http://b'' = Some sample_served"
  "normaliseURL sample_lib ''http://a'' = ''http://a''"
  by code_simp+

lemma sample_reach: "node_reach sample_lib sample_net [''http://a''] = {''http://a'', ''http://b''}"
proof -
  have a: "node_links sample_lib sample_net `` {''http://a''} = {''http://b''}"
    by (auto simp: node_links_def sample_answers wk_nodes_def TrimRightSlash_def)
  have b: "node_links sample_lib sample_net `` {''http://b''} = {}"
    by (auto simp: node_links_def sample_answers)
  have "x \<in> {''http://a'', ''http://b''}" if "(''http://a'', x) \<in> (node_links sample_lib sample_net)\<^sup>*" for x
    using that by (induction rule: rtrancl_induct) (use a b in auto)
  moreover have "(''http://a'', ''http://b'') \<in> node_links sample_lib sample_net" using a by blast
  ultimately show ?thesis by (auto simp: node_reach_def sample_answers)
qed

theorem FindBlock_complete_witness:
  "\<exists>res. fst (FindBlock sample_lib sample_net ''41'' [''http://a''] [] 2 None []) = Some res \<and>
     brFound res \<and> brNodeURL res = ''http://b'' \<and> brBlock res = Some sample_served"
proof -
  have "alike sample_net" by (simp add: alike_def sample_net_def)
  moreover have "''41'' = ToUpper sample_lib ''41''" by code_simp
  ultimately obtain res where res: "fst (FindBlock sample_lib sample_net ''41'' [''http://a''] [] 2 None []) = Some res"
    "brFound res \<longleftrightarrow> (\<exists>u \<in> {''http://a'', ''http://b''}. served_block sample_lib sample_net ''41'' u \<noteq> None)"
    "brFound res \<longrightarrow> brNodeURL res \<in> {''http://a'', ''http://b''} \<and>
       (\<exists>b. brBlock res = Some b \<and> served_block sample_lib sample_net ''41'' (brNodeURL res) = Some b)"
    using FindBlock_complete [of sample_net sample_lib "[''http://a'']" 2 "''41''" "''41''" "[]" "[]"]
    unfolding sample_reach by auto
  have "brFound res" using res(2) sample_answers(4) by simp
  with res(3) have "brNodeURL res = ''http://b'' \<and> brBlock res = Some sample_served"
    using sample_answers(3,4) by auto
  with res(1) \<open>brFound res\<close> show ?thesis by blast
qed

end
