(* ===== verification/Trusting.thy ===== *)
theory Trusting
  imports Endorse Crawl
begin

text \<open>
  What a verdict of \<open>gpgchain check\<close> rests on: the score in a graph of blocks that the contacted
  nodes served, and nothing else.  The client verifies no signature of these blocks.
\<close>

section \<open>The score is that of blocks that were served\<close>

text \<open>A block in an answer to a request for all blocks that is in the log.\<close>

definition served_in :: "lib \<Rightarrow> network \<Rightarrow> history \<Rightarrow> dblock \<Rightarrow> bool" where
  "served_in L net log d \<longleftrightarrow>
     (\<exists>h u bs rest. log = h @ GET (TrimRightSlash u @ ''/blocks'') # rest \<and>
        fst (fetchAllBlocks L net u h) = Some bs \<and> Some d \<in> set bs)"

lemma served_in_mono: "served_in L net log d \<Longrightarrow> served_in L net (log @ rs) d"
  unfolding served_in_def by fastforce

definition acc_ok :: "lib \<Rightarrow> network \<Rightarrow> history \<Rightarrow> (string, dblock) gomap \<Rightarrow> bool" where
  "acc_ok L net log acc \<longleftrightarrow>
     is_gomap acc \<and> (\<forall>(k, d) \<in> set acc. k = bFingerprint (db_block d) \<and> served_in L net log d)"

lemma acc_ok_mono: "acc_ok L net log acc \<Longrightarrow> acc_ok L net (log @ rs) acc"
  by (auto simp: acc_ok_def intro: served_in_mono)

lemma set_mset_key_subset: "set (mset_key k v m) \<subseteq> insert (k, v) (set m)"
  unfolding mset_key_def by (induction m) auto

lemma accumulate_ok:
  "accumulate bs acc = Some acc' \<Longrightarrow> acc_ok L net log acc \<Longrightarrow> \<forall>d. Some d \<in> set bs \<longrightarrow> served_in L net log d \<Longrightarrow>
     acc_ok L net log acc'"
proof (induction bs acc rule: accumulate.induct)
  case (3 b bs acc)
  let ?fp = "bFingerprint (db_block b)"
  have "acc_ok L net log (mset_key ?fp b acc)"
    using 3(3,4) set_mset_key_subset [of ?fp b acc] by (fastforce simp: acc_ok_def)
  then have "acc_ok L net log (if ?fp = [] then acc
      else (case mget acc ?fp of
          None \<Rightarrow> mset_key ?fp b acc
        | Some existing \<Rightarrow> if sigs b > sigs existing then mset_key ?fp b acc else acc))"
    using 3(3) by (simp split: option.splits)
  then show ?case using 3(1) [OF refl _ _] 3(2,4) by (auto simp: Let_def)
qed auto

text \<open>What a result may claim.\<close>

definition score_served :: "lib \<Rightarrow> network \<Rightarrow> TrustConfig \<Rightarrow> string \<Rightarrow> history \<Rightarrow> int \<Rightarrow> bool" where
  "score_served L net tc fp log sc \<longleftrightarrow>
     (\<exists>ds. (\<forall>d \<in> set ds. served_in L net log d) \<and> distinct (map (\<lambda>d. bFingerprint (db_block d)) ds) \<and>
        sc = Score (Build (map db_block ds)) fp (ToUpper L (tcRootFP tc)) (tcMaxDepth tc))"

lemma score_served_mono: "score_served L net tc fp log sc \<Longrightarrow> score_served L net tc fp (log @ rs) sc"
  by (auto simp: score_served_def intro: served_in_mono)

lemma trust_score_served:
  assumes "trust_score L tc fp acc = Some sc" and "acc_ok L net log acc"
  shows "score_served L net tc fp log sc"
proof -
  have "map (\<lambda>d. bFingerprint (db_block d)) (map snd acc) = map fst acc"
    using assms(2) by (auto simp: acc_ok_def)
  then have "distinct (map (\<lambda>d. bFingerprint (db_block d)) (map snd acc))"
    using assms(2) by (simp add: acc_ok_def is_gomap_def del: map_map)
  moreover have "sc = Score (Build (map db_block (map snd acc))) fp (ToUpper L (tcRootFP tc)) (tcMaxDepth tc)"
    using assms(1) by (auto simp: trust_score_def build_blocks_def blockSlice_def split: if_splits)
  moreover have "\<forall>d \<in> set (map snd acc). served_in L net log d" using assms(2) by (auto simp: acc_ok_def)
  ultimately show ?thesis unfolding score_served_def by blast
qed

lemma fetch_logs:
  "snd (fetchBlock L net u fp h) = h @ [GET (TrimRightSlash u @ ''/block/'' @ fp)]"
  "snd (fetchAllBlocks L net u h) = h @ [GET (TrimRightSlash u @ ''/blocks'')]"
  by (simp_all add: fetchBlock_def fetchAllBlocks_def ask_def split: answer.splits)

lemma try_node_served:
  assumes "acc_ok L net h (seAccumulated st)"
  shows "fst (try_node L net fp (Some tc) u st h) = Some (Inr st') \<Longrightarrow>
      acc_ok L net (snd (try_node L net fp (Some tc) u st h)) (seAccumulated st')"
    and "fst (try_node L net fp (Some tc) u st h) = Some (Inl r) \<Longrightarrow>
      score_served L net tc fp (snd (try_node L net fp (Some tc) u st h)) (brTrustScore r)"
proof -
  define h1 where "h1 = h @ [GET (TrimRightSlash u @ ''/block/'' @ fp)]"
  define h2 where "h2 = h1 @ [GET (TrimRightSlash u @ ''/blocks'')]"
  have ok1: "acc_ok L net h1 (seAccumulated st)" and ok2: "acc_ok L net h2 (seAccumulated st)"
    using acc_ok_mono [OF assms] acc_ok_mono [OF acc_ok_mono [OF assms]] by (simp_all add: h1_def h2_def)
  have all: "served_in L net h2 d" if "fst (fetchAllBlocks L net u h1) = Some bs" "Some d \<in> set bs" for bs d
    unfolding served_in_def h2_def using that by blast
  obtain x where b: "fetchBlock L net u fp h = (x, h1)"
    using fetch_logs(1) [of L net u fp h] by (metis h1_def prod.collapse)
  obtain y where a: "fetchAllBlocks L net u h1 = (y, h2)"
    using fetch_logs(2) [of L net u h1] by (metis h2_def prod.collapse)
  have acc: "acc_ok L net h2 acc"
    if "(case y of None \<Rightarrow> Some (seAccumulated st) | Some bs \<Rightarrow> accumulate bs (seAccumulated st)) = Some acc" for acc
    using that ok2 accumulate_ok all a by (cases y) fastforce+
  show "fst (try_node L net fp (Some tc) u st h) = Some (Inr st') \<Longrightarrow>
      acc_ok L net (snd (try_node L net fp (Some tc) u st h)) (seAccumulated st')"
    using ok1 acc by (auto simp: try_node_def b a Let_def split: option.splits if_splits)
  show "fst (try_node L net fp (Some tc) u st h) = Some (Inl r) \<Longrightarrow>
      score_served L net tc fp (snd (try_node L net fp (Some tc) u st h)) (brTrustScore r)"
    using acc trust_score_served
    by (auto simp: try_node_def b a Let_def found_def split: option.splits if_splits)
qed

lemma find_loop_served:
  "acc_ok L net h (seAccumulated st) \<Longrightarrow> find_loop L net fp (Some tc) hint maxNodes st h = (Some out, log) \<Longrightarrow>
     (case out of Inl r \<Rightarrow> score_served L net tc fp log (brTrustScore r) | Inr st' \<Rightarrow> acc_ok L net log (seAccumulated st'))"
proof (induction L net fp "Some tc" hint maxNodes st h rule: find_loop.induct)
  case (1 L net fp hint maxNodes st h)
  show ?case
  proof (cases "hasQueued (seFrontier st) \<and> int (length (frVisited (seFrontier st))) \<le> maxNodes")
    case False
    then show ?thesis using 1(2,3) by (subst (asm) find_loop.simps) auto
  next
    case True
    obtain u f where u: "nextNode (seFrontier st) = (u, f)" by fastforce
    define st1 where "st1 = st\<lparr>seFrontier := f\<rparr>"
    have ok: "acc_ok L net h (seAccumulated st1)" using 1(2) by (simp add: st1_def)
    obtain res h1 where res: "try_node L net fp (Some tc) u st1 h = (res, h1)" by fastforce
    note served = try_node_served [OF ok, of fp tc u, unfolded res fst_conv snd_conv]
    note loop = 1(3) [unfolded find_loop.simps [of L net fp _ hint maxNodes st h] u prod.case if_P [OF True]
      st1_def [symmetric] res]
    show ?thesis
    proof (cases "\<exists>st2. res = Some (Inr st2)")
      case False
      then show ?thesis using loop served(2) by (auto split: option.splits sum.splits)
    next
      case True': True
      then obtain st2 where st2: "res = Some (Inr st2)" by blast
      obtain f2 h2 where ask: "ask_peers L net hint u (seFrontier st2) h1 = (f2, h2)" by fastforce
      have "h2 = h1 @ [wk_request u]" using ask_peers_log [of L net hint u "seFrontier st2" h1] ask by simp
      then have acc: "acc_ok L net h2 (seAccumulated (st2\<lparr>seFrontier := f2\<rparr>))"
        using acc_ok_mono [OF served(1) [OF st2]] by simp
      show ?thesis
        by (rule 1(1) [OF True u [symmetric] res [symmetric, unfolded st1_def] st2 refl ask [symmetric] acc])
          (use loop in \<open>simp add: st2 ask\<close>)
    qed
  qed
qed

lemma FindBlock_served:
  assumes "FindBlock L net fingerprint seeds hint maxNodes (Some tc) h = (Some r, log)" and "brFound r"
  shows "score_served L net tc (ToUpper L fingerprint) log (brTrustScore r)"
proof -
  let ?fp = "ToUpper L fingerprint"
    and ?st = "\<lparr>seFrontier = seed_nodes L seeds new_frontier, seCopies = [], seAccumulated = []\<rparr>"
  have ok: "acc_ok L net h (seAccumulated ?st)" by (simp add: acc_ok_def)
  obtain out h1 where out: "find_loop L net ?fp (Some tc) hint maxNodes ?st h = (Some out, h1)"
    using assms(1) by (auto simp: FindBlock_def Let_def split: prod.splits option.splits)
  note served = find_loop_served [OF ok out]
  show ?thesis
  proof (cases out)
    case (Inl r')
    then show ?thesis using served out assms(1) by (simp add: FindBlock_def Let_def)
  next
    case (Inr st)
    then have "acc_ok L net h1 (seAccumulated st)" using served by simp
    moreover have "log = h1" using assms(1) out Inr by (simp add: FindBlock_def Let_def)
    moreover have "trust_score L tc ?fp (seAccumulated st) = Some (brTrustScore r)"
      using assms out Inr by (auto simp: FindBlock_def Let_def found_def split: if_splits)
    ultimately show ?thesis using trust_score_served by blast
  qed
qed

lemma check_finds:
  assumes "Parse [(''fingerprint'', VString []), keyid_flag E, (''max-depth'', VInt 2), (''threshold'', VInt 1),
      (''disjoint'', VBool False), server_flag E, (''seeds'', VString [])] args = Inr (fs, rest)"
    and "\<not> bflag fs ''disjoint''"
    and "cmdCheck L E args s = (Exit 0, s')"
  shows "\<exists>r. FindBlock L (ceNet E) (ToUpper L (sflag fs ''fingerprint'')) (seed_list L fs) [] 20
      (Some \<lparr>tcRootFP = ToUpper L (sflag fs ''keyid''), tcThreshold = iflag fs ''threshold'',
         tcMaxDepth = iflag fs ''max-depth''\<rparr>) (ssHist s) = (Some r, ssHist s') \<and> brFound r \<and>
    iflag fs ''threshold'' \<le> (if brTrustScore r < 0 then 0 else brTrustScore r)"
proof -
  define target where "target = ToUpper L (sflag fs ''fingerprint'')"
  define tc where "tc = \<lparr>tcRootFP = ToUpper L (sflag fs ''keyid''), tcThreshold = iflag fs ''threshold'',
    tcMaxDepth = iflag fs ''max-depth''\<rparr>"
  have out: "println_all ls (os_exit c) s = (Exit c, s\<lparr>ssOut := ssOut s @ ls\<rparr>)" for ls c s
    by (induction ls arbitrary: s) (simp_all add: os_exit_def println_def)
  have run: "cmdCheck L E args s =
      (if sflag fs ''fingerprint'' = [] \<or> sflag fs ''keyid'' = [] then os_exit 1
       else discover (FindBlock L (ceNet E) target (seed_list L fs) [] 20 (Some tc)) (\<lambda>r.
         if \<not> brFound r then
           println (''Block '' @ target @ '': NOT FOUND (tried '' @ fmt_d (brNodesTried r) @ '' nodes)'') (os_exit 1)
         else check_verdict target r (iflag fs ''threshold'') (if brTrustScore r < 0 then 0 else brTrustScore r))) s"
    unfolding cmdCheck_def parse_flags_def assms(1) sum.case prod.case Let_def target_def tc_def
    using assms(2) by (simp cong: if_cong)
  obtain r log where "FindBlock L (ceNet E) target (seed_list L fs) [] 20 (Some tc) (ssHist s) = (Some r, log)" "brFound r"
    "iflag fs ''threshold'' \<le> (if brTrustScore r < 0 then 0 else brTrustScore r)" "ssHist s' = log"
    using assms(3) unfolding run discover_def
    by (auto simp: os_exit_def println_def check_verdict_def out split: if_splits prod.splits option.splits)
  then show ?thesis unfolding target_def tc_def by blast
qed

lemma check_served:
  assumes "Parse [(''fingerprint'', VString []), keyid_flag E, (''max-depth'', VInt 2), (''threshold'', VInt 1),
      (''disjoint'', VBool False), server_flag E, (''seeds'', VString [])] args = Inr (fs, rest)"
    and "\<not> bflag fs ''disjoint''" and "ascii (sflag fs ''fingerprint'')" and "ascii (sflag fs ''keyid'')"
    and "cmdCheck L E args s = (Exit 0, s')"
  shows "\<exists>ds. (\<forall>d \<in> set ds. served_in L (ceNet E) (ssHist s') d) \<and>
    distinct (map (\<lambda>d. bFingerprint (db_block d)) ds) \<and>
    iflag fs ''threshold'' \<le> Score (Build (map db_block ds)) (ToUpper L (sflag fs ''fingerprint''))
      (ToUpper L (sflag fs ''keyid'')) (iflag fs ''max-depth'')"
proof -
  define target where "target = ToUpper L (sflag fs ''fingerprint'')"
  define tc where "tc = \<lparr>tcRootFP = ToUpper L (sflag fs ''keyid''), tcThreshold = iflag fs ''threshold'',
    tcMaxDepth = iflag fs ''max-depth''\<rparr>"
  have up: "ToUpper L target = target" "ToUpper L (tcRootFP tc) = ToUpper L (sflag fs ''keyid'')"
    using assms(3,4) by (simp_all add: target_def tc_def ToUpper_idem)
  from check_finds [OF assms(1,2,5)] obtain r where
    r: "FindBlock L (ceNet E) target (seed_list L fs) [] 20 (Some tc) (ssHist s) = (Some r, ssHist s')" "brFound r"
    "iflag fs ''threshold'' \<le> (if brTrustScore r < 0 then 0 else brTrustScore r)"
    unfolding target_def tc_def by blast
  from FindBlock_served [OF r(1,2)] obtain ds where ds: "\<forall>d \<in> set ds. served_in L (ceNet E) (ssHist s') d"
    "distinct (map (\<lambda>d. bFingerprint (db_block d)) ds)"
    "brTrustScore r = Score (Build (map db_block ds)) target (ToUpper L (sflag fs ''keyid'')) (iflag fs ''max-depth'')"
    unfolding score_served_def up by (auto simp: tc_def)
  moreover have "0 \<le> brTrustScore r" unfolding ds(3) by (rule Score_nonneg [OF graph_ok_Build])
  ultimately show ?thesis using r(3) unfolding target_def by auto
qed

text \<open>
  C27.  What TRUSTED means.  When \<open>gpgchain check\<close> without \<open>-disjoint\<close> exits with 0, the score that
  reached the threshold is the score of the target from the caller's key in the trust graph of
  blocks that were served: each of them was in the answer to a request for all blocks that the
  command made, and no two of them are of the same key.
\<close>

theorem trusted_is_served_score:
  assumes "Parse [(''fingerprint'', VString []), keyid_flag E, (''max-depth'', VInt 2), (''threshold'', VInt 1),
      (''disjoint'', VBool False), server_flag E, (''seeds'', VString [])] args = Inr (fs, rest)"
    and "\<not> bflag fs ''disjoint''" and "ascii (sflag fs ''fingerprint'')" and "ascii (sflag fs ''keyid'')"
    and "cmdCheck L E args s = (Exit 0, s')"
  shows "\<exists>ds. (\<forall>d \<in> set ds. served_in L (ceNet E) (ssHist s') d) \<and>
    distinct (map (\<lambda>d. bFingerprint (db_block d)) ds) \<and>
    iflag fs ''threshold'' \<le> Score (Build (map db_block ds)) (ToUpper L (sflag fs ''fingerprint''))
      (ToUpper L (sflag fs ''keyid'')) (iflag fs ''max-depth'')"
  using assms by (rule check_served)

section \<open>Signatures do not matter\<close>

lemma forged_signatures:
  assumes "b \<in> set forged_ledger" and "e \<in> set (bSigEntries b)"
  shows "\<not> VerifyDetachedSig sample_lib now (TrustPayload (bHash b) (seSigner e) (seTimestamp e)) (seSig e) key"
proof -
  have sig: "seSig e = ''eA==''" using assms by (auto simp: forged_ledger_def forged_block_def zero_block_def zero_entry_def)
  have decode: "DecodeString ''eA=='' = Some ''x''" by code_simp
  have "fp @ TrustPayload h s t \<noteq> ''x''" for fp h s t
    by (cases fp) (simp_all add: TrustPayload_def joinNull_def)
  then have "''x'' \<noteq> fp @ TrustPayload h s t" for fp h s t by metis
  then show ?thesis
    by (auto simp: VerifyDetachedSig_def sig decode readEntity_def sample_lib_def split: sum.splits if_splits)
qed

lemma forged_answers:
  "fetchBlock sample_lib forged_net ''http://localhost:8080'' ''4D'' h =
     (Some (DBlock (forged_block ''4D'' ''42'') None), h @ [GET ''http://localhost:8080/block/4D''])"
  "fetchAllBlocks sample_lib forged_net ''http://localhost:8080'' h =
     (Some (map Some (map (\<lambda>b. DBlock b None) forged_ledger)), h @ [GET ''http://localhost:8080/blocks''])"
  using dec_block_encode [OF forged_utf8, of "''4D''" "''42''"]
  by (simp_all add: fetchBlock_def fetchAllBlocks_def ask_def forged_net_def forged_decoded ascii_def byte_def)

definition forged_root :: TrustConfig where
  "forged_root = \<lparr>tcRootFP = ''41'', tcThreshold = 1, tcMaxDepth = 2\<rparr>"

lemma forged_trust:
  "\<exists>acc. accumulate (map Some (map (\<lambda>b. DBlock b None) forged_ledger)) [] = Some acc \<and>
     trust_score sample_lib forged_root ''4D'' acc = Some 1"
proof -
  have fps: "bFingerprint (forged_block fp signer) = fp" for fp signer by (simp add: forged_block_def zero_block_def)
  have "accumulate (map Some (map (\<lambda>b. DBlock b None) forged_ledger)) [] =
      Some [(''42'', DBlock (forged_block ''42'' ''41'') None), (''4D'', DBlock (forged_block ''4D'' ''42'') None)]"
    by (simp add: forged_ledger_def fps mget_def mset_key_def Let_def)
  moreover have "ToUpper sample_lib ''41'' = ''41''" by code_simp
  ultimately show ?thesis
    using forged_score by (simp add: trust_score_def blockSlice_def build_blocks_def db_nil_def forged_root_def forged_ledger_def)
qed

lemma forged_find:
  "\<exists>r h. FindBlock sample_lib forged_net ''4D'' [''http://localhost:8080''] [] 20 (Some forged_root) [] = (Some r, h) \<and>
     brFound r \<and> brTrustScore r = 1"
proof -
  obtain acc where acc: "accumulate (map Some (map (\<lambda>b. DBlock b None) forged_ledger)) [] = Some acc"
    "trust_score sample_lib forged_root ''4D'' acc = Some 1" using forged_trust by blast
  have "normaliseURL sample_lib ''http://localhost:8080'' = ''http://localhost:8080''" by code_simp
  then have seeds: "seed_nodes sample_lib [''http://localhost:8080''] new_frontier =
      \<lparr>frExact = [], frAllowAll = [], frNormal = [''http://localhost:8080''], frVisited = [''http://localhost:8080'']\<rparr>"
    by (simp add: new_frontier_def Let_def)
  have up: "ToUpper sample_lib ''4D'' = ''4D''" by code_simp
  have thr: "tcThreshold forged_root = 1" by (simp add: forged_root_def)
  show ?thesis
    unfolding FindBlock_def Let_def up seeds
    by (subst find_loop.simps)
      (simp add: hasQueued_def nextNode_def try_node_def forged_answers(1) forged_answers(2) acc thr found_def Let_def del: map_map)
qed

lemma forged_args:
  "Parse [(''fingerprint'', VString []), keyid_flag (client_of net), (''max-depth'', VInt 2), (''threshold'', VInt 1),
       (''disjoint'', VBool False), server_flag (client_of net), (''seeds'', VString [])]
     [''--fingerprint'', ''4D'', ''--keyid'', ''41''] =
   Inr ([(''fingerprint'', VString ''4D''), (''keyid'', VString ''41''), (''max-depth'', VInt 2), (''threshold'', VInt 1),
     (''disjoint'', VBool False), (''server'', VString ''http://localhost:8080''), (''seeds'', VString [])], [])"
proof -
  have "keyid_flag (client_of net) = (''keyid'', VString [])"
    "server_flag (client_of net) = (''server'', VString ''http://localhost:8080'')"
    by (simp_all add: keyid_flag_def server_flag_def envOr_def client_of_def)
  moreover have "Parse [(''fingerprint'', VString []), (''keyid'', VString []), (''max-depth'', VInt 2), (''threshold'', VInt 1),
       (''disjoint'', VBool False), (''server'', VString ''http://localhost:8080''), (''seeds'', VString [])]
     [''--fingerprint'', ''4D'', ''--keyid'', ''41''] =
   Inr ([(''fingerprint'', VString ''4D''), (''keyid'', VString ''41''), (''max-depth'', VInt 2), (''threshold'', VInt 1),
     (''disjoint'', VBool False), (''server'', VString ''http://localhost:8080''), (''seeds'', VString [])], [])"
    by code_simp
  ultimately show ?thesis by simp
qed

lemma forged_check:
  "fst (cmdCheck sample_lib (client_of forged_net) [''--fingerprint'', ''4D'', ''--keyid'', ''41''] session0) = Exit 0"
proof -
  obtain r h where r: "FindBlock sample_lib forged_net ''4D'' [''http://localhost:8080''] [] 20 (Some forged_root) [] = (Some r, h)"
    "brFound r" "brTrustScore r = 1" using forged_find by blast
  have up: "ToUpper sample_lib ''4D'' = ''4D''" "ToUpper sample_lib ''41'' = ''41''" by code_simp+
  have out: "println_all ls (os_exit c) s = (Exit c, s\<lparr>ssOut := ssOut s @ ls\<rparr>)" for ls c s
    by (induction ls arbitrary: s) (simp_all add: os_exit_def println_def)
  show ?thesis using r unfolding cmdCheck_def parse_flags_def forged_args sum.case prod.case
    by (simp add: sflag_def bflag_def iflag_def mget_Cons up seed_list_def
        discover_def forged_root_def [symmetric] check_verdict_def out Let_def)
qed

theorem trusted_is_served_score_witness:
  "\<exists>ds. distinct (map (\<lambda>d. bFingerprint (db_block d)) ds) \<and> 1 \<le> Score (Build (map db_block ds)) ''4D'' ''41'' 2"
proof -
  let ?args = "[''--fingerprint'', ''4D'', ''--keyid'', ''41'']"
  obtain s' where s': "cmdCheck sample_lib (client_of forged_net) ?args session0 = (Exit 0, s')"
    using forged_check by (metis prod.collapse)
  have up: "ToUpper sample_lib ''4D'' = ''4D''" "ToUpper sample_lib ''41'' = ''41''" by code_simp+
  have ascii: "ascii ''4D''" "ascii ''41''" by (simp_all add: ascii_def byte_def)
  show ?thesis
    using trusted_is_served_score [OF forged_args _ _ _ s'] up ascii by (auto simp: bflag_def sflag_def iflag_def mget_Cons)
qed

text \<open>
  C29.  A TRUSTED verdict needs no signature.  For a server that makes up a ledger whose entries
  carry no valid signature of any key, \<open>gpgchain check\<close> exits with 0 (trusted), and \<open>gpgchain
  endorse\<close> asks the server to record a signature by the caller's own key on the made-up block.
  Neither command verifies anything of what it is served.
\<close>

theorem verdict_needs_no_signature:
  "(\<forall>h. forged_net h (GET ''http://localhost:8080/blocks'') =
      Answer 200 (Some (encode (\<lambda>m e. fmt_d m) (blocks_any forged_ledger)))) \<and>
   list_all (\<lambda>b. list_all (\<lambda>e. \<forall>now key.
      \<not> VerifyDetachedSig sample_lib now (TrustPayload (bHash b) (seSigner e) (seTimestamp e)) (seSig e) key)
     (bSigEntries b)) forged_ledger \<and>
   fst (cmdCheck sample_lib (client_of forged_net) [''--fingerprint'', ''4D'', ''--keyid'', ''41''] session0) = Exit 0 \<and>
   (\<exists>s' sig ts. endorse_blocks sample_lib (client_of forged_net) sample_endorser session0 = (Exit 0, s') \<and>
      POST ''http://localhost:8080/block/4D/sign'' (AObj (sign_body ''41'' sig ts)) \<in> set (ssHist s'))"
proof -
  obtain s' segs where s': "endorse_blocks sample_lib (client_of forged_net) sample_endorser session0 = (Exit 0, s')"
    "ssHist s' = ssHist session0 @ [GET (TrimRightSlash (enServer sample_endorser) @ ''/blocks'')] @ concat segs"
    "list_all2 (signing sample_lib sample_endorser)
       (filter (eligible sample_lib sample_endorser (Build forged_ledger)) forged_ledger) segs"
    using endorse_run [OF forged_served(1) forged_decoded forged_served(2) refl, where L = sample_lib]
      forged_served(4) unfolding forged_served(3) by auto
  obtain sig ts where "concat segs = [POST ''http://localhost:8080/block/4D/sign'' (AObj (sign_body ''41'' sig ts))]"
    using forged_posts [OF s'(3)] by blast
  then have "POST ''http://localhost:8080/block/4D/sign'' (AObj (sign_body ''41'' sig ts)) \<in> set (ssHist s')"
    unfolding s'(2) by simp
  then show ?thesis using s'(1) forged_signatures forged_check by (simp add: forged_net_def list_all_iff) blast
qed

end
