(* ===== verification/Together.thy ===== *)
theory Together
  imports Trusting
begin

text \<open>
  A client and a node together: the network of the client is a node on the memory store, whose
  state after a history of requests is what serving them one after the other leaves.  The
  commands \<open>add\<close>, \<open>sign\<close> and \<open>revoke\<close> then have on the ledger the effect they announce.
\<close>

section \<open>A node as a network\<close>

fun QueryUnescape :: "string \<Rightarrow> string" where
  "QueryUnescape [] = []"
| "QueryUnescape (c # s) =
     (if c = CHR ''%'' then
        (case s of
           a # b # s' \<Rightarrow>
             (case (digit_value a, digit_value b) of
                (Some i, Some j) \<Rightarrow> char_of (16 * i + j) # QueryUnescape s'
              | _ \<Rightarrow> [])
         | _ \<Rightarrow> [])
      else (if c = CHR ''+'' then CHR '' '' else c) # QueryUnescape s)"

definition url_path :: "string \<Rightarrow> string \<Rightarrow> string" where
  "url_path base url = takeWhile (\<lambda>c. c \<noteq> CHR ''?'') (drop (length base) url)"

definition url_query :: "string \<Rightarrow> string" where
  "url_query url =
     (case dropWhile (\<lambda>c. c \<noteq> CHR ''?'') url of
        [] \<Rightarrow> []
      | _ # q \<Rightarrow> if HasPrefix q ''q='' then QueryUnescape (drop 2 q) else [])"

fun url_of :: "http_req \<Rightarrow> string" where
  "url_of (GET url) = url"
| "url_of (POST url body) = url"

fun request_of :: "string \<Rightarrow> http_req \<Rightarrow> string \<times> string \<times> request" where
  "request_of base (GET url) =
     (''GET'', url_path base url, \<lparr>rqBody = None, rqQ = url_query url, rqForwardedFor = []\<rparr>)"
| "request_of base (POST url body) =
     (''POST'', url_path base url, \<lparr>rqBody = Some (wire body), rqQ = url_query url, rqForwardedFor = []\<rparr>)"

record server =
  svWorld :: world
  svFuel :: nat
  svLib :: lib
  svConfig :: config
  svBase :: string
  svFormat :: "int \<Rightarrow> int \<Rightarrow> string"

definition node_step :: "server \<Rightarrow> http_req \<Rightarrow> MemoryStore node \<Rightarrow> response outcome \<times> MemoryStore node" where
  "node_step v r nd =
     (case request_of (svBase v) r of
        (mth, path, rq) \<Rightarrow> run memory_ops (svWorld v) (serve (svFuel v) (svLib v) (svConfig v) mth path rq) nd)"

definition node_after :: "server \<Rightarrow> history \<Rightarrow> MemoryStore node \<Rightarrow> MemoryStore node" where
  "node_after v h nd = foldl (\<lambda>nd r. snd (node_step v r nd)) nd h"

definition node_net :: "server \<Rightarrow> MemoryStore node \<Rightarrow> network" where
  "node_net v nd h r =
     (if HasPrefix (url_of r) (svBase v) then answered (svFormat v) (fst (node_step v r (node_after v h nd)))
      else Fail)"

lemma node_after_simps [simp]:
  "node_after v [] nd = nd"
  "node_after v (h @ [r]) nd = snd (node_step v r (node_after v h nd))"
  by (simp_all add: node_after_def)

text \<open>A search reaches the node as it was asked.\<close>

lemma digit_value_hex: "n < 16 \<Longrightarrow> digit_value (upper_char (hex_char n)) = Some n"
  by (auto simp: digit_value_def hex_char_def upper_char_def lower_char_def)

lemma QueryUnescape_Escape: "QueryUnescape (QueryEscape s) = s"
proof (induction s)
  case (Cons c s)
  have byte: "char_of (16 * (byte c div 16) + byte c mod 16) = c" by simp
  have hex: "digit_value (upper_char (hex_char (byte c div 16))) = Some (byte c div 16)"
    "digit_value (upper_char (hex_char (byte c mod 16))) = Some (byte c mod 16)"
    using byte_less [of c] by (auto intro!: digit_value_hex)
  have unreserved: "unreserved c \<Longrightarrow> c \<noteq> CHR ''%'' \<and> c \<noteq> CHR ''+''" by (auto simp: unreserved_def byte_def)
  show ?case
    using Cons.IH unreserved by (auto simp: QueryEscape_def fmt_x_def hex byte)
qed (simp add: QueryEscape_def)

section \<open>Routes\<close>

lemma Split_none: "sep \<notin> set s \<Longrightarrow> Split sep s = [s]"
  by (induction s) auto

lemma Split_at: "sep \<notin> set s \<Longrightarrow> Split sep (s @ sep # t) = s # Split sep t"
  by (induction s) auto

definition segment :: "string \<Rightarrow> bool" where
  "segment s \<longleftrightarrow> s \<noteq> [] \<and> CHR ''/'' \<notin> set s \<and> CHR ''?'' \<notin> set s"

lemma serve_block_routes:
  assumes "segment fp"
  shows "serve n L cfg ''GET'' (''/block/'' @ fp) rq = handleGetBlock fp"
    "serve n L cfg ''POST'' (''/block/'' @ fp @ ''/sign'') rq = handleSignBlock L fp rq"
    "serve n L cfg ''POST'' (''/block/'' @ fp @ ''/revoke'') rq = handleRevokeBlock L fp rq"
  using assms Split_none [of "CHR ''/''" fp] Split_at [of "CHR ''/''" fp "''sign''"] Split_at [of "CHR ''/''" fp "''revoke''"]
  by (simp_all add: serve_def NewRouter_def segment_def)

lemma url_paths:
  assumes "CHR ''?'' \<notin> set p" shows "url_path base (base @ p) = p"
proof -
  have "takeWhile (\<lambda>c. c \<noteq> CHR ''?'') p = p" using assms by (auto simp: takeWhile_eq_all_conv)
  then show ?thesis by (simp add: url_path_def)
qed

section \<open>The handlers on the bodies of the client\<close>

text \<open>A timestamp that a \<open>float64\<close> carries, and what the node reads of the bodies.\<close>

definition exact :: "int64 \<Rightarrow> bool" where
  "exact ts \<longleftrightarrow> \<bar>sint ts\<bar> < 2 ^ 53"

lemma exact_float: "exact ts \<Longrightarrow> float_of_int (sint ts) = AFloat (sint ts) 0 \<and> float_to_int64 L (sint ts) 0 = ts"
  using toInt64_wire [of ts L] by (auto simp: exact_def float_of_int_exact)

lemma body_keys:
  "utf8_fix ''signer_fingerprint'' = ''signer_fingerprint''" "utf8_fix ''sig'' = ''sig''"
  "utf8_fix ''timestamp'' = ''timestamp''" "utf8_fix ''armored_key'' = ''armored_key''"
  "utf8_fix ''self_sig'' = ''self_sig''" "utf8_fix ''submit_timestamp'' = ''submit_timestamp''"
  by (rule utf8_fix_ascii, simp add: ascii_def byte_def)+

lemma body_wire:
  assumes "ascii sig"
  shows "wire (AObj [(''sig'', AStr sig)]) = AObj [(''sig'', AStr sig)]"
    "ascii signer \<Longrightarrow> exact ts \<Longrightarrow> wire (AObj (sign_body signer sig ts)) =
       AObj [(''signer_fingerprint'', AStr signer), (''sig'', AStr sig), (''timestamp'', AFloat (sint ts) 0)]"
    "ascii key \<Longrightarrow> exact ts \<Longrightarrow> wire (add_body key sig ts) =
       AObj [(''armored_key'', AStr key), (''self_sig'', AStr sig), (''submit_timestamp'', AFloat (sint ts) 0)]"
  unfolding sign_body_def add_body_def wire.simps list.map prod.case body_keys utf8_fix_ascii [OF assms]
  by (simp_all only: utf8_fix_ascii exact_float)

definition new_entry :: "lib \<Rightarrow> Block \<Rightarrow> string \<Rightarrow> string \<Rightarrow> int64 \<Rightarrow> SigEntry" where
  "new_entry L b signer sig ts =
     (let prev = (if bSigChainHead b = [] then bHash b else bSigChainHead b) in
      \<lparr>seHash = ComputeSigEntryHash (Sum256 L) prev signer sig ts, sePrevHash = prev, seSigner = signer,
       seSig = sig, seTimestamp = ts, seSignerKey = [], seSourceNode = []\<rparr>)"

definition posted :: "any \<Rightarrow> request" where
  "posted body = \<lparr>rqBody = Some (wire body), rqQ = [], rqForwardedFor = []\<rparr>"

lemma run_add_posted:
  assumes "ascii key" "ascii sig" "exact ts" "key \<noteq> []" "sig \<noteq> []"
    and "ParseArmoredKey L key = Inr (fp, uids)" and "CheckKeyStrength L key = None"
    and "ExtractEmailDomains L uids \<noteq> []"
    and "cAllowAll cfg \<or> api_domainAllowed (ExtractEmailDomains L uids) (cDomains cfg)"
    and "VerifyDetachedSig L (nClock nd) (SubmitPayload L fp key ts) sig key" and "mget (nStore nd) fp = None"
  shows "run memory_ops w (handleAddBlock L cfg (posted (add_body key sig ts))) nd =
    (Done (Response 201 (blockToMap (make_block L fp key uids ts sig))),
     nd\<lparr>nStore := mset_key fp (make_block L fp key uids ts sig) (nStore nd),
        nGos := nGos nd @ [GossipBlockT (make_block L fp key uids ts sig) []]\<rparr>)"
proof -
  have body: "decodeBody (posted (add_body key sig ts)) h =
      h [(''armored_key'', AStr key), (''self_sig'', AStr sig), (''submit_timestamp'', AFloat (sint ts) 0)]" for h
    using body_wire(3) [OF assms(2,1,3)] by (simp add: decodeBody_def posted_def)
  have t: "request_time L [(''armored_key'', AStr key), (''self_sig'', AStr sig), (''submit_timestamp'', AFloat (sint ts) 0)]
      ''submit_timestamp'' clock = ts" for clock
    using exact_float [OF assms(3)] by (simp add: request_time_def getInt64_def)
  have fp: "bFingerprint (make_block L fp key uids ts sig) = fp" by (simp add: make_block_def)
  show ?thesis using assms(4-) unfolding handleAddBlock_def body
    by (auto simp: getString_def Let_def t mem_defs fp)
qed

lemma run_sign_posted:
  assumes "ascii signer" "ascii sig" "exact ts" "signer \<noteq> []" "sig \<noteq> []"
    and "mget (nStore nd) fp = Some b" and "\<not> bRevoked b" and "mget (nStore nd) signer = Some sb"
    and "signer \<notin> seSigner ` set (bSigEntries b)"
    and "VerifyDetachedSig L (nClock nd) (TrustPayload (bHash b) signer ts) sig (bArmoredKey sb)"
  shows "run memory_ops w (handleSignBlock L fp (posted (AObj (sign_body signer sig ts)))) nd =
    (Done (Response 200 (blockToMap (with_entry b (new_entry L b signer sig ts)))),
     nd\<lparr>nStore := mset_key fp (with_entry b (new_entry L b signer sig ts)) (nStore nd),
        nGos := nGos nd @ [GossipSigT fp (new_entry L b signer sig ts) []]\<rparr>)"
proof -
  define body where "body = [(''signer_fingerprint'', AStr signer), (''sig'', AStr sig), (''timestamp'', AFloat (sint ts) 0)]"
  have dec: "decodeBody (posted (AObj (sign_body signer sig ts))) h = h body" for h
    using body_wire(2) [OF assms(2,1,3)] by (simp add: decodeBody_def posted_def body_def)
  have get: "getString body ''signer_fingerprint'' = signer" "getString body ''sig'' = sig"
    "getString body ''signer_armored_key'' = []" "getString body ''source_node'' = []"
    by (simp_all add: body_def getString_def)
  have t: "request_time L body ''timestamp'' clock = ts" for clock
    using exact_float [OF assms(3)] by (simp add: request_time_def getInt64_def body_def)
  have new: "\<not> list_ex (\<lambda>e. seSigner e = signer) (bSigEntries b)" using assms(9) by (auto simp: list_ex_iff)
  define e where "e = new_entry L b signer sig ts"
  have e: "\<lparr>seHash = ComputeSigEntryHash (Sum256 L) (if bSigChainHead b = [] then bHash b else bSigChainHead b) signer sig ts,
      sePrevHash = (if bSigChainHead b = [] then bHash b else bSigChainHead b), seSigner = signer, seSig = sig,
      seTimestamp = ts, seSignerKey = [], seSourceNode = []\<rparr> = e"
    by (simp add: e_def new_entry_def Let_def)
  have "run memory_ops w (sign_with_key L fp b body ts (bArmoredKey sb)) nd =
    (Done (Response 200 (blockToMap (with_entry b e))),
     nd\<lparr>nStore := mset_key fp (with_entry b e) (nStore nd), nGos := nGos nd @ [GossipSigT fp e []]\<rparr>)"
    using assms(6,10) new by (simp add: sign_with_key_def Let_def get e mem_defs respond_updated_def with_entry_def)
  then show ?thesis using assms(4-8) unfolding handleSignBlock_def dec
    by (simp add: get Let_def t mem_defs flip: e_def)
qed

lemma run_revoke_posted:
  assumes "ascii sig" "sig \<noteq> []" "mget (nStore nd) fp = Some b" "\<not> bRevoked b"
    and "VerifyDetachedSig L (nClock nd) (RevokePayload fp (bHash b)) sig (bArmoredKey b)"
  shows "run memory_ops w (handleRevokeBlock L fp (posted (AObj [(''sig'', AStr sig)]))) nd =
    (Done (Response 200 (blockToMap (revoked_block b sig))),
     nd\<lparr>nStore := mset_key fp (revoked_block b sig) (nStore nd), nGos := nGos nd @ [GossipRevokeT fp sig []]\<rparr>)"
proof -
  have dec: "decodeBody (posted (AObj [(''sig'', AStr sig)])) h = h [(''sig'', AStr sig)]" for h
    using body_wire(1) [OF assms(1)] by (simp add: decodeBody_def posted_def)
  show ?thesis using assms(2-) unfolding handleRevokeBlock_def dec
    by (simp add: getString_def Let_def mem_defs respond_updated_def revoked_block_def)
qed

section \<open>The commands against the node\<close>

text \<open>The client reaches the node; a payload that is signed is accepted under the key.\<close>

definition connected :: "client_env \<Rightarrow> server \<Rightarrow> MemoryStore node \<Rightarrow> flagset \<Rightarrow> bool" where
  "connected E v nd fs \<longleftrightarrow>
     ceNet E = node_net v nd \<and> TrimRightSlash (sflag fs ''server'') = svBase v \<and> CHR ''?'' \<notin> set (svBase v)"

definition signs :: "lib \<Rightarrow> int \<Rightarrow> int \<Rightarrow> string \<Rightarrow> string \<Rightarrow> string \<Rightarrow> string \<Rightarrow> bool" where
  "signs L t clock priv key payload sig \<longleftrightarrow>
     Sign L t payload priv = Inr sig \<and> sig \<noteq> [] \<and> VerifyDetachedSig L clock payload sig key"

lemma signs_ascii: "signs L t clock priv key payload sig \<Longrightarrow> ascii sig"
  by (auto simp: signs_def Sign_def ascii_EncodeToString split: sum.splits)

lemma url_query_none: "CHR ''?'' \<notin> set url \<Longrightarrow> url_query url = []"
proof -
  assume "CHR ''?'' \<notin> set url"
  then have d: "dropWhile (\<lambda>c. c \<noteq> CHR ''?'') url = []" by (auto simp: dropWhile_eq_Nil_conv)
  show ?thesis by (simp only: url_query_def d list.case)
qed

lemma HasPrefix_append [simp]: "HasPrefix (p @ s) p"
  by (auto simp: HasPrefix_iff)

lemma node_step_post:
  assumes "CHR ''?'' \<notin> set (svBase v)" and "CHR ''?'' \<notin> set p"
  shows "node_step v (POST (svBase v @ p) body) nd =
    run memory_ops (svWorld v) (serve (svFuel v) (svLib v) (svConfig v) ''POST'' p (posted body)) nd"
  using url_paths [OF assms(2), of "svBase v"] url_query_none [of "svBase v @ p"] assms
  by (simp add: node_step_def posted_def)

lemma httpDo_node:
  assumes "ceNet E = node_net v nd" and "CHR ''?'' \<notin> set (svBase v)" and "CHR ''?'' \<notin> set p"
    and "run memory_ops (svWorld v) (serve (svFuel v) (svLib v) (svConfig v) ''POST'' p (posted body)) (node_after v (ssHist s) nd)
      = (Done (Response status res), nd')"
  shows "\<exists>m. httpDo E (svBase v @ p) body k s = k (Inr (m, status)) (s\<lparr>ssHist := ssHist s @ [POST (svBase v @ p) body]\<rparr>)"
    and "node_after v (ssHist s @ [POST (svBase v @ p) body]) nd = nd'"
  using assms(1,4) node_step_post [OF assms(2,3), of body]
  by (auto simp: httpDo_def http_def node_net_def answered_def)

text \<open>Asking the node for the hash of a block leaves it as it is.\<close>

lemma fetch_hash_node:
  assumes "ceNet E = node_net v nd" and "segment fp"
    and "mget (nStore (node_after v (ssHist s) nd)) fp = Some b" and "bHash b \<noteq> []" and "utf8_fix (bHash b) = bHash b"
  shows "fetch_hash E (svBase v @ ''/block/'' @ fp) k s =
      k (bHash b) (s\<lparr>ssHist := ssHist s @ [GET (svBase v @ ''/block/'' @ fp)]\<rparr>)"
    and "node_after v (ssHist s @ [GET (svBase v @ ''/block/'' @ fp)]) nd = node_after v (ssHist s) nd"
proof -
  have path: "url_path (svBase v) (svBase v @ ''/block/'' @ fp) = ''/block/'' @ fp"
    using assms(2) by (intro url_paths) (simp add: segment_def)
  have step: "node_step v (GET (svBase v @ ''/block/'' @ fp)) (node_after v (ssHist s) nd) =
      (Done (Response 200 (blockToMap b)), node_after v (ssHist s) nd)"
    using assms(3) by (simp add: node_step_def path serve_block_routes(1) [OF assms(2)] handleGetBlock_def mem_defs writeJSON_def
        del: append.simps)
  then show "node_after v (ssHist s @ [GET (svBase v @ ''/block/'' @ fp)]) nd = node_after v (ssHist s) nd" by simp
  have "ceNet E (ssHist s) (GET (svBase v @ ''/block/'' @ fp)) = Answer 200 (Some (encode (svFormat v) (blockToMap b)))"
    using step by (simp add: assms(1) node_net_def answered_def)
  moreover obtain m where "decode_any (ceParseFloat E) (encode (svFormat v) (blockToMap b)) = AObj m"
    "getString m ''hash'' = bHash b"
  proof -
    have "utf8_fix ''hash'' = ''hash''" by (rule utf8_fix_ascii) (simp add: ascii_def byte_def)
    then show ?thesis using that assms(5) unfolding blockToMap_def encode.simps list.map prod.case
      by (simp add: getString_def)
  qed
  ultimately show "fetch_hash E (svBase v @ ''/block/'' @ fp) k s =
      k (bHash b) (s\<lparr>ssHist := ssHist s @ [GET (svBase v @ ''/block/'' @ fp)]\<rparr>)"
    using assms(4) by (simp add: fetch_hash_def httpGet_def http_def unmarshal_map_def Let_def)
qed

lemma now_sign_steady:
  assumes "steady E t"
  shows "\<exists>s'. now_unix E (\<lambda>ts. sign L E (P ts) priv (k ts)) s = k (Unix t) (Sign L t (P (Unix t)) priv) s' \<and> ssHist s' = ssHist s"
    "\<exists>s'. sign L E payload priv k' s = k' (Sign L t payload priv) s' \<and> ssHist s' = ssHist s"
  using assms [unfolded steady_def]
  by (intro exI [of _ "s\<lparr>ssTicks := Suc (Suc (ssTicks s))\<rparr>"] exI [of _ "s\<lparr>ssTicks := Suc (ssTicks s)\<rparr>"],
      simp add: now_unix_def sign_def)+

text \<open>A client with the keys \<open>A\<close> and \<open>B\<close> in files, and a sample node it talks to.\<close>

definition sample_server :: server where
  "sample_server = \<lparr>svWorld = sample_world, svFuel = 0, svLib = sample_lib, svConfig = sample_config,
     svBase = ''http://localhost:8080'', svFormat = (\<lambda>m e. fmt_d m)\<rparr>"

definition sample_client :: "MemoryStore node \<Rightarrow> client_env" where
  "sample_client nd = (client_of (node_net sample_server nd))
     \<lparr>ceFile := (\<lambda>path. if path = ''a.asc'' then Some ''A'' else if path = ''b.asc'' then Some ''B'' else None)\<rparr>"

definition sample_ledger_node :: "MemoryStore node" where
  "sample_ledger_node = (node0 NewMemoryStore)
     \<lparr>nStore := [(''41'', sample_key_block ''A''), (''42'', sample_key_block ''B'')]\<rparr>"

lemma sample_server_simps [simp]:
  "svLib sample_server = sample_lib" "svConfig sample_server = sample_config" "svBase sample_server = ''http://localhost:8080''"
  by (simp_all add: sample_server_def)

lemma sample_client_simps [simp]:
  "steady (sample_client nd) 0" "exact (Unix 0)" "ceFile (sample_client nd) ''a.asc'' = Some ''A''"
  "ceFile (sample_client nd) ''b.asc'' = Some ''B''" "ceNet (sample_client nd) = node_net sample_server nd"
  "server_flag (sample_client nd) = (''server'', VString ''http://localhost:8080'')"
  "keyid_flag (sample_client nd) = (''keyid'', VString [])" "envOr (sample_client nd) x [] = []"
  by (simp_all add: sample_client_def client_of_def steady_def exact_def Unix_def server_flag_def keyid_flag_def envOr_def)

lemma sample_ledger_node_simps [simp]:
  "nClock sample_ledger_node = 0" "mget (nStore sample_ledger_node) ''41'' = Some (sample_key_block ''A'')"
  "mget (nStore sample_ledger_node) ''42'' = Some (sample_key_block ''B'')"
  by (simp_all add: sample_ledger_node_def mget_def)

lemma sample_block_simps:
  "bArmoredKey (sample_key_block key) = key" "bSigEntries (sample_key_block key) = []" "\<not> bRevoked (sample_key_block key)"
  "ascii (bHash (sample_key_block key))" "bHash (sample_key_block key) \<noteq> []"
  by (simp_all add: sample_key_block_def make_block_def ComputeBlockHash_def ascii_hash)
    (simp add: hexSHA256_def sample_lib_def joinFields_def fmt_x_def)

lemma sample_signs: "key \<noteq> [] \<Longrightarrow> signs sample_lib t clock key key payload (EncodeToString (key @ payload))"
  by (simp add: signs_def sample_verify EncodeToString_nonempty) (simp add: Sign_def sample_lib_def)

text \<open>
  C25.  Publishing a key.  When the files can be read, the node admits the key and does not have
  it yet, and the signature that the private key makes verifies under the public key,
  \<open>gpgchain add\<close> exits with 0, and the node then holds the block of the key: its fingerprint,
  the key, the time of the client's clock and the signature made.  (The key is ASCII, the time
  one that a \<open>float64\<close> carries.)
\<close>

theorem add_published:
  assumes "Parse [(''key'', VString []), (''privkey'', VString []), server_flag E] args = Inr (fs, rest)"
    and "connected E v nd fs" and "steady E t" and "exact (Unix t)" and "ssHist s = []"
    and "sflag fs ''key'' \<noteq> []" "ceFile E (sflag fs ''key'') = Some key" "ascii key" "key \<noteq> []"
    and "sflag fs ''privkey'' \<noteq> []" "ceFile E (sflag fs ''privkey'') = Some priv"
    and "ParseArmoredKey (svLib v) key = Inr (fp, uids)" and "CheckKeyStrength (svLib v) key = None"
    and "ExtractEmailDomains (svLib v) uids \<noteq> []"
    and "cAllowAll (svConfig v) \<or> api_domainAllowed (ExtractEmailDomains (svLib v) uids) (cDomains (svConfig v))"
    and "signs (svLib v) t (nClock nd) priv key (SubmitPayload (svLib v) fp key (Unix t)) sig"
    and "mget (nStore nd) fp = None"
  shows "\<exists>s'. cmdAdd (svLib v) E args s = (Exit 0, s') \<and>
    mget (nStore (node_after v (ssHist s') nd)) fp = Some (make_block (svLib v) fp key uids (Unix t) sig)"
proof -
  define body where "body = add_body key sig (Unix t)"
  define k :: "string + (string, any) gomap \<times> int \<Rightarrow> cmd" where "k = (\<lambda>r. case r of
      Inl err \<Rightarrow> die
    | Inr (result, status) \<Rightarrow> if status \<noteq> 201 then die else println (''Added block: '' @ fp) (os_exit 0))"
  define on_signed :: "int64 \<Rightarrow> string result \<Rightarrow> cmd" where "on_signed = (\<lambda>ts signed. case signed of
      Inl err \<Rightarrow> die
    | Inr selfSig \<Rightarrow> httpDo E (svBase v @ ''/block'') (add_body key selfSig ts) k)"
  have net: "ceNet E = node_net v nd" "CHR ''?'' \<notin> set (svBase v)" "TrimRightSlash (sflag fs ''server'') = svBase v"
    using assms(2) by (simp_all add: connected_def)
  have run: "cmdAdd (svLib v) E args s =
      now_unix E (\<lambda>ts. sign (svLib v) E (SubmitPayload (svLib v) fp key ts) priv (on_signed ts)) s"
    using assms(1,6,7,10,11,12) net(3) unfolding on_signed_def k_def
    by (simp add: cmdAdd_def parse_flags_def readFile_def)
  obtain s1 where s1: "cmdAdd (svLib v) E args s =
      on_signed (Unix t) (Sign (svLib v) t (SubmitPayload (svLib v) fp key (Unix t)) priv) s1" "ssHist s1 = []"
    unfolding run using now_sign_steady(1) [OF assms(3)] assms(5) by metis
  have sig: "Sign (svLib v) t (SubmitPayload (svLib v) fp key (Unix t)) priv = Inr sig" "sig \<noteq> []" "ascii sig"
    "VerifyDetachedSig (svLib v) (nClock nd) (SubmitPayload (svLib v) fp key (Unix t)) sig key"
    using assms(16) signs_ascii by (auto simp: signs_def)
  define nd' where "nd' = nd\<lparr>nStore := mset_key fp (make_block (svLib v) fp key uids (Unix t) sig) (nStore nd),
    nGos := nGos nd @ [GossipBlockT (make_block (svLib v) fp key uids (Unix t) sig) []]\<rparr>"
  have served: "run memory_ops (svWorld v) (serve (svFuel v) (svLib v) (svConfig v) ''POST'' ''/block'' (posted body)) (node_after v (ssHist s1) nd) =
      (Done (Response 201 (blockToMap (make_block (svLib v) fp key uids (Unix t) sig))), nd')"
    unfolding serve_add_block body_def nd'_def s1(2) node_after_simps
    by (rule run_add_posted) (use assms sig in auto)
  note post = httpDo_node [OF net(1,2) _ served]
  obtain m where "httpDo E (svBase v @ ''/block'') body k s1 =
      k (Inr (m, 201)) (s1\<lparr>ssHist := ssHist s1 @ [POST (svBase v @ ''/block'') body]\<rparr>)"
    using post(1) by auto
  then have done': "cmdAdd (svLib v) E args s =
      println (''Added block: '' @ fp) (os_exit 0) (s1\<lparr>ssHist := ssHist s1 @ [POST (svBase v @ ''/block'') body]\<rparr>)"
    unfolding s1(1) sig(1) by (simp add: on_signed_def body_def k_def)
  have "node_after v (ssHist s1 @ [POST (svBase v @ ''/block'') body]) nd = nd'" using post(2) by simp
  then show ?thesis unfolding done' by (simp add: println_def os_exit_def nd'_def)
qed

theorem add_published_witness:
  "\<exists>s' c. cmdAdd sample_lib (sample_client (node0 NewMemoryStore)) [''-key'', ''a.asc'', ''-privkey'', ''a.asc''] session0 = (Exit 0, s') \<and>
     mget (nStore (node_after sample_server (ssHist s') (node0 NewMemoryStore))) ''41'' = Some c \<and> bArmoredKey c = ''A''"
proof -
  let ?fs = "[(''key'', VString ''a.asc''), (''privkey'', VString ''a.asc''), (''server'', VString ''http://localhost:8080'')]"
  let ?E = "sample_client (node0 NewMemoryStore)"
  have parse: "Parse [(''key'', VString []), (''privkey'', VString []), (''server'', VString ''http://localhost:8080'')]
      [''-key'', ''a.asc'', ''-privkey'', ''a.asc''] = Inr (?fs, [])" by code_simp
  have conn: "connected ?E sample_server (node0 NewMemoryStore) ?fs"
    by (simp add: connected_def sflag_def mget_Cons)
  have key: "ParseArmoredKey sample_lib ''A'' = Inr (''41'', [''A@example.org''])" "CheckKeyStrength sample_lib ''A'' = None"
    using sample_parse [of "''A''"] by (simp_all add: sample_fp_A)
  have signs: "signs sample_lib 0 0 ''A'' ''A'' payload (EncodeToString (''A'' @ payload))" for payload
    by (rule sample_signs) simp
  show ?thesis
    using add_published [where E = ?E and v = sample_server and nd = "node0 NewMemoryStore" and fs = ?fs and rest = "[]"
        and args = "[''-key'', ''a.asc'', ''-privkey'', ''a.asc'']" and t = 0 and s = session0 and key = "''A''" and priv = "''A''"
        and fp = "''41''" and uids = "[''A@example.org'']"]
      parse conn key signs sample_domains [of "''A''"]
    by (force simp: sflag_def mget_Cons NewMemoryStore_def make_block_def ascii_def byte_def)
qed

text \<open>
  C24.  Signing a key.  When the node holds the block of the target, not revoked and without an
  entry of the signer, and the block of the signer, under whose key the signature made
  verifies, \<open>gpgchain sign\<close> exits with 0, and the chain of the target then ends with an entry
  of the signer, with the client's time and that signature over the hash of the block, linked
  to the head of the chain before.
\<close>

theorem signature_recorded:
  assumes "Parse [(''fingerprint'', VString []), keyid_flag E, (''privkey'', VString []), server_flag E,
      (''signer-key'', VString []), (''source-node'', VString [])] args = Inr (fs, rest)"
    and "connected E v nd fs" and "steady E t" and "exact (Unix t)" and "ssHist s = []"
    and "sflag fs ''fingerprint'' \<noteq> []" and "sflag fs ''keyid'' \<noteq> []"
    and "sflag fs ''signer-key'' = []" and "sflag fs ''source-node'' = []"
    and "sflag fs ''privkey'' \<noteq> []" "ceFile E (sflag fs ''privkey'') = Some priv"
    and "target = ToUpper (svLib v) (sflag fs ''fingerprint'')" and "segment target"
    and "signer = ToUpper (svLib v) (sflag fs ''keyid'')" and "signer \<noteq> []" and "ascii signer"
    and "mget (nStore nd) target = Some b" and "\<not> bRevoked b" and "bHash b \<noteq> []" and "ascii (bHash b)"
    and "mget (nStore nd) signer = Some sb" and "signer \<notin> seSigner ` set (bSigEntries b)"
    and "signs (svLib v) t (nClock nd) priv (bArmoredKey sb) (TrustPayload (bHash b) signer (Unix t)) sig"
  shows "\<exists>s' c e. cmdSign (svLib v) E args s = (Exit 0, s') \<and>
    mget (nStore (node_after v (ssHist s') nd)) target = Some c \<and> bSigEntries c = bSigEntries b @ [e] \<and>
    seSigner e = signer \<and> seSig e = sig \<and> seTimestamp e = Unix t \<and>
    sePrevHash e = (if bSigChainHead b = [] then bHash b else bSigChainHead b) \<and> bSigChainHead c = seHash e"
proof -
  let ?L = "svLib v" and ?url = "svBase v @ ''/block/'' @ target"
  define p where "p = ''/block/'' @ target @ ''/sign''"
  define k :: "string + (string, any) gomap \<times> int \<Rightarrow> cmd" where "k = (\<lambda>r. case r of
      Inl err \<Rightarrow> die
    | Inr (result, status) \<Rightarrow> if status \<noteq> 200 then die
        else println (''Signed block '' @ target @ '' as '' @ signer) (os_exit 0))"
  define on_signed :: "int64 \<Rightarrow> string result \<Rightarrow> cmd" where "on_signed = (\<lambda>ts signed. case signed of
      Inl err \<Rightarrow> die
    | Inr sig \<Rightarrow> httpDo E (svBase v @ p) (AObj (sign_body signer sig ts)) k)"
  define on_hash where "on_hash = (\<lambda>hash. now_unix E (\<lambda>ts. sign ?L E (TrustPayload hash signer ts) priv (on_signed ts)))"
  have net: "ceNet E = node_net v nd" "CHR ''?'' \<notin> set (svBase v)" "TrimRightSlash (sflag fs ''server'') = svBase v"
    using assms(2) by (simp_all add: connected_def)
  have run: "cmdSign ?L E args s = fetch_hash E ?url on_hash s"
    using assms(1,6-11) net(3) unfolding on_hash_def on_signed_def k_def p_def
    by (simp add: cmdSign_def parse_flags_def readFile_def post_signature_def Let_def flip: assms(12,14))
  have hist: "node_after v (ssHist s) nd = nd" using assms(5) by simp
  note fetch = fetch_hash_node [OF net(1) assms(13), where s = s and b = b, unfolded hist, OF assms(17,19) utf8_fix_ascii [OF assms(20)]]
  define s1 where "s1 = s\<lparr>ssHist := ssHist s @ [GET ?url]\<rparr>"
  obtain s2 where s2: "cmdSign ?L E args s = on_signed (Unix t) (Sign ?L t (TrustPayload (bHash b) signer (Unix t)) priv) s2"
    "ssHist s2 = ssHist s1"
    unfolding run fetch(1) on_hash_def s1_def [symmetric] using now_sign_steady(1) [OF assms(3)] by metis
  have after: "node_after v (ssHist s2) nd = nd" using fetch(2) s2(2) by (simp add: s1_def)
  have sig: "Sign ?L t (TrustPayload (bHash b) signer (Unix t)) priv = Inr sig" "sig \<noteq> []" "ascii sig"
    "VerifyDetachedSig ?L (nClock nd) (TrustPayload (bHash b) signer (Unix t)) sig (bArmoredKey sb)"
    using assms(23) signs_ascii by (auto simp: signs_def)
  define e where "e = new_entry ?L b signer sig (Unix t)"
  define body where "body = AObj (sign_body signer sig (Unix t))"
  define nd' where "nd' = nd\<lparr>nStore := mset_key target (with_entry b e) (nStore nd), nGos := nGos nd @ [GossipSigT target e []]\<rparr>"
  have served: "run memory_ops (svWorld v) (serve (svFuel v) ?L (svConfig v) ''POST'' p (posted body)) (node_after v (ssHist s2) nd) =
      (Done (Response 200 (blockToMap (with_entry b e))), nd')"
    unfolding p_def serve_block_routes(2) [OF assms(13)] body_def nd'_def e_def after
    by (rule run_sign_posted) (use assms sig in auto)
  have q: "CHR ''?'' \<notin> set p" using assms(13) by (simp add: p_def segment_def)
  note post = httpDo_node [OF net(1,2) q served]
  obtain m where "httpDo E (svBase v @ p) body k s2 = k (Inr (m, 200)) (s2\<lparr>ssHist := ssHist s2 @ [POST (svBase v @ p) body]\<rparr>)"
    using post(1) by auto
  then have done': "cmdSign ?L E args s = println (''Signed block '' @ target @ '' as '' @ signer) (os_exit 0)
      (s2\<lparr>ssHist := ssHist s2 @ [POST (svBase v @ p) body]\<rparr>)"
    unfolding s2(1) sig(1) by (simp add: on_signed_def body_def k_def)
  have "mget (nStore nd') target = Some (with_entry b e)" by (simp add: nd'_def)
  then show ?thesis unfolding done' using post(2)
    by (simp add: println_def os_exit_def with_entry_def) (simp add: e_def new_entry_def Let_def)
qed

theorem signature_recorded_witness:
  "\<exists>s' c e. cmdSign sample_lib (sample_client sample_ledger_node)
       [''-fingerprint'', ''41'', ''-keyid'', ''42'', ''-privkey'', ''b.asc''] session0 = (Exit 0, s') \<and>
     mget (nStore (node_after sample_server (ssHist s') sample_ledger_node)) ''41'' = Some c \<and>
     bSigEntries c = [e] \<and> seSigner e = ''42''"
proof -
  let ?fs = "[(''fingerprint'', VString ''41''), (''keyid'', VString ''42''), (''privkey'', VString ''b.asc''),
      (''server'', VString ''http://localhost:8080''), (''signer-key'', VString []), (''source-node'', VString [])]"
  let ?E = "sample_client sample_ledger_node"
  have parse: "Parse [(''fingerprint'', VString []), (''keyid'', VString []), (''privkey'', VString []),
      (''server'', VString ''http://localhost:8080''), (''signer-key'', VString []), (''source-node'', VString [])]
      [''-fingerprint'', ''41'', ''-keyid'', ''42'', ''-privkey'', ''b.asc''] = Inr (?fs, [])" by code_simp
  have conn: "connected ?E sample_server sample_ledger_node ?fs"
    by (simp add: connected_def sflag_def mget_Cons)
  have up: "ToUpper sample_lib ''41'' = ''41''" "ToUpper sample_lib ''42'' = ''42''" by code_simp+
  have signs: "signs sample_lib 0 0 ''B'' ''B'' payload (EncodeToString (''B'' @ payload))" for payload
    by (rule sample_signs) simp
  have ascii: "ascii ''42''" by (simp add: ascii_def byte_def)
  let ?b = "sample_key_block ''A''" and ?args = "[''-fingerprint'', ''41'', ''-keyid'', ''42'', ''-privkey'', ''b.asc'']"
  have "\<exists>s' c e. cmdSign (svLib sample_server) ?E ?args session0 = (Exit 0, s') \<and>
    mget (nStore (node_after sample_server (ssHist s') sample_ledger_node)) ''41'' = Some c \<and>
    bSigEntries c = bSigEntries ?b @ [e] \<and> seSigner e = ''42'' \<and>
    seSig e = EncodeToString (''B'' @ TrustPayload (bHash ?b) ''42'' (Unix 0)) \<and> seTimestamp e = Unix 0 \<and>
    sePrevHash e = (if bSigChainHead ?b = [] then bHash ?b else bSigChainHead ?b) \<and> bSigChainHead c = seHash e"
    by (rule signature_recorded [where fs = ?fs and rest = "[]" and priv = "''B''" and sb = "sample_key_block ''B''"])
      (use parse conn up signs ascii in \<open>simp_all add: sflag_def mget_Cons segment_def sample_block_simps\<close>)
  then show ?thesis by (auto simp: sample_block_simps)
qed

text \<open>
  C26.  Revoking a key.  When the node holds the block of the target, not revoked, and the
  signature made verifies under its key, \<open>gpgchain revoke\<close> exits with 0, and in the ledger of
  the node this block is then revoked with that signature: nothing else about it changes, and
  no other block does, appears or disappears.
\<close>

theorem revocation_recorded:
  assumes "Parse [(''fingerprint'', VString (envOr E ''GPGCHAIN_KEYID'' [])), keyid_flag E,
      (''privkey'', VString []), server_flag E] args = Inr (fs, rest)"
    and "connected E v nd fs" and "steady E t" and "ssHist s = []"
    and "own = (if sflag fs ''fingerprint'' = [] then sflag fs ''keyid'' else sflag fs ''fingerprint'')" and "own \<noteq> []"
    and "sflag fs ''privkey'' \<noteq> []" "ceFile E (sflag fs ''privkey'') = Some priv"
    and "target = ToUpper (svLib v) own" and "segment target"
    and "mget (nStore nd) target = Some b" and "\<not> bRevoked b" and "bHash b \<noteq> []" and "ascii (bHash b)"
    and "signs (svLib v) t (nClock nd) priv (bArmoredKey b) (RevokePayload target (bHash b)) sig"
  shows "\<exists>s'. cmdRevoke (svLib v) E args s = (Exit 0, s') \<and>
    mget (nStore (node_after v (ssHist s') nd)) =
      (mget (nStore nd))(target \<mapsto> b\<lparr>bRevoked := True, bRevocationSig := sig\<rparr>)"
proof -
  let ?L = "svLib v" and ?url = "svBase v @ ''/block/'' @ target"
  define p where "p = ''/block/'' @ target @ ''/revoke''"
  define k :: "string + (string, any) gomap \<times> int \<Rightarrow> cmd" where "k = (\<lambda>r. case r of
      Inl err \<Rightarrow> die
    | Inr (result, status) \<Rightarrow> if status \<noteq> 200 then die else println (''Revoked block '' @ target) (os_exit 0))"
  define on_signed :: "string result \<Rightarrow> cmd" where "on_signed = (\<lambda>signed. case signed of
      Inl err \<Rightarrow> die
    | Inr sig \<Rightarrow> httpDo E (svBase v @ p) (AObj [(''sig'', AStr sig)]) k)"
  define on_hash where "on_hash = (\<lambda>hash. sign ?L E (RevokePayload target hash) priv on_signed)"
  have net: "ceNet E = node_net v nd" "CHR ''?'' \<notin> set (svBase v)" "TrimRightSlash (sflag fs ''server'') = svBase v"
    using assms(2) by (simp_all add: connected_def)
  have run: "cmdRevoke ?L E args s = fetch_hash E ?url on_hash s"
    using assms(1,6-8) net(3) unfolding on_hash_def on_signed_def k_def p_def
    by (simp add: cmdRevoke_def parse_flags_def readFile_def Let_def flip: assms(5,9))
  have hist: "node_after v (ssHist s) nd = nd" using assms(4) by simp
  note fetch = fetch_hash_node [OF net(1) assms(10), where s = s and b = b, unfolded hist, OF assms(11,13) utf8_fix_ascii [OF assms(14)]]
  define s1 where "s1 = s\<lparr>ssHist := ssHist s @ [GET ?url]\<rparr>"
  obtain s2 where s2: "cmdRevoke ?L E args s = on_signed (Sign ?L t (RevokePayload target (bHash b)) priv) s2"
    "ssHist s2 = ssHist s1"
    unfolding run fetch(1) on_hash_def s1_def [symmetric] using now_sign_steady(2) [OF assms(3)] by metis
  have after: "node_after v (ssHist s2) nd = nd" using fetch(2) s2(2) by (simp add: s1_def)
  have sig: "Sign ?L t (RevokePayload target (bHash b)) priv = Inr sig" "sig \<noteq> []" "ascii sig"
    "VerifyDetachedSig ?L (nClock nd) (RevokePayload target (bHash b)) sig (bArmoredKey b)"
    using assms(15) signs_ascii by (auto simp: signs_def)
  define body where "body = AObj [(''sig'', AStr sig)]"
  define nd' where "nd' = nd\<lparr>nStore := mset_key target (revoked_block b sig) (nStore nd), nGos := nGos nd @ [GossipRevokeT target sig []]\<rparr>"
  have served: "run memory_ops (svWorld v) (serve (svFuel v) ?L (svConfig v) ''POST'' p (posted body)) (node_after v (ssHist s2) nd) =
      (Done (Response 200 (blockToMap (revoked_block b sig))), nd')"
    unfolding p_def serve_block_routes(3) [OF assms(10)] body_def nd'_def after
    by (rule run_revoke_posted) (use assms sig in auto)
  have q: "CHR ''?'' \<notin> set p" using assms(10) by (simp add: p_def segment_def)
  note post = httpDo_node [OF net(1,2) q served]
  obtain m where "httpDo E (svBase v @ p) body k s2 = k (Inr (m, 200)) (s2\<lparr>ssHist := ssHist s2 @ [POST (svBase v @ p) body]\<rparr>)"
    using post(1) by auto
  then have done': "cmdRevoke ?L E args s = println (''Revoked block '' @ target) (os_exit 0)
      (s2\<lparr>ssHist := ssHist s2 @ [POST (svBase v @ p) body]\<rparr>)"
    unfolding s2(1) sig(1) by (simp add: on_signed_def body_def k_def)
  have "mget (nStore nd') = (mget (nStore nd))(target \<mapsto> revoked_block b sig)" by (simp add: nd'_def fun_eq_iff)
  then show ?thesis unfolding done' using post(2)
    by (simp add: println_def os_exit_def revoked_block_def)
qed

theorem revocation_recorded_witness:
  "\<exists>s' sig. cmdRevoke sample_lib (sample_client sample_ledger_node)
       [''-fingerprint'', ''41'', ''-privkey'', ''a.asc''] session0 = (Exit 0, s') \<and>
     mget (nStore (node_after sample_server (ssHist s') sample_ledger_node)) =
       (mget (nStore sample_ledger_node))(''41'' \<mapsto> sample_key_block ''A''\<lparr>bRevoked := True, bRevocationSig := sig\<rparr>)"
proof -
  let ?fs = "[(''fingerprint'', VString ''41''), (''keyid'', VString []), (''privkey'', VString ''a.asc''),
      (''server'', VString ''http://localhost:8080'')]"
  let ?E = "sample_client sample_ledger_node"
  have parse: "Parse [(''fingerprint'', VString []), (''keyid'', VString []), (''privkey'', VString []),
      (''server'', VString ''http://localhost:8080'')]
      [''-fingerprint'', ''41'', ''-privkey'', ''a.asc''] = Inr (?fs, [])" by code_simp
  have conn: "connected ?E sample_server sample_ledger_node ?fs"
    by (simp add: connected_def sflag_def mget_Cons)
  have up: "ToUpper sample_lib ''41'' = ''41''" by code_simp
  have signs: "signs sample_lib 0 0 ''A'' ''A'' payload (EncodeToString (''A'' @ payload))" for payload
    by (rule sample_signs) simp
  show ?thesis
    using revocation_recorded [where E = ?E and v = sample_server and nd = sample_ledger_node and fs = ?fs and rest = "[]"
        and args = "[''-fingerprint'', ''41'', ''-privkey'', ''a.asc'']" and t = 0 and s = session0
        and priv = "''A''" and target = "''41''" and b = "sample_key_block ''A''" and own = "''41''"]
      parse conn up signs
    by (force simp: sflag_def mget_Cons segment_def sample_block_simps)
qed

end
