(* ===== verification/Pair.thy ===== *)
theory Pair
  imports Sync Together
begin

text \<open>
  Two nodes: one syncs with the other, then what it has posted is delivered.  Afterwards each holds
  every key that either held.
\<close>

section \<open>The other node as the network\<close>

definition reply_of :: "response outcome \<Rightarrow> reply" where
  "reply_of r = (case r of Done (Response st v) \<Rightarrow> Reply st (Some (wire v)) | _ \<Rightarrow> Unreachable)"

definition peer_world :: "server \<Rightarrow> MemoryStore node \<Rightarrow> world" where
  "peer_world v nd = (svWorld v)\<lparr>wGet := (\<lambda>url.
     if HasPrefix url (svBase v) then reply_of (fst (node_step v (GET url) nd)) else Unreachable)\<rparr>"

definition deliver_one :: "server \<Rightarrow> task \<Rightarrow> MemoryStore node \<Rightarrow> MemoryStore node" where
  "deliver_one v t nd =
     (case t of
        PostJSONT url body \<Rightarrow> if HasPrefix url (svBase v) then snd (node_step v (POST url body) nd) else nd
      | _ \<Rightarrow> nd)"

definition deliver :: "server \<Rightarrow> task list \<Rightarrow> MemoryStore node \<Rightarrow> MemoryStore node" where
  "deliver v ts nd = foldl (\<lambda>nd t. deliver_one v t nd) nd ts"

text \<open>A block that another node accepts and that the encoding on the way does not change.\<close>

definition portable :: "lib \<Rightarrow> config \<Rightarrow> int \<Rightarrow> Block \<Rightarrow> bool" where
  "portable L cfg now b \<longleftrightarrow>
     block_valid L cfg b \<and> segment (bFingerprint b) \<and> ascii (bFingerprint b) \<and>
     bArmoredKey b \<noteq> [] \<and> ascii (bArmoredKey b) \<and> bSelfSig b \<noteq> [] \<and> ascii (bSelfSig b) \<and>
     exact (bSubmitTimestamp b) \<and>
     VerifyDetachedSig L now (SubmitPayload L (bFingerprint b) (bArmoredKey b) (bSubmitTimestamp b))
       (bSelfSig b) (bArmoredKey b)"

lemma portable_core: "core b' = core b \<Longrightarrow> portable L cfg now b' = portable L cfg now b"
  using block_valid_core [of b' b L cfg] by (simp add: portable_def)

lemma portable_hash: "portable L cfg now b \<Longrightarrow> ascii (bHash b)"
  by (simp add: portable_def block_valid_def block_hash_ok_def ComputeBlockHash_def ascii_hash)

section \<open>What it serves\<close>

definition armored_of :: "any \<Rightarrow> string" where
  "armored_of v = (case decode_map (Some (wire v)) of None \<Rightarrow> [] | Some d \<Rightarrow> getString d ''armored_key'')"

lemma literal_keys:
  "utf8_fix ''error'' = ''error''" "utf8_fix ''node_url'' = ''node_url''" "utf8_fix ''domains'' = ''domains''"
  "utf8_fix ''allow_all'' = ''allow_all''" "utf8_fix ''peers'' = ''peers''" "utf8_fix ''peer_nodes'' = ''peer_nodes''"
  by (rule utf8_fix_ascii, simp add: ascii_def byte_def)+

lemma dispatch_induct:
  assumes "\<And>st. P (writeJSON st ANil)"
  shows "\<forall>(m, pat, h) \<in> set rs. m = mth \<longrightarrow> (\<forall>ps. P (h ps r)) \<Longrightarrow> P (dispatch rs mth segs r other)"
  using assms by (induction rs mth segs r other rule: dispatch.induct) (auto split: option.splits)

definition armored_keys :: "MemoryStore \<Rightarrow> string set" where
  "armored_keys m = insert [] ((\<lambda>b. utf8_fix (bArmoredKey b)) ` set (map snd m) \<union>
     (\<lambda>b. utf8_fix (bSigChainHead b)) ` set (map snd m))"

lemma card_armored_keys: "finite (armored_keys m)" "card (armored_keys m) \<le> 2 * length m + 1"
proof -
  have image: "card (f ` set (map snd m)) \<le> length m" for f :: "Block \<Rightarrow> string"
    using card_image_le [of "set (map snd m)" f] card_length [of "map snd m"] by simp
  show "finite (armored_keys m)" by (simp add: armored_keys_def)
  have "card (armored_keys m) \<le> Suc (card ((\<lambda>b. utf8_fix (bArmoredKey b)) ` set (map snd m) \<union>
      (\<lambda>b. utf8_fix (bSigChainHead b)) ` set (map snd m)))"
    unfolding armored_keys_def by (simp add: card_insert_if)
  also have "\<dots> \<le> Suc (length m + length m)"
    using card_Un_le image by (meson Suc_le_mono add_mono order_trans)
  finally show "card (armored_keys m) \<le> 2 * length m + 1" by simp
qed

lemma armored_of_simps [simp]:
  "armored_of ANil = []" "armored_of (AArr xs) = []" "armored_of (AObj [(''error'', x)]) = []"
  "armored_of (AObj [(''node_url'', a), (''domains'', b), (''allow_all'', c), (''peers'', d), (''peer_nodes'', e)]) = []"
  unfolding armored_of_def wire.simps list.map prod.case literal_keys
  by (simp_all add: getString_def get_def mget_Cons)

lemma armored_of_block: "armored_of (blockToMap b) = utf8_fix (bArmoredKey b)"
proof -
  have keys: "utf8_fix ''hash'' = ''hash''" "utf8_fix ''fingerprint'' = ''fingerprint''"
    "utf8_fix ''armored_key'' = ''armored_key''"
    by (rule utf8_fix_ascii, simp add: ascii_def byte_def)+
  show ?thesis unfolding armored_of_def blockToMap_def wire.simps list.map prod.case keys
    by (simp add: getString_def get_def mget_Cons)
qed

lemma armored_keys_simps [simp]:
  "[] \<in> armored_keys m"
  "(fp, b) \<in> set m \<Longrightarrow> armored_of (blockToMap b) \<in> armored_keys m"
  by (force simp: armored_keys_def armored_of_block)+

definition serves_keys_of :: "MemoryStore node \<Rightarrow> world \<Rightarrow> response io \<Rightarrow> bool" where
  "serves_keys_of nd w p \<longleftrightarrow>
     (\<forall>st v nd'. run memory_ops w p nd = (Done (Response st v), nd') \<longrightarrow> armored_of v \<in> armored_keys (nStore nd))"

lemma served_hashes:
  "armored_of (AObj (map (\<lambda>(fp, head). (fp, AStr head)) (map (\<lambda>(fp, b). (fp, bSigChainHead b)) m))) \<in> armored_keys m"
proof (cases "mget (map (\<lambda>(fp, b). (utf8_fix fp, wire (AStr (bSigChainHead b)))) m) ''armored_key''")
  case None
  then show ?thesis by (simp add: armored_of_def getString_def get_def comp_def case_prod_unfold armored_keys_def)
next
  case (Some v)
  then obtain fp b where "(fp, b) \<in> set m" "v = wire (AStr (bSigChainHead b))" by (auto dest!: mget_SomeD)
  with Some show ?thesis
    by (force simp: armored_of_def getString_def get_def comp_def case_prod_unfold armored_keys_def)
qed

lemma serves_keys_handlers:
  "serves_keys_of nd w (writeJSON st ANil)" "serves_keys_of nd w (errJSON st msg)"
  "serves_keys_of nd w handleListBlocks" "serves_keys_of nd w (handleSearch L r)"
  "serves_keys_of nd w (handleWellKnown cfg)" "serves_keys_of nd w handleListPeers"
  "serves_keys_of nd w handleP2PHashes" "serves_keys_of nd w (handleGetBlock fp)"
  "serves_keys_of nd w (handleP2PGetBlock h)"
proof -
  have errs: "serves_keys_of nd w (writeJSON st ANil)" "serves_keys_of nd w (errJSON st msg)" for st msg
    by (simp_all add: serves_keys_of_def)
  show "serves_keys_of nd w (writeJSON st ANil)" "serves_keys_of nd w (errJSON st msg)" by (rule errs)+
  show "serves_keys_of nd w handleP2PHashes"
    using served_hashes by (auto simp: serves_keys_of_def handleP2PHashes_def mem_defs)
  show "serves_keys_of nd w (handleGetBlock fp)"
    by (auto simp: serves_keys_of_def handleGetBlock_def mem_defs dest!: mget_SomeD split: option.splits)
  show "serves_keys_of nd w (handleP2PGetBlock h)"
    by (auto simp: serves_keys_of_def handleP2PGetBlock_def mem_defs find_Some_iff split: option.splits)
      (metis armored_keys_simps(2) nth_mem prod.collapse)
qed (simp_all add: serves_keys_of_def handleListBlocks_def handleSearch_def handleWellKnown_def handleListPeers_def
    mem_defs blocks_any_def Let_def)

lemma serves_keys_serve: "serves_keys_of nd w (serve n L cfg ''GET'' path r)"
  unfolding serve_def
  by (rule dispatch_induct) (simp_all add: NewRouter_def serves_keys_handlers)

lemma peer_world_keys:
  assumes "wGet (peer_world v nd) url = Reply st body" and "decode_map body = Some data"
  shows "getString data ''armored_key'' \<in> armored_keys (nStore nd)"
proof -
  let ?p = "serve (svFuel v) (svLib v) (svConfig v) ''GET'' (url_path (svBase v) url)
      \<lparr>rqBody = None, rqQ = url_query url, rqForwardedFor = []\<rparr>"
  from assms(1) obtain val where val: "fst (run memory_ops (svWorld v) ?p nd) = Done (Response st val)"
    "body = Some (wire val)"
    by (auto simp: peer_world_def reply_of_def node_step_def split: if_splits outcome.splits response.splits)
  then obtain nd' where "run memory_ops (svWorld v) ?p nd = (Done (Response st val), nd')"
    by (metis prod.collapse)
  with serves_keys_serve [of nd "svWorld v"] have "armored_of val \<in> armored_keys (nStore nd)"
    by (fastforce simp: serves_keys_of_def)
  with assms(2) val(2) show ?thesis by (simp add: armored_of_def)
qed

lemma offered_peer:
  "finite (offered L (peer_world v nd))" "card (offered L (peer_world v nd)) \<le> 2 * length (nStore nd) + 1"
proof -
  have sub: "offered L (peer_world v nd) \<subseteq>
      (\<lambda>k. case ParseArmoredKey L k of Inr (fp, uids) \<Rightarrow> fp | Inl e \<Rightarrow> []) ` armored_keys (nStore nd)"
    using peer_world_keys [of v nd] unfolding offered_def by (force intro!: rev_image_eqI)
  from card_armored_keys [of "nStore nd"] show "finite (offered L (peer_world v nd))"
    by (intro finite_subset [OF sub]) simp
  from card_mono [OF _ sub] card_image_le card_armored_keys [of "nStore nd"]
  show "card (offered L (peer_world v nd)) \<le> 2 * length (nStore nd) + 1"
    by (meson finite_imageI order_trans)
qed

text \<open>It answers with its hashes, and with a block that is asked for.\<close>

definition offered_hashes :: "MemoryStore \<Rightarrow> (string, any) gomap" where
  "offered_hashes m = map (\<lambda>(fp, b). (utf8_fix fp, AStr (utf8_fix (bSigChainHead b)))) m"

lemma peer_hashes:
  assumes "CHR ''?'' \<notin> set (svBase v)"
  shows "wGet (peer_world v nd) (svBase v @ ''/p2p/hashes'') = Reply 200 (Some (AObj (offered_hashes (nStore nd))))"
proof -
  have path: "url_path (svBase v) (svBase v @ ''/p2p/hashes'') = ''/p2p/hashes''" by (rule url_paths) simp
  have serve: "serve n L cfg ''GET'' ''/p2p/hashes'' r = handleP2PHashes" for n L cfg r
    by (simp add: serve_def NewRouter_def)
  show ?thesis
    by (simp add: peer_world_def node_step_def path serve handleP2PHashes_def mem_defs reply_of_def offered_hashes_def
        comp_def case_prod_unfold writeJSON_def del: append.simps)
qed

lemma peer_serves_block:
  assumes "mget (nStore nd) fp = Some b" and "bFingerprint b = fp" and "portable L cfg now b" and "wired cfg"
  shows "serves_block L (cSync cfg) (peer_world v nd) now (svBase v) fp"
proof -
  from assms(2,3) have seg: "segment fp" by (simp add: portable_def)
  then have path: "url_path (svBase v) (svBase v @ ''/block/'' @ fp) = ''/block/'' @ fp"
    by (intro url_paths) (simp add: segment_def)
  obtain m where m: "wire (blockToMap b) = AObj m" "getString m ''armored_key'' = bArmoredKey b"
    "getString m ''self_sig'' = bSelfSig b" "getInt64 L m ''submit_timestamp'' = (bSubmitTimestamp b, True)"
    using wire_block [of b L] portable_hash [OF assms(3)] assms(3) by (auto simp: portable_def exact_def)
  have "wGet (peer_world v nd) (svBase v @ ''/block/'' @ fp) = Reply 200 (Some (AObj m))"
    using assms(1) m(1)
    by (simp add: peer_world_def node_step_def path serve_block_routes(1) [OF seg] handleGetBlock_def mem_defs reply_of_def
        writeJSON_def del: append.simps)
  moreover obtain uids where "ParseArmoredKey L (bArmoredKey b) = Inr (fp, uids)" "key_allowed L cfg uids"
    "CheckKeyStrength L (bArmoredKey b) = None"
    using assms(2,3) by (auto simp: portable_def block_valid_def)
  ultimately show ?thesis
    using m(2-4) assms(2,3,4)
    by (auto simp: serves_block_def serves_data_def portable_def wired_def key_allowed_def getInt64_toInt64)
qed

text \<open>What a sync posts: every block of its own that the other did not list.\<close>

definition block_task :: "string \<Rightarrow> Block \<Rightarrow> task" where
  "block_task base b = PostJSONT (base @ ''/p2p/block'') (AObj [(''block'', blockToMap b)])"

lemma push_loop_posts:
  "\<exists>ts. run memory_ops w (push_loop base ph lh) s = (Done (), s\<lparr>nGos := nGos s @ ts\<rparr>) \<and>
     (\<forall>fp b. fp \<in> fst ` set lh \<longrightarrow> mget ph fp = None \<longrightarrow> mget (nStore s) fp = Some b \<longrightarrow> block_task base b \<in> set ts)"
proof (induction lh arbitrary: s)
  case (Cons h lh)
  obtain fp head where h: "h = (fp, head)" by (cases h)
  let ?s = "case mget ph fp of Some _ \<Rightarrow> s | None \<Rightarrow> (case mget (nStore s) fp of None \<Rightarrow> s
    | Some b \<Rightarrow> s\<lparr>nGos := nGos s @ [block_task base b]\<rparr>)"
  have run: "run memory_ops w (push_loop base ph (h # lh)) s = run memory_ops w (push_loop base ph lh) ?s"
    by (simp add: h mem_defs block_task_def split: option.splits)
  have store: "nStore ?s = nStore s" by (simp split: option.splits)
  from Cons.IH [of ?s] obtain ts where ts: "run memory_ops w (push_loop base ph lh) ?s = (Done (), ?s\<lparr>nGos := nGos ?s @ ts\<rparr>)"
    "\<forall>fp b. fp \<in> fst ` set lh \<longrightarrow> mget ph fp = None \<longrightarrow> mget (nStore s) fp = Some b \<longrightarrow> block_task base b \<in> set ts"
    unfolding store by blast
  define new where "new = (case mget ph fp of Some _ \<Rightarrow> [] | None \<Rightarrow> (case mget (nStore s) fp of None \<Rightarrow> []
    | Some b \<Rightarrow> [block_task base b]))"
  have "?s\<lparr>nGos := nGos ?s @ ts\<rparr> = s\<lparr>nGos := nGos s @ new @ ts\<rparr>"
    by (simp add: new_def split: option.splits)
  with run ts show ?case
    by (intro exI [of _ "new @ ts"]) (auto simp: h new_def)
qed (auto intro: exI [of _ "[]"])

text \<open>Nothing that was submitted changes.\<close>

lemma run_core:
  assumes "mget (nStore s) fp = Some b" and "run memory_ops w p s = (out, s')"
  shows "\<exists>b'. mget (nStore s') fp = Some b' \<and> core b' = core b"
  using mem_growsD [OF grow.run_rel [of s w p] assms(1)] assms(2) by auto

text \<open>Delivering what was posted.\<close>

lemma deliver_simps [simp]:
  "deliver v [] nd = nd" "deliver v (t # ts) nd = deliver v ts (deliver_one v t nd)"
  by (simp_all add: deliver_def)

lemma deliver_one_keeps:
  "dom (mget (nStore nd)) \<subseteq> dom (mget (nStore (deliver_one v t nd)))" "nClock (deliver_one v t nd) = nClock nd"
  by (auto simp: deliver_one_def node_step_def split: task.splits intro!: subsetD [OF mem_keys.run_keys])

lemma deliver_keys: "dom (mget (nStore nd)) \<subseteq> dom (mget (nStore (deliver v ts nd)))"
proof (induction ts arbitrary: nd)
  case (Cons t ts)
  from deliver_one_keeps(1) [of nd v t] Cons [of "deliver_one v t nd"] show ?case by simp
qed simp

lemma deliver_one_block:
  assumes "portable (svLib v) (svConfig v) (nClock nd) b" and "CHR ''?'' \<notin> set (svBase v)"
  shows "bFingerprint b \<in> dom (mget (nStore (deliver_one v (block_task (svBase v) b) nd)))"
proof -
  have "serve n L cfg ''POST'' ''/p2p/block'' r = handleP2PReceiveBlock L cfg r" for n L cfg r
    by (simp add: serve_def NewRouter_def)
  then have step: "snd (node_step v (POST (svBase v @ ''/p2p/block'') (AObj [(''block'', blockToMap b)])) nd) =
      snd (run memory_ops (svWorld v) (handleP2PReceiveBlock (svLib v) (svConfig v) (delivered b [])) nd)"
    using node_step_post [OF assms(2), of "''/p2p/block''"] by (simp add: delivered_def posted_def)
  show ?thesis
  proof (cases "mget (nStore nd) (bFingerprint b)")
    case None
    with run_receive_block [of "svLib v" "svConfig v" b nd "svWorld v" "[]"] assms(1) portable_hash [OF assms(1)]
    obtain uids where "run memory_ops (svWorld v) (handleP2PReceiveBlock (svLib v) (svConfig v) (delivered b [])) nd =
        (Done (Response 200 ok_body), nd\<lparr>nStore := mset_key (bFingerprint b)
           (make_block (svLib v) (bFingerprint b) (bArmoredKey b) uids (bSubmitTimestamp b) (bSelfSig b)) (nStore nd),
         nGos := nGos nd @ [GossipBlockT (make_block (svLib v) (bFingerprint b) (bArmoredKey b) uids
           (bSubmitTimestamp b) (bSelfSig b)) []]\<rparr>)"
      by (auto simp: portable_def exact_def Let_def)
    with step show ?thesis by (simp add: deliver_one_def block_task_def domIff)
  next
    case (Some c)
    with deliver_one_keeps(1) [of nd v "block_task (svBase v) b"] show ?thesis by auto
  qed
qed

lemma deliver_block:
  assumes "block_task (svBase v) b \<in> set ts" and "portable (svLib v) (svConfig v) (nClock nd) b"
    and "CHR ''?'' \<notin> set (svBase v)"
  shows "bFingerprint b \<in> dom (mget (nStore (deliver v ts nd)))"
  using assms(1,2)
proof (induction ts arbitrary: nd)
  case (Cons t ts)
  show ?case
  proof (cases "t = block_task (svBase v) b")
    case True
    with deliver_one_block [OF Cons.prems(2) assms(3)] deliver_keys [of "deliver_one v t nd" v ts] show ?thesis by auto
  next
    case False
    with Cons deliver_one_keeps(2) [of v t nd] show ?thesis by simp
  qed
qed simp

section \<open>After a sync\<close>

lemma in_store:
  assumes "mem_inv m" and "\<forall>(fp, c) \<in> set m. P c" and "mget m fp = Some c" shows "P c" "bFingerprint c = fp"
  using assms by (auto dest: mget_SomeD mem_inv_get)

text \<open>The syncing node has its own keys and the other's, and posts what the other has not listed.\<close>

definition listed :: "MemoryStore \<Rightarrow> (string, string) gomap" where
  "listed m = map (\<lambda>(k, v). (k, as_string v)) (offered_hashes m)"

lemma sync_pulls:
  assumes "mem_inv (nStore b)" and "wired cfg" and "TrimRightSlash url = svBase v" and "CHR ''?'' \<notin> set (svBase v)"
    and portable: "\<forall>(fp, c) \<in> set (nStore b). portable L cfg (nClock a) c" and "2 * length (nStore b) + 1 < n"
  shows "\<exists>a'. run memory_ops (peer_world v b) (SyncWithPeer n L (cSync cfg) url) a = (Done (), a') \<and>
    dom (mget (nStore a)) \<union> dom (mget (nStore b)) \<subseteq> dom (mget (nStore a')) \<and>
    (\<forall>fp c. mget (nStore a) fp = Some c \<longrightarrow> mget (listed (nStore b)) fp = None \<longrightarrow>
       (\<exists>c'. core c' = core c \<and> block_task (svBase v) c' \<in> set (nGos a')))"
proof -
  let ?w = "peer_world v b" and ?base = "svBase v" and ?ph = "listed (nStore b)"
  define lh where "lh = map (\<lambda>(fp, b). (fp, bSigChainHead b)) (nStore a)"
  let ?pull = "pull_loop n L (cSync cfg) ?base lh ?ph"
  note offered = offered_peer [of L v b]
  have fuel: "card (offered L ?w - dom (mget (nStore a))) < n"
    using offered card_mono [OF offered(1), of "offered L ?w - dom (mget (nStore a))"] assms(6) by auto
  obtain s1 where s1: "run memory_ops ?w ?pull a = (Done (), s1)"
    using mem_returns_pull_loop [OF offered(1) fuel, of "cSync cfg" ?base lh ?ph] unfolding returns_def by auto
  obtain ts where ts: "run memory_ops ?w (push_loop ?base ?ph lh) s1 = (Done (), s1\<lparr>nGos := nGos s1 @ ts\<rparr>)"
    "\<forall>fp b. fp \<in> fst ` set lh \<longrightarrow> mget ?ph fp = None \<longrightarrow> mget (nStore s1) fp = Some b \<longrightarrow> block_task ?base b \<in> set ts"
    using push_loop_posts by blast
  have "\<forall>(fp, v) \<in> set (offered_hashes (nStore b)). \<not> bad_string v" by (auto simp: offered_hashes_def)
  from run_SyncWithPeer [OF _ this, of ?w url n L "cSync cfg" a] peer_hashes [OF assms(4), of b] assms(3)
  have run: "run memory_ops ?w (SyncWithPeer n L (cSync cfg) url) a = (Done (), s1\<lparr>nGos := nGos s1 @ ts\<rparr>)"
    using s1 ts(1) by (simp add: run_bind lh_def listed_def)
  have own: "dom (mget (nStore a)) \<subseteq> dom (mget (nStore s1))"
    using mem_keys.run_keys [of a ?w ?pull] s1 by simp
  have "fp \<in> dom (mget (nStore s1))" if c: "mget (nStore b) fp = Some c" for fp c
  proof (cases "mget lh fp")
    case None
    note b = in_store [OF assms(1) portable c]
    have "serves_block L (cSync cfg) ?w (nClock a) ?base fp"
      by (rule peer_serves_block [OF c b(2,1) assms(2)])
    moreover have "(fp, utf8_fix (bSigChainHead c)) \<in> set ?ph"
      using mget_SomeD [OF c] b utf8_fix_ascii [of fp] by (force simp: listed_def offered_hashes_def portable_def)
    ultimately show ?thesis using pull_loop_brings [OF offered(1) fuel] None s1 by (metis snd_conv)
  qed (use own in \<open>auto simp: lh_def mem_Hashes_iff\<close>)
  moreover have "\<exists>c'. core c' = core c \<and> block_task ?base c' \<in> set (nGos s1 @ ts)"
    if c: "mget (nStore a) fp = Some c" "mget ?ph fp = None" for fp c
  proof -
    have "fp \<in> fst ` set lh" using mget_SomeD [OF c(1)] by (force simp: lh_def)
    with run_core [OF c(1) s1] ts(2) c(2) show ?thesis by fastforce
  qed
  ultimately show ?thesis using run own by (intro exI [of _ "s1\<lparr>nGos := nGos s1 @ ts\<rparr>"]) auto
qed

lemma listed_key:
  assumes "mem_inv m" and "\<forall>(fp, c) \<in> set m. portable L cfg now c" and "mget (listed m) fp = Some h"
  shows "fp \<in> dom (mget m)"
proof -
  from assms(3) obtain fp' c where c: "(fp', c) \<in> set m" "fp = utf8_fix fp'"
    by (auto simp: listed_def offered_hashes_def dest!: mget_SomeD)
  with assms(1) have get: "mget m fp' = Some c" by (simp add: mem_inv_def mget_Some_iff)
  with in_store [OF assms(1,2) get] c(2) utf8_fix_ascii [of fp'] show ?thesis by (auto simp: portable_def)
qed

text \<open>
  C13.  A sync brings two nodes together.  When a node syncs with a second one and what it posts is
  delivered to that one, the sync returns, and each of them then holds the block of every key
  that either held before.  (The policies and clocks of the two accept each other's blocks, and
  the encoding leaves their fields as they are; the bound on the depth is twice the number of the
  other's blocks.)
\<close>

theorem sync_unites:
  assumes "mem_inv (nStore a)" and "mem_inv (nStore b)" and "wired cfg" and "svLib v = L"
    and "TrimRightSlash url = svBase v" and "CHR ''?'' \<notin> set (svBase v)"
    and "\<forall>(fp, c) \<in> set (nStore b). portable L cfg (nClock a) c"
    and "\<forall>(fp, c) \<in> set (nStore a). portable L (svConfig v) (nClock b) c"
    and "2 * length (nStore b) + 1 < n"
  shows "\<exists>a'. run memory_ops (peer_world v b) (SyncWithPeer n L (cSync cfg) url) a = (Done (), a') \<and>
    dom (mget (nStore a)) \<union> dom (mget (nStore b)) \<subseteq> dom (mget (nStore a')) \<and>
    dom (mget (nStore a)) \<union> dom (mget (nStore b)) \<subseteq> dom (mget (nStore (deliver v (nGos a') b)))"
proof -
  from sync_pulls [OF assms(2,3,5,6,7,9)] obtain a' where
    a': "run memory_ops (peer_world v b) (SyncWithPeer n L (cSync cfg) url) a = (Done (), a')"
    "dom (mget (nStore a)) \<union> dom (mget (nStore b)) \<subseteq> dom (mget (nStore a'))"
    and posts: "\<And>fp c. mget (nStore a) fp = Some c \<Longrightarrow> mget (listed (nStore b)) fp = None \<Longrightarrow>
       \<exists>c'. core c' = core c \<and> block_task (svBase v) c' \<in> set (nGos a')" by blast
  have "fp \<in> dom (mget (nStore (deliver v (nGos a') b)))" if c: "mget (nStore a) fp = Some c" for fp c
  proof (cases "mget (listed (nStore b)) fp")
    case None
    from posts [OF c None] obtain c' where c': "core c' = core c" "block_task (svBase v) c' \<in> set (nGos a')" by blast
    note own = in_store [OF assms(1,8) c]
    from c'(1) own portable_core [of c' c] have "portable (svLib v) (svConfig v) (nClock b) c'" "bFingerprint c' = fp"
      using assms(4) by simp_all
    with deliver_block [OF c'(2) _ assms(6)] show ?thesis by auto
  next
    case (Some h)
    from listed_key [OF assms(2,7) Some] deliver_keys show ?thesis by blast
  qed
  with a' deliver_keys show ?thesis by blast
qed

text \<open>A node that holds \<open>B\<close> syncs with one that holds \<open>A\<close>.\<close>

definition node_B :: "MemoryStore node" where
  "node_B = (node0 NewMemoryStore)\<lparr>nStore := [(''42'', sample_key_block ''B'')]\<rparr>"

lemma sample_portable:
  assumes "key = ''A'' \<or> key = ''B''" shows "portable sample_lib sample_config now (sample_key_block key)"
proof -
  from assms have ne: "key \<noteq> []" by auto
  have verify: "VerifyDetachedSig sample_lib t (SubmitPayload sample_lib (sample_fp key) key 0) (sample_self_sig key) key" for t
    unfolding sample_self_sig_def by (rule sample_verify [OF ne])
  have "block_valid sample_lib sample_config (sample_key_block key)"
    unfolding sample_key_block_def
    by (rule block_valid_make) (use sample_parse [OF ne] verify in \<open>auto simp: key_allowed_def\<close>)
  moreover have "ascii (sample_self_sig key)" by (simp add: sample_self_sig_def ascii_EncodeToString)
  moreover have "segment (sample_fp key)" "ascii (sample_fp key)" "ascii key"
    using assms by (auto simp: sample_fp_A sample_fp_B segment_def ascii_def byte_def)
  ultimately show ?thesis
    using verify sample_self_sig_nonempty [OF ne] ne
    by (simp add: portable_def) (simp add: sample_key_block_def make_block_def exact_def)
qed

theorem sync_unites_witness:
  "\<exists>a'. run memory_ops (peer_world sample_server node_A)
       (SyncWithPeer 4 sample_lib (cSync sample_config) ''http://localhost:8080/'') node_B = (Done (), a') \<and>
     {''41'', ''42''} \<subseteq> dom (mget (nStore a')) \<and>
     {''41'', ''42''} \<subseteq> dom (mget (nStore (deliver sample_server (nGos a') node_A)))"
proof -
  have inv: "mem_inv (nStore node_A)" "mem_inv (nStore node_B)"
    by (simp_all add: mem_inv_def is_gomap_def node_A_def node_B_def sample_fp_A sample_fp_B)
  have "TrimRightSlash ''http://localhost:8080/'' = ''http://localhost:8080''" by (simp add: TrimRightSlash_def)
  moreover have "dom (mget (nStore node_A)) = {''41''}" "dom (mget (nStore node_B)) = {''42''}"
    by (auto simp: node_A_def node_B_def mget_def split: if_splits)
  ultimately show ?thesis
    using sync_unites [OF inv(2,1), of sample_config sample_server sample_lib "''http://localhost:8080/''" 4]
      sample_portable by (simp add: node_A_def node_B_def insert_commute)
qed

end
