(* ===== verification/Honest.thy ===== *)
theory Honest
  imports Pair
begin

text \<open>
  The client of an honest node: when all that answers it is the node modelled here, the blocks over
  which it computes a score are blocks in the store, so a score rests on entries that the node
  verified.
\<close>

section \<open>Reading changes nothing\<close>

lemma get_keeps: "snd (run memory_ops w (serve n L cfg ''GET'' path r) nd) = nd"
  unfolding serve_def
proof (rule dispatch_induct)
  show "\<forall>(m, pat, h) \<in> set (NewRouter n L cfg). m = ''GET'' \<longrightarrow> (\<forall>ps. snd (run memory_ops w (h ps r) nd) = nd)"
    by (simp add: NewRouter_def handleListBlocks_def handleGetBlock_def handleSearch_def handleWellKnown_def
        handleListPeers_def handleP2PHashes_def handleP2PGetBlock_def Let_def mem_defs split: option.splits)
qed simp

fun is_get :: "http_req \<Rightarrow> bool" where
  "is_get (GET url) = True"
| "is_get (POST url body) = False"

lemma node_after_gets: "list_all is_get h \<Longrightarrow> node_after v h nd = nd"
proof (induction h rule: rev_induct)
  case (snoc r h)
  then show ?case using get_keeps by (cases r) (simp_all add: node_step_def)
qed simp

lemma FindBlock_gets:
  assumes "list_all is_get h"
  shows "list_all is_get (snd (FindBlock L net fingerprint seeds hint maxNodes tc h))"
proof -
  let ?fp = "ToUpper L fingerprint"
  from find.loop_bounded [OF seeds_frontier(1) [of L seeds], where L = L and net = net and hint = hint
      and maxNodes = maxNodes and fp = ?fp and tc = tc and s = "([], [])" and h = h]
  obtain us segs where segs: "snd (FindBlock L net fingerprint seeds hint maxNodes tc h) = h @ concat segs"
    "list_all2 (\<lambda>u seg. seg \<in> find.visit_requests ?fp u) us segs"
    unfolding FindBlock_log by blast
  have "list_all is_get seg" if "seg \<in> find.visit_requests ?fp u" for seg u
    using that by (auto simp: find.visit_requests_def find_requests_def block_request_def wk_request_def)
  with segs(2) have "list_all (list_all is_get) segs"
    by (induction rule: list_all2_induct) auto
  with assms segs(1) show ?thesis by (auto simp: list_all_iff)
qed

section \<open>Every list of blocks it serves is of its own\<close>

definition lists_own :: "world \<Rightarrow> (int \<Rightarrow> int \<Rightarrow> string) \<Rightarrow> MemoryStore node \<Rightarrow> response io \<Rightarrow> bool" where
  "lists_own w F nd p \<longleftrightarrow>
     (\<forall>st v nd' L bs d. run memory_ops w p nd = (Done (Response st v), nd') \<longrightarrow>
        dec_blocks L (encode F v) = (Some bs, False) \<longrightarrow> Some d \<in> set bs \<longrightarrow>
        (\<exists>b \<in> set (map snd (nStore nd)). d = DBlock b None))"

lemma no_blocks:
  "dec_blocks L (encode F ANil) \<noteq> (Some bs, False)" "dec_blocks L (encode F (AObj m)) \<noteq> (Some bs, False)"
  "dec_blocks L (encode F (AArr (map AStr xs))) = (Some bs, False) \<Longrightarrow> bs = []"
  by (auto simp: dec_blocks_def dec_block_ptr_def dec_block_def list_ex_iff split: list.splits if_splits)

lemma lists_own_obj:
  assumes "\<And>st v nd'. run memory_ops w p nd = (Done (Response st v), nd') \<Longrightarrow> v = ANil \<or> (\<exists>m. v = AObj m)"
  shows "lists_own w F nd p"
  using assms no_blocks(1,2) unfolding lists_own_def by blast

lemma lists_own_objs:
  "lists_own w F nd (writeJSON st ANil)" "lists_own w F nd (handleGetBlock fp)" "lists_own w F nd (handleWellKnown cfg)"
  "lists_own w F nd handleP2PHashes" "lists_own w F nd (handleP2PGetBlock h)"
  by (rule lists_own_obj, auto simp: handleGetBlock_def handleWellKnown_def handleP2PHashes_def handleP2PGetBlock_def
      blockToMap_def mem_defs split: option.splits)+

lemma lists_own_peers: "lists_own w F nd handleListPeers"
  using no_blocks(3) by (fastforce simp: lists_own_def handleListPeers_def)

lemma lists_own_blocks:
  assumes "\<forall>b \<in> set (map snd (nStore nd)). utf8_block b"
  shows "lists_own w F nd handleListBlocks" "lists_own w F nd (handleSearch L r)"
proof -
  have list: "\<exists>b \<in> set (map snd (nStore nd)). d = DBlock b None"
    if "dec_blocks L (encode F (blocks_any bs)) = (Some ds, False)" "Some d \<in> set ds" "set bs \<subseteq> set (map snd (nStore nd))" for L bs ds d
  proof -
    have "\<forall>b \<in> set bs. utf8_block b" using assms that(3) by blast
    from dec_blocks_encode [OF this] that(1,2) obtain b where "b \<in> set bs" "d = DBlock b None" by auto
    with that(3) show ?thesis by blast
  qed
  show "lists_own w F nd handleListBlocks"
    unfolding lists_own_def handleListBlocks_def using list by (simp add: mem_defs)
  show "lists_own w F nd (handleSearch L r)"
    unfolding lists_own_def handleSearch_def
    using list [of _ "filter (\<lambda>b. list_ex (\<lambda>uid. Contains (ToLower L uid) (ToLower L (rqQ r))) (bUIDs b)) (map snd (nStore nd))"]
    by (simp add: mem_defs Let_def)
qed

lemma lists_own_serve:
  assumes "\<forall>b \<in> set (map snd (nStore nd)). utf8_block b"
  shows "lists_own w F nd (serve n L cfg ''GET'' path r)"
  unfolding serve_def
  by (rule dispatch_induct)
    (simp_all add: NewRouter_def lists_own_objs lists_own_peers lists_own_blocks [OF assms])

lemma served_by_node:
  assumes "served_in L (node_net v nd) log d" and "list_all is_get log"
    and "\<forall>b \<in> set (map snd (nStore nd)). utf8_block b"
  shows "\<exists>b \<in> set (map snd (nStore nd)). d = DBlock b None"
proof -
  from assms(1) obtain h u bs rest where h: "log = h @ GET (TrimRightSlash u @ ''/blocks'') # rest"
    "fst (fetchAllBlocks L (node_net v nd) u h) = Some bs" "Some d \<in> set bs"
    unfolding served_in_def by blast
  let ?url = "TrimRightSlash u @ ''/blocks''"
  let ?p = "serve (svFuel v) (svLib v) (svConfig v) ''GET'' (url_path (svBase v) ?url)
    \<lparr>rqBody = None, rqQ = url_query ?url, rqForwardedFor = []\<rparr>"
  have after: "node_after v h nd = nd" using assms(2) h(1) by (intro node_after_gets) simp
  have "\<exists>doc. node_net v nd h (GET ?url) = Answer 200 (Some doc) \<and> dec_blocks L doc = (Some bs, False)"
    using h(2) by (auto simp: fetchAllBlocks_def ask_def split: answer.splits if_splits option.splits prod.splits)
  then obtain r where "fst (run memory_ops (svWorld v) ?p nd) = Done r"
    "dec_blocks L (encode (svFormat v) (rsBody r)) = (Some bs, False)"
    by (auto simp: node_net_def answered_def after node_step_def split: if_splits outcome.splits)
  moreover from this obtain nd' where "run memory_ops (svWorld v) ?p nd = (Done (Response (rsStatus r) (rsBody r)), nd')"
    by (metis prod.collapse response.collapse)
  ultimately show ?thesis
    using lists_own_serve [OF assms(3)] h(3) unfolding lists_own_def by blast
qed

section \<open>What a score counts\<close>

text \<open>
  A chain of keys, each signed by the next: on the block of each stands an entry by the next,
  and its signature verifies under the key it brings or, without one, that of the signer's block.
\<close>

fun verified_chain :: "lib \<Rightarrow> MemoryStore \<Rightarrow> string list \<Rightarrow> bool" where
  "verified_chain L m (x # y # p) \<longleftrightarrow>
     (\<exists>b e t key. mem_Get x m = Inr (Some b) \<and> \<not> bRevoked b \<and> e \<in> set (bSigEntries b) \<and> seSigner e = y \<and>
        VerifyDetachedSig L t (TrustPayload (bHash b) y (seTimestamp e)) (seSig e) key \<and>
        (if seSignerKey e \<noteq> [] then key = seSignerKey e
         else \<exists>sb. mem_Get y m = Inr (Some sb) \<and> bArmoredKey sb = key)) \<and>
     verified_chain L m (y # p)"
| "verified_chain L m _ = True"

lemma entry_valid_chain:
  assumes "mget m x = Some b" and "\<not> bRevoked b" and "e \<in> set (bSigEntries b)"
    and "entry_valid L (blocks_of (mget m)) b e" and "verified_chain L m (seSigner e # p)"
  shows "verified_chain L m (x # seSigner e # p)"
proof -
  from assms(4) obtain t key where "signer_key (blocks_of (mget m)) e key"
    "VerifyDetachedSig L t (TrustPayload (bHash b) (seSigner e) (seTimestamp e)) (seSig e) key"
    by (auto simp: entry_valid_def)
  moreover from this(1) have "if seSignerKey e \<noteq> [] then key = seSignerKey e
      else \<exists>sb. mem_Get (seSigner e) m = Inr (Some sb) \<and> bArmoredKey sb = key"
    by (auto simp: signer_key_def blocks_of_def mem_Get_def split: if_splits)
  moreover have "mem_Get x m = Inr (Some b)" using assms(1) by (simp add: mem_Get_def)
  ultimately show ?thesis using assms(2,3,5) unfolding verified_chain.simps by blast
qed

lemma verified_path:
  assumes "mem_inv m" and "set bs \<subseteq> set (map snd m)"
    and valid: "\<And>fp b e. mget m fp = Some b \<Longrightarrow> e \<in> set (bSigEntries b) \<Longrightarrow> entry_valid L (blocks_of (mget m)) b e"
  shows "sig_path (Build bs) p \<Longrightarrow> verified_chain L m p"
proof (induction p rule: induct_list012)
  case (3 x y p)
  then obtain b e where b: "b \<in> set bs" "bFingerprint b = x" "\<not> bRevoked b" "e \<in> set (bSigEntries b)" "seSigner e = y"
    by (auto simp: Build_edges)
  with assms(2) obtain fp where "(fp, b) \<in> set m" by auto
  with assms(1) b(2) have get: "mget m x = Some b" by (auto simp: mem_inv_def mget_Some_iff)
  from entry_valid_chain [OF get b(3,4) valid [OF get b(4)]] 3 b(5) show ?case by simp
qed simp_all

lemma check_node:
  assumes "Parse [(''fingerprint'', VString []), keyid_flag E, (''max-depth'', VInt 2), (''threshold'', VInt 1),
      (''disjoint'', VBool False), server_flag E, (''seeds'', VString [])] args = Inr (fs, rest)"
    and "\<not> bflag fs ''disjoint''" and "ascii (sflag fs ''fingerprint'')" and "ascii (sflag fs ''keyid'')"
    and "cmdCheck L E args s = (Exit 0, s')" and "ceNet E = node_net v nd" and "ssHist s = []"
    and "\<forall>b \<in> set (map snd (nStore nd)). utf8_block b"
  shows "\<exists>bs. set bs \<subseteq> set (map snd (nStore nd)) \<and> distinct (map bFingerprint bs) \<and>
    iflag fs ''threshold'' \<le> Score (Build bs) (ToUpper L (sflag fs ''fingerprint'')) (ToUpper L (sflag fs ''keyid''))
      (iflag fs ''max-depth'')"
proof -
  from check_served [OF assms(1-5)] obtain ds where ds: "\<forall>d \<in> set ds. served_in L (node_net v nd) (ssHist s') d"
    "distinct (map (\<lambda>d. bFingerprint (db_block d)) ds)"
    "iflag fs ''threshold'' \<le> Score (Build (map db_block ds)) (ToUpper L (sflag fs ''fingerprint''))
       (ToUpper L (sflag fs ''keyid'')) (iflag fs ''max-depth'')" unfolding assms(6) by blast
  obtain r tc where "FindBlock L (ceNet E) (ToUpper L (sflag fs ''fingerprint'')) (seed_list L fs) [] 20 tc (ssHist s) = (Some r, ssHist s')"
    using check_finds [OF assms(1,2,5)] by blast
  then have "list_all is_get (ssHist s')"
    using FindBlock_gets [of "ssHist s"] assms(7) by (metis list.pred_inject(1) snd_conv)
  from served_by_node [OF _ this assms(8)] ds(1)
  have "db_block ` set ds \<subseteq> set (map snd (nStore nd))" by (metis dblock.sel(1) image_subsetI)
  with ds(2,3) show ?thesis by (intro exI [of _ "map db_block ds"]) (simp add: comp_def)
qed

lemma score_path:
  assumes "1 \<le> Score (Build bs) target root md" and "root \<noteq> target"
  shows "\<exists>p. p \<noteq> [] \<and> hd p = target \<and> last p = root \<and> distinct p \<and> int (length p) \<le> md + 1 \<and> sig_path (Build bs) p"
proof -
  have "Score (Build bs) target root md = int (card (trust_paths (Build bs) target root md))"
    by (rule Score_card [OF graph_ok_Build assms(2)])
  with assms(1) have "trust_paths (Build bs) target root md \<noteq> {}" by auto
  then show ?thesis by (auto simp: trust_paths_def)
qed

section \<open>A sample\<close>

text \<open>The sample node after \<open>B\<close> signed the block of \<open>A\<close>, and the owner of \<open>B\<close> checking \<open>A\<close>.\<close>

abbreviation signed_A :: Block where
  "signed_A \<equiv> with_entry (sample_key_block ''A'') (sample_signed (sample_key_block ''A'') ''42'' ''B'')"

lemma signed_A_simps:
  "nStore (node_AB ''B'') = [(''41'', signed_A)]" "bFingerprint signed_A = ''41''" "\<not> bRevoked signed_A"
  "seSigner (sample_signed b signer key) = signer"
  "bSigEntries signed_A = [sample_signed (sample_key_block ''A'') ''42'' ''B'']"
  by (simp_all add: node_AB_def Let_def with_entry_def sample_block_simps sample_fp_A)
    (simp add: sample_signed_def Let_def)

lemma utf8_signed_A: "utf8_block signed_A"
proof -
  have b: "utf8_block (sample_key_block ''A'')" by (rule utf8_sample_block) simp
  have "ascii (ComputeSigEntryHash H p f g t)" for H p f g t by (simp add: ComputeSigEntryHash_def ascii_hash)
  moreover have "ascii (sample_sig key h f)" for key h f by (simp add: sample_sig_def ascii_EncodeToString)
  moreover have "ascii ''42''" "ascii ''B''" "ascii []" by (simp_all add: ascii_def byte_def)
  moreover have "bSigChainHead (sample_key_block ''A'') = []" by (simp add: sample_key_block_def make_block_def)
  ultimately have "utf8_entry (sample_signed (sample_key_block ''A'') ''42'' ''B'')"
    "utf8_fix (seHash (sample_signed (sample_key_block ''A'') ''42'' ''B'')) = seHash (sample_signed (sample_key_block ''A'') ''42'' ''B'')"
    using sample_block_simps(4) [of "''A''"]
    by (simp_all add: utf8_entry_def sample_signed_def utf8_fix_ascii Let_def byte_def)
  with b show ?thesis by (simp add: utf8_block_def with_entry_def sample_block_simps)
qed

lemma signed_A_answers:
  assumes "list_all is_get h"
  shows "fetchBlock sample_lib (node_net sample_server (node_AB ''B'')) ''http://localhost:8080'' ''41'' h =
      (Some (DBlock signed_A None), h @ [GET ''http://localhost:8080/block/41''])"
    "fetchAllBlocks sample_lib (node_net sample_server (node_AB ''B'')) ''http://localhost:8080'' h =
      (Some [Some (DBlock signed_A None)], h @ [GET ''http://localhost:8080/blocks''])"
proof -
  have seg: "segment ''41''" by (simp add: segment_def)
  have path: "url_path ''http://localhost:8080'' ''http://localhost:8080/block/41'' = ''/block/'' @ ''41''"
    "url_path ''http://localhost:8080'' ''http://localhost:8080/blocks'' = ''/blocks''"
    by (simp_all add: url_path_def)
  have prefix: "HasPrefix (''http://localhost:8080'' @ t) ''http://localhost:8080''" for t by (rule HasPrefix_append)
  note after = node_after_gets [OF assms, of sample_server "node_AB ''B''"]
  have "node_net sample_server (node_AB ''B'') h (GET ''http://localhost:8080/block/41'') =
      Answer 200 (Some (encode (svFormat sample_server) (blockToMap signed_A)))"
    using prefix [of "''/block/41''"]
    by (simp add: node_net_def after node_step_def path serve_block_routes(1) [OF seg] handleGetBlock_def mem_defs
        signed_A_simps(1) mget_def answered_def del: append.simps)
  then show "fetchBlock sample_lib (node_net sample_server (node_AB ''B'')) ''http://localhost:8080'' ''41'' h =
      (Some (DBlock signed_A None), h @ [GET ''http://localhost:8080/block/41''])"
    using dec_block_encode [OF utf8_signed_A] by (simp add: fetchBlock_def ask_def)
  have "node_net sample_server (node_AB ''B'') h (GET ''http://localhost:8080/blocks'') =
      Answer 200 (Some (encode (svFormat sample_server) (blocks_any [signed_A])))"
    using prefix [of "''/blocks''"]
    by (simp add: node_net_def after node_step_def path serve_blocks handleListBlocks_def mem_defs
        signed_A_simps(1) answered_def del: append.simps)
  then show "fetchAllBlocks sample_lib (node_net sample_server (node_AB ''B'')) ''http://localhost:8080'' h =
      (Some [Some (DBlock signed_A None)], h @ [GET ''http://localhost:8080/blocks''])"
    using dec_blocks_encode [of "[signed_A]"] utf8_signed_A by (simp add: fetchAllBlocks_def ask_def)
qed

definition trust_B :: TrustConfig where
  "trust_B = \<lparr>tcRootFP = ''42'', tcThreshold = 1, tcMaxDepth = 2\<rparr>"

lemma signed_A_score:
  "\<exists>acc. accumulate [Some (DBlock signed_A None)] [] = Some acc \<and> trust_score sample_lib trust_B ''41'' acc = Some 1"
proof -
  have graph: "Build [signed_A] = [(''41'', [''42''])]"
    by (simp add: Build_def revoked_fps_def Let_def signed_A_simps mset_key_def mget_def signers_def set_add_def)
  have "Score [(''41'', [''42''])] ''41'' ''42'' 2 = 1" by code_simp
  moreover have "ToUpper sample_lib ''42'' = ''42''" by code_simp
  ultimately show ?thesis
    by (simp add: trust_score_def blockSlice_def build_blocks_def db_nil_def trust_B_def graph signed_A_simps mget_def
        mset_key_def Let_def)
qed

lemma signed_A_find:
  "\<exists>r h. FindBlock sample_lib (node_net sample_server (node_AB ''B'')) ''41'' [''http://localhost:8080''] [] 20 (Some trust_B) [] =
     (Some r, h) \<and> brFound r \<and> brTrustScore r = 1"
proof -
  obtain acc where acc: "accumulate [Some (DBlock signed_A None)] [] = Some acc"
    "trust_score sample_lib trust_B ''41'' acc = Some 1" using signed_A_score by blast
  have "normaliseURL sample_lib ''http://localhost:8080'' = ''http://localhost:8080''" by code_simp
  then have seeds: "seed_nodes sample_lib [''http://localhost:8080''] new_frontier =
      \<lparr>frExact = [], frAllowAll = [], frNormal = [''http://localhost:8080''], frVisited = [''http://localhost:8080'']\<rparr>"
    by (simp add: new_frontier_def Let_def)
  have up: "ToUpper sample_lib ''41'' = ''41''" by code_simp
  have thr: "tcThreshold trust_B = 1" by (simp add: trust_B_def)
  show ?thesis
    unfolding FindBlock_def Let_def up seeds
    by (subst find_loop.simps)
      (simp add: hasQueued_def nextNode_def try_node_def signed_A_answers acc thr found_def Let_def
        del: accumulate.simps)
qed

lemma signed_A_args:
  "Parse [(''fingerprint'', VString []), keyid_flag (client_of net), (''max-depth'', VInt 2), (''threshold'', VInt 1),
       (''disjoint'', VBool False), server_flag (client_of net), (''seeds'', VString [])]
     [''--fingerprint'', ''41'', ''--keyid'', ''42''] =
   Inr ([(''fingerprint'', VString ''41''), (''keyid'', VString ''42''), (''max-depth'', VInt 2), (''threshold'', VInt 1),
     (''disjoint'', VBool False), (''server'', VString ''http://localhost:8080''), (''seeds'', VString [])], [])"
proof -
  have "keyid_flag (client_of net) = (''keyid'', VString [])"
    "server_flag (client_of net) = (''server'', VString ''http://localhost:8080'')"
    by (simp_all add: keyid_flag_def server_flag_def envOr_def client_of_def)
  moreover have "Parse [(''fingerprint'', VString []), (''keyid'', VString []), (''max-depth'', VInt 2), (''threshold'', VInt 1),
       (''disjoint'', VBool False), (''server'', VString ''http://localhost:8080''), (''seeds'', VString [])]
     [''--fingerprint'', ''41'', ''--keyid'', ''42''] =
   Inr ([(''fingerprint'', VString ''41''), (''keyid'', VString ''42''), (''max-depth'', VInt 2), (''threshold'', VInt 1),
     (''disjoint'', VBool False), (''server'', VString ''http://localhost:8080''), (''seeds'', VString [])], [])"
    by code_simp
  ultimately show ?thesis by simp
qed

lemma signed_A_check:
  "\<exists>s'. cmdCheck sample_lib (client_of (node_net sample_server (node_AB ''B'')))
     [''--fingerprint'', ''41'', ''--keyid'', ''42''] session0 = (Exit 0, s')"
proof -
  obtain r h where r: "FindBlock sample_lib (node_net sample_server (node_AB ''B'')) ''41'' [''http://localhost:8080''] [] 20
      (Some trust_B) [] = (Some r, h)" "brFound r" "brTrustScore r = 1" using signed_A_find by blast
  have up: "ToUpper sample_lib ''41'' = ''41''" "ToUpper sample_lib ''42'' = ''42''" by code_simp+
  have out: "println_all ls (os_exit c) s = (Exit c, s\<lparr>ssOut := ssOut s @ ls\<rparr>)" for ls c s
    by (induction ls arbitrary: s) (simp_all add: os_exit_def println_def)
  show ?thesis using r unfolding cmdCheck_def parse_flags_def signed_A_args sum.case prod.case
    by (simp add: sflag_def bflag_def iflag_def mget_Cons up seed_list_def
        discover_def trust_B_def [symmetric] check_verdict_def out Let_def)
qed

end
