(* ===== verification/Spec2Isabelle.thy ===== *)
theory Spec2Isabelle
  imports Exchange Disjoint Ledger Honest
begin

text \<open>
  GPG Chain: a public ledger of OpenPGP keys and of the signatures on them, in Go
  (\<open>src/implementations/go\<close>).  This library is a model of the node and of the command line
  client, translated function by function, and of what makes them correct.

  \<^bold>\<open>The program.\<close>  A node keeps a store of blocks, one for each key.  A block carries the key, a
  self-signature, perhaps a revocation, and a chain of signature entries, each linked to the one
  before by its hash.  HTTP handlers add blocks, entries, revocations and peers after checking
  them; what is new is gossiped to some of the peers; goroutines fetch from peers what is missing.
  The client signs payloads, posts them, searches the graph of nodes for keys, computes scores of
  trust over the blocks it was served, and audits a ledger.

  \<^bold>\<open>The theories\<close>, in the order in which they build on each other.
  \<^item> \<open>Prelude\<close>: the Go language and library as used here (byte strings, maps, \<open>int64\<close>, hex,
    decimal numbers, package \<open>strings\<close>).
  \<^item> \<open>Chain\<close>: \<open>internal/chain/block.go\<close>, the records \<open>Block\<close> and \<open>SigEntry\<close> and their hashes.
  \<^item> \<open>Base64\<close>, \<open>Gpg\<close>: \<open>internal/gpg/gpg.go\<close>.  The record \<open>lib\<close> is what is called of code outside
    the repository: SHA-256, the OpenPGP library, URL parsing.  \<open>sample_lib\<close> and the toy
    functions it is made of show that what theorems ask of a \<open>lib\<close> can be had.
  \<^item> \<open>Store\<close>: \<open>internal/store/store.go\<close> and \<open>memory.go\<close>; \<open>Sqlite\<close>: \<open>sqlite.go\<close> with its tables,
    constraints and transactions.
  \<^item> \<open>Trust\<close>, \<open>Distances\<close>, \<open>Flow\<close>, \<open>Disjoint\<close>: \<open>internal/trust/trust.go\<close>, the graph and the score by
    counting paths, the searches from both ends, the maximum flow, the score by disjoint paths.
  \<^item> \<open>Json\<close>, \<open>Document\<close>: \<open>encoding/json\<close> into \<open>any\<close> (nodes) and into structs (client).
  \<^item> \<open>Peers\<close>, \<open>Io\<close>, \<open>P2p\<close>: \<open>internal/p2p/p2p.go\<close>.  \<open>Io\<close> is the language of programs: a tree of
    calls on the shared state, where another goroutine may come in between any two calls.
  \<^item> \<open>Api\<close>: \<open>internal/api/api.go\<close>, one program per handler.
  \<^item> \<open>Flags\<close>: the package \<open>flag\<close>; \<open>Node\<close>: the router, the goroutines a handler starts,
    \<open>cmd/node/main.go\<close>, and \<open>step\<close>/\<open>reach\<close>, the transitions of a running node.
  \<^item> \<open>Discovery\<close>, \<open>Crawl\<close>: \<open>internal/discovery/discovery.go\<close>.
  \<^item> \<open>Client\<close>: \<open>cmd/client/main.go\<close>, all commands, from the command line to the exit code.
  \<^item> \<open>Safety\<close>, \<open>Ledger\<close>, \<open>Handlers\<close>, \<open>Samples\<close>, \<open>Sync\<close>, \<open>Exchange\<close>, \<open>Verify\<close>, \<open>Endorse\<close>, \<open>Trusting\<close>,
    \<open>Together\<close>, \<open>Pair\<close>, \<open>Honest\<close>: lemmas about several components at once.  This theory has those about a whole node.

  \<^bold>\<open>State and steps.\<close>  The state of a node (\<open>'s node\<close>) is its store, its peer list, the events it
  has seen, the clock and what it has sent; \<open>'s\<close> is the state of a store, and a value of the Go
  interface \<open>Store\<close> is a record of operations on it, \<open>memory_ops\<close> or \<open>sqlite_ops\<close>.  \<open>act\<close> makes one
  call of a program and \<open>step\<close> lets any handler or goroutine make one, lets a request arrive, the
  clock go on, or a goroutine start; what the network answers is free at each call.  \<open>run\<close>
  executes one program with nobody in between, for the properties of single requests;
  every run is a sequence of steps (\<open>Samples\<close>).  A command of the client maps a session (the
  requests made so far, the output, the clock readings) to the way it ends; the network is a
  function of all earlier requests, which \<open>Together\<close> instantiates with a node.

  \<^bold>\<open>What is shown.\<close>
  \<^item> \<open>Chain\<close>, \<open>Gpg\<close>: hashes commit to contents, a chain with a given head has one content, the
    three payloads cannot be confused, signing and verifying fit.
  \<^item> \<open>Store\<close>, \<open>Sqlite\<close>: both stores implement a map from keys to blocks (locales
    \<open>store_contract\<close> and \<open>linear_store\<close>, interpreted as \<open>mem\<close> and \<open>sql\<close>); the walk that restores a
    chain from rows ends and inverts storing, when the hashes form no cycle.
  \<^item> \<open>Trust\<close> to \<open>Disjoint\<close>: the scores against their definitions, the number of signature paths and
    the least vertex cut.
  \<^item> \<open>Safety\<close> and this theory: under every interleaving and every behaviour of the network, what
    is stored was verified, nothing is lost and no thread panics.  \<open>safe\<close> is the invariant of a
    program that stands between two calls.  \<open>Ledger\<close>: the node refines \<open>ledger_step\<close>, an abstract
    ledger of accounts, and \<open>db_grow\<close> that no row of the database is lost.  \<open>Handlers\<close>: the same
    handlers alone, error by error.
  \<^item> \<open>Sync\<close>: syncing ends and brings the blocks (locale \<open>keyed_store\<close>, interpreted as \<open>mem_keys\<close>
    and \<open>sql_keys\<close>; it extends \<open>store_preorder\<close> of \<open>Io\<close>, which \<open>grow\<close> interprets; locale
    \<open>reading_store\<close>, interpreted as \<open>mem_reads\<close> and \<open>sql_reads\<close>, for runs that do not hang), and
    \<open>publishes\<close> follows where the blocks come from.  \<open>Exchange\<close>: peers, gossip, and what
    overlapping requests can do to a chain.  \<open>Pair\<close>: two nodes that sync.
  \<^item> \<open>Crawl\<close>: searches are bounded and complete (locale \<open>crawl\<close>, interpreted as \<open>find\<close> and \<open>email\<close>
    on the two loops of the code).
  \<^item> \<open>Verify\<close>, \<open>Endorse\<close>, \<open>Trusting\<close>, \<open>Together\<close>: what the commands decide, sign and record, with the
    node they talk to where that matters.  \<open>Honest\<close>: what a verdict means when that node is honest.

  \<^bold>\<open>Bounds.\<close>  \<open>fetchAndStoreBlock\<close> calls itself through the signers of entries; \<open>n\<close> bounds the depth,
  and \<open>NoFuel\<close> ends a program that goes deeper.  The safety theorems hold for every \<open>n\<close>;
  \<open>sync_terminates\<close> shows that the number of keys on offer which the store lacks is enough.  The
  loops of the maximum flow and of the SQLite walk are partial functions into \<open>option\<close>; that they
  return is part of their theorems.  The walk does not return on a cycle of hashes (\<open>walk_cycle\<close>,
  \<open>hung_read\<close>).  Then a read of the database has no result, a run that makes it is \<open>Hung\<close> and a
  thread that waits for it makes no further step; where a theorem about that store says that
  something returns or goes on, it assumes that the hashes of the entries can be ranked.  The
  searches of the client end because each round
  visits a new node (\<open>pending\<close>).  A Go \<open>int\<close> is unbounded where it counts or measures depth; an
  \<open>int64\<close> has its width.

  \<^bold>\<open>Orders.\<close>  Go ranges over a map in an order of its own, a different one each time.  The model keeps
  a map as a list without repeated keys and ranges over it as it is: \<open>mem_All\<close>, \<open>blockSlice\<close> and
  \<open>find_head\<close>, which decides which branch of a forked chain a read of the database returns.  What is
  said of such results is what holds in any order (which blocks there are, that some branch is
  returned); that two reads of one state agree on the branch holds in the model only.

  \<^bold>\<open>Not modelled.\<close>  The Python implementation and the deployment scripts; the HTTP listener and
  transport, files and directories, failures of the disk and of the SQL driver (parameters, or left
  out); logging and the texts on standard error; the rendering of RFC 3339 times and of quoted
  strings (parameters); bodies in which text follows the JSON value and objects with repeated
  keys; case conversion beyond ASCII.  Pointers to blocks are values, since every store copies
  what it takes and gives.
\<close>

section \<open>Running nodes\<close>

lemma memory_sys_inv:
  assumes "reach memory_ops n L (main_config L f) (\<lambda>_. True) (main_node L f NewMemoryStore now, []) c"
  shows "mem.sys_inv L (main_config L f) c"
proof -
  have "mem.sys_inv L (main_config L f) (main_node L f NewMemoryStore now, [])"
    by (rule mem.sys_inv_init) (simp_all add: mem_inv_def NewMemoryStore_def is_gomap_def mget_def fun_eq_iff)
  from mem.reach_valid [OF assms this] show ?thesis by simp
qed

lemma memory_view:
  assumes "reach memory_ops n L (main_config L f) (\<lambda>_. True) (main_node L f NewMemoryStore now, []) (s, ts)"
    and "mem_Get fp (nStore s) = Inr (Some b)"
  shows "bFingerprint b = fp" "block_valid L (main_config L f) b"
    "e \<in> set (bSigEntries b) \<Longrightarrow> entry_valid L (blocks_of (mget (nStore s))) b e"
    "bRevoked b \<Longrightarrow> revocation_valid L b (bRevocationSig b)"
  using mem.sys_inv_view [OF memory_sys_inv [OF assms(1)], of fp b] assms(2) by (auto simp: memory_ops_def)

lemma key_allowed_main:
  "key_allowed L (main_config L f) uids \<longleftrightarrow>
     fAllowAll f \<or> set (ExtractEmailDomains L uids) \<inter> set (split_flag L (fDomains f)) \<noteq> {}"
  by (auto simp: key_allowed_def main_config_def Let_def domainAllowed_def list_ex_iff)

text \<open>
  C1.  Whatever clients and peers send to a node, whatever its own requests to the network
  are answered, and however handlers and goroutines interleave: every block in the store
  holds a strong key under its own fingerprint that the domain policy of the node allows (any
  key at all when it allows all domains), carries the hash of its contents, and its
  self-signature was verified under that key.  These are the checks that every way into the
  store makes; \<open>POST /block\<close> makes one more, that some user ID has an e-mail domain, which the
  two others leave out.
\<close>

theorem node_blocks_verified:
  assumes "reach memory_ops n L (main_config L f) (\<lambda>_. True) (main_node L f NewMemoryStore now, []) (s, ts)"
    and "mem_Get fp (nStore s) = Inr (Some b)"
  shows "bFingerprint b = fp \<and>
    (\<exists>uids. ParseArmoredKey L (bArmoredKey b) = Inr (fp, uids) \<and>
       (fAllowAll f \<or> set (ExtractEmailDomains L uids) \<inter> set (split_flag L (fDomains f)) \<noteq> {})) \<and>
    CheckKeyStrength L (bArmoredKey b) = None \<and>
    bHash b = ComputeBlockHash (Sum256 L) fp (bArmoredKey b) (bSelfSig b) \<and>
    (\<exists>t. VerifyDetachedSig L t (SubmitPayload L fp (bArmoredKey b) (bSubmitTimestamp b))
       (bSelfSig b) (bArmoredKey b))"
  using memory_view(1,2) [OF assms] by (auto simp: block_valid_def block_hash_ok_def key_allowed_main)

theorem node_blocks_verified_witness:
  "\<exists>t. VerifyDetachedSig sample_lib t (SubmitPayload sample_lib (sample_fp ''A'') ''A'' 0) (sample_self_sig ''A'') ''A''"
  using node_blocks_verified [OF reach_node_A [unfolded node0_def sample_config_def], of "''41''" "sample_key_block ''A''"]
  by (simp add: node_A_def mem_Get_def mget_def sample_fp_A) (simp add: sample_key_block_def make_block_def sample_fp_A)

text \<open>
  C2.  Under every interleaving and every behaviour of the network, each entry in the store
  carries the hash of its contents, and its signature was verified over the trust payload of
  the block it stands on: under the key it carries, or else under the key of the block of
  the signer it names, which is in the store.
\<close>

theorem node_entries_verified:
  assumes "reach memory_ops n L (main_config L f) (\<lambda>_. True) (main_node L f NewMemoryStore now, []) (s, ts)"
    and "mem_Get fp (nStore s) = Inr (Some b)" and "e \<in> set (bSigEntries b)"
  shows "seHash e = ComputeSigEntryHash (Sum256 L) (sePrevHash e) (seSigner e) (seSig e) (seTimestamp e) \<and>
    (\<exists>t key. VerifyDetachedSig L t (TrustPayload (bHash b) (seSigner e) (seTimestamp e)) (seSig e) key \<and>
       (if seSignerKey e \<noteq> [] then key = seSignerKey e
        else \<exists>sb. mem_Get (seSigner e) (nStore s) = Inr (Some sb) \<and> bArmoredKey sb = key))"
proof -
  have "entry_valid L (blocks_of (mget (nStore s))) b e" by (rule memory_view(3) [OF assms])
  moreover have "\<exists>sb. mem_Get (seSigner e) (nStore s) = Inr (Some sb) \<and> bArmoredKey sb = key"
    if "\<exists>sb \<in> blocks_of (mget (nStore s)). bFingerprint sb = seSigner e \<and> bArmoredKey sb = key" for key
    using that by (auto simp: blocks_of_def mem_Get_def)
  ultimately show ?thesis unfolding entry_valid_def entry_hash_ok_def signer_key_def by meson
qed

theorem node_entries_verified_witness:
  "\<exists>t key. VerifyDetachedSig sample_lib t (TrustPayload (bHash (sample_key_block ''A'')) ''42'' 0)
     (sample_sig ''B'' (bHash (sample_key_block ''A'')) ''42'') key"
proof -
  let ?e = "sample_signed (sample_key_block ''A'') ''42'' ''B''"
  obtain ts where r: "reach memory_ops 0 sample_lib (main_config sample_lib sample_flags) (\<lambda>_. True)
      (main_node sample_lib sample_flags NewMemoryStore 0, []) (node_AB ''B'', ts)"
    using reach_node_AB [of "''B''" 0] by (auto simp: node0_def sample_config_def)
  have "mem_Get ''41'' (nStore (node_AB ''B'')) = Inr (Some (with_entry (sample_key_block ''A'') ?e))"
    "?e \<in> set (bSigEntries (with_entry (sample_key_block ''A'') ?e))"
    "bHash (with_entry (sample_key_block ''A'') ?e) = bHash (sample_key_block ''A'')"
    by (simp_all add: node_AB_def Let_def mem_Get_def mget_def with_entry_def)
  from node_entries_verified [OF r this(1,2)] this(3) show ?thesis
    by (auto simp: sample_signed_def Let_def)
qed

text \<open>
  C5.  A block is only ever marked revoked with a revocation signature that was verified
  over its fingerprint and hash under its own key: nobody but the key's owner can revoke it,
  and the signature kept with it proves it.
\<close>

theorem node_revocations_verified:
  assumes "reach memory_ops n L (main_config L f) (\<lambda>_. True) (main_node L f NewMemoryStore now, []) (s, ts)"
    and "mem_Get fp (nStore s) = Inr (Some b)" and "bRevoked b"
  shows "\<exists>t. VerifyDetachedSig L t (RevokePayload fp (bHash b)) (bRevocationSig b) (bArmoredKey b)"
  using memory_view(1,4) [OF assms(1,2)] assms(3) by (auto simp: revocation_valid_def)

theorem node_revocations_verified_witness:
  "\<exists>t. VerifyDetachedSig sample_lib t (RevokePayload ''41'' (bHash (sample_key_block ''A''))) sample_revocation ''A''"
proof -
  obtain ts where r: "reach memory_ops 0 sample_lib (main_config sample_lib sample_flags) (\<lambda>_. True)
      (main_node sample_lib sample_flags NewMemoryStore 0, []) (node_AR, ts)"
    using reach_node_AR [of 0] by (auto simp: node0_def sample_config_def)
  let ?b = "revoked_block (sample_key_block ''A'') sample_revocation"
  have b: "mem_Get ''41'' (nStore node_AR) = Inr (Some ?b)" "bRevoked ?b" "bHash ?b = bHash (sample_key_block ''A'')"
    "bRevocationSig ?b = sample_revocation" "bArmoredKey ?b = ''A''"
    by (simp_all add: node_AR_def mem_Get_def mget_def revoked_block_def) (simp add: sample_key_block_def make_block_def)
  from node_revocations_verified [OF r b(1,2)] b show ?thesis by simp
qed

lemma sqlite_sys_inv:
  assumes "reach sqlite_ops n L (main_config L f) (\<lambda>e. rk (sePrevHash e) < (rk (seHash e) :: nat))
      (main_node L f empty_db now, []) c"
  shows "store_contract.sys_inv (sq_inv rk) sq_ledger sq_stored L (main_config L f) c"
proof -
  have "store_contract.sys_inv (sq_inv rk) sq_ledger sq_stored L (main_config L f) (main_node L f empty_db now, [])"
    by (rule sql.sys_inv_init)
      (simp_all add: sq_inv_def entries_ok_def empty_db_def sq_ledger_def sq_Get_def find_row_def fun_eq_iff)
  from sql.reach_valid [OF assms this] show ?thesis by simp
qed

text \<open>
  C8.  The same for a node on the SQLite store, for runs in which no entry is inserted whose
  hash fails to rank above the hash it points at (a cycle of hashes would make
  \<open>getSigEntries\<close> loop): every read returns, and what it returns was verified.
\<close>

theorem sqlite_node_verified:
  assumes "reach sqlite_ops n L (main_config L f) (\<lambda>e. rk (sePrevHash e) < (rk (seHash e) :: nat))
      (main_node L f empty_db now, []) (s, ts)"
  shows "\<exists>r. sq_Get fp (nStore s) = Some (Inr r) \<and>
    (\<forall>b. r = Some b \<longrightarrow> bFingerprint b = fp \<and> block_valid L (main_config L f) b \<and>
       (\<forall>e \<in> set (bSigEntries b). entry_valid L {sb. sq_Get (bFingerprint sb) (nStore s) = Some (Inr (Some sb))} b e) \<and>
       (bRevoked b \<longrightarrow> revocation_valid L b (bRevocationSig b)))"
proof -
  from sqlite_sys_inv [OF assms]
  have si: "store_contract.sys_inv (sq_inv rk) sq_ledger sq_stored L (main_config L f) (s, ts)" .
  then have inv: "sq_inv rk (nStore s)" by (simp add: sql.sys_inv_def)
  have "blocks_of (sq_ledger (nStore s)) = {sb. sq_Get (bFingerprint sb) (nStore s) = Some (Inr (Some sb))}"
    using sq_Get_row(1) [OF inv] by (auto simp: blocks_of_def)
  with sql.sys_inv_view [OF si, of fp] sq_Get_row(1) [OF inv, of fp] show ?thesis
    by (simp add: sqlite_ops_def)
qed

theorem sqlite_node_verified_witness:
  "\<exists>b. sq_Get ''41'' db_A = Some (Inr (Some b)) \<and> block_valid sample_lib (main_config sample_lib sample_flags) b"
proof -
  obtain s ts where r: "reach sqlite_ops 0 sample_lib (main_config sample_lib sample_flags)
      (\<lambda>e. length (sePrevHash e) < length (seHash e)) (main_node sample_lib sample_flags empty_db 0, []) (s, ts)"
    "nStore s = db_A"
    using reach_db_A [of 0 "\<lambda>e. length (sePrevHash e) < length (seHash e)"]
    by (auto simp: node0_def sample_config_def)
  from sqlite_node_verified [OF r(1), of "''41''"] r(2) db_A_get show ?thesis by auto
qed

text \<open>
  C7.  The ledger only grows: from any state of a node on, whatever is done to it, on the memory
  store no block disappears, no submitted field of a block changes, the entries of a block stay
  as they are and in their place while new ones come after them, and a revoked block stays
  revoked.  On the database no row is lost: every row of \<open>blocks\<close> keeps the columns submitted
  and stays revoked, and the rows of \<open>sig_entries\<close> stay, new ones after them.  (What a read of
  the database shows may still shrink: of a chain that was forked it returns one branch.)
\<close>

theorem node_ledger_append_only:
  assumes "reach memory_ops n L cfg (\<lambda>_. True) c c'" and "mem_Get fp (nStore (fst c)) = Inr (Some b)"
    and "reach sqlite_ops n L cfg (\<lambda>_. True) d d'"
  shows "(\<exists>b' es. mem_Get fp (nStore (fst c')) = Inr (Some b') \<and> bHash b' = bHash b \<and>
      bFingerprint b' = bFingerprint b \<and> bArmoredKey b' = bArmoredKey b \<and> bUIDs b' = bUIDs b \<and>
      bSubmitTimestamp b' = bSubmitTimestamp b \<and> bSelfSig b' = bSelfSig b \<and>
      bSigEntries b' = bSigEntries b @ es \<and> (bRevoked b \<longrightarrow> bRevoked b')) \<and>
    (\<exists>rows. tSigs (nStore (fst d')) = tSigs (nStore (fst d)) @ rows) \<and>
    (\<forall>r \<in> set (tBlocks (nStore (fst d))). \<exists>r' \<in> set (tBlocks (nStore (fst d'))).
      rFingerprint r' = rFingerprint r \<and> rHash r' = rHash r \<and> rArmoredKey r' = rArmoredKey r \<and>
      rUids r' = rUids r \<and> rSubmitTimestamp r' = rSubmitTimestamp r \<and> rSelfSig r' = rSelfSig r \<and>
      (rRevoked r \<noteq> 0 \<longrightarrow> rRevoked r' \<noteq> 0))"
proof (intro conjI ballI)
  show "\<exists>b' es. mem_Get fp (nStore (fst c')) = Inr (Some b') \<and> bHash b' = bHash b \<and>
      bFingerprint b' = bFingerprint b \<and> bArmoredKey b' = bArmoredKey b \<and> bUIDs b' = bUIDs b \<and>
      bSubmitTimestamp b' = bSubmitTimestamp b \<and> bSelfSig b' = bSelfSig b \<and>
      bSigEntries b' = bSigEntries b @ es \<and> (bRevoked b \<longrightarrow> bRevoked b')"
    using mem_growsD [OF grow.reach_rel [OF assms(1)]] assms(2) by (force simp: mem_Get_def)
  from db_grow.reach_rel [OF assms(3)] obtain bs new where
    rows: "\<exists>rows. tSigs (nStore (fst d')) = tSigs (nStore (fst d)) @ rows"
    and bs: "tBlocks (nStore (fst d')) = bs @ new" "list_all2 row_grows (tBlocks (nStore (fst d))) bs"
    unfolding db_grows_def by blast
  show "\<exists>rows. tSigs (nStore (fst d')) = tSigs (nStore (fst d)) @ rows" by (rule rows)
  fix r assume "r \<in> set (tBlocks (nStore (fst d)))"
  with bs(2) obtain r' where "r' \<in> set bs" "row_grows r r'"
    by (metis in_set_conv_nth list_all2_conv_all_nth)
  with bs(1) show "\<exists>r' \<in> set (tBlocks (nStore (fst d'))).
      rFingerprint r' = rFingerprint r \<and> rHash r' = rHash r \<and> rArmoredKey r' = rArmoredKey r \<and>
      rUids r' = rUids r \<and> rSubmitTimestamp r' = rSubmitTimestamp r \<and> rSelfSig r' = rSelfSig r \<and>
      (rRevoked r \<noteq> 0 \<longrightarrow> rRevoked r' \<noteq> 0)" unfolding row_grows_def by (intro bexI [of _ r']) auto
qed

theorem node_ledger_append_only_witness:
  "\<exists>b' es. mem_Get ''41'' (nStore (node_AB ''B'')) = Inr (Some b') \<and> bHash b' = bHash (sample_key_block ''A'') \<and>
     bSigEntries b' = bSigEntries (sample_key_block ''A'') @ es"
proof -
  note later = run_serve_reach [OF run_sign_A [of "''B''" 0] shuffles_sample reach_refl all_ok_True]
  have "mem_Get ''41'' (nStore (fst (node_A, []))) = Inr (Some (sample_key_block ''A''))"
    by (simp add: node_A_def mem_Get_def mget_def)
  moreover obtain s ts where "reach sqlite_ops 0 sample_lib sample_config (\<lambda>_. True) (node0 empty_db, []) (s, ts)"
    using reach_db_A by blast
  ultimately show ?thesis
    using node_ledger_append_only [OF later, where fp = "''41''" and b = "sample_key_block ''A''"
        and d = "(node0 empty_db, [])" and d' = "(s, ts)"] by auto
qed

text \<open>
  C9.  No handler and no goroutine of a node ever gets stuck: in every reachable state, on
  either store, each thread has finished or can make its next call, so none has panicked.
\<close>

theorem node_never_panics:
  assumes "reach memory_ops n L (main_config L f) (\<lambda>_. True) (main_node L f NewMemoryStore now, []) (s, ts)"
    and "reach sqlite_ops n L (main_config L f) (\<lambda>e. rk (sePrevHash e) < (rk (seHash e) :: nat))
      (main_node L f empty_db now, []) (s', us)"
  shows "list_all (proceeds memory_ops s) ts \<and> list_all (proceeds sqlite_ops s') us"
  using mem.sys_inv_proceeds [OF memory_sys_inv [OF assms(1)]] sql.sys_inv_proceeds [OF sqlite_sys_inv [OF assms(2)]]
  by blast

theorem node_never_panics_witness:
  "proceeds memory_ops node_A
     (Handler (serve 0 sample_lib sample_config ''POST'' ''/block/41/revoke'' revoke_request))"
proof -
  let ?p = "serve 0 sample_lib sample_config ''POST'' ''/block/41/revoke'' revoke_request"
  have m: "reach memory_ops 0 sample_lib (main_config sample_lib sample_flags) (\<lambda>_. True)
      (main_node sample_lib sample_flags NewMemoryStore 0, [])
      (node_A, [Handler (Ret (Response 201 (blockToMap (sample_key_block ''A'')))), Handler ?p])"
    using reach_step [OF reach_node_A step.request] by (simp add: node0_def sample_config_def)
  have "reach sqlite_ops 0 sample_lib (main_config sample_lib sample_flags)
      (\<lambda>e. length (sePrevHash e) < length (seHash e)) (main_node sample_lib sample_flags empty_db 0, [])
      (main_node sample_lib sample_flags empty_db 0, [])" by (rule reach_refl)
  from node_never_panics [OF m this] show ?thesis by simp
qed

section \<open>A node as a ledger\<close>

definition mem_accounts :: "MemoryStore \<Rightarrow> accounts" where
  "mem_accounts m = accounts_of (mget m) (mem_stored m)"

definition sq_accounts :: "sqlite \<Rightarrow> accounts" where
  "sq_accounts db = accounts_of (sq_ledger db) (sq_stored db)"

text \<open>
  C6.  A node on either store implements the ledger: under every interleaving of requests and
  goroutines and every behaviour of the network, the accounts start out empty and go from any
  reachable state to any later one by opening accounts, recording entries and revoking, each
  time with a signature that verifies at that moment.
\<close>

theorem node_refines_ledger:
  assumes "reach memory_ops n L (main_config L f) (\<lambda>_. True) (main_node L f NewMemoryStore now, []) c"
    and "reach memory_ops n L (main_config L f) (\<lambda>_. True) c c'"
    and "reach sqlite_ops n L (main_config L f) (\<lambda>e. rk (sePrevHash e) < (rk (seHash e) :: nat))
      (main_node L f empty_db now, []) d"
    and "reach sqlite_ops n L (main_config L f) (\<lambda>e. rk (sePrevHash e) < rk (seHash e)) d d'"
  shows "(ledger_step L (main_config L f))\<^sup>*\<^sup>* Map.empty (mem_accounts (nStore (fst c))) \<and>
    (ledger_step L (main_config L f))\<^sup>*\<^sup>* (mem_accounts (nStore (fst c))) (mem_accounts (nStore (fst c'))) \<and>
    (ledger_step L (main_config L f))\<^sup>*\<^sup>* Map.empty (sq_accounts (nStore (fst d))) \<and>
    (ledger_step L (main_config L f))\<^sup>*\<^sup>* (sq_accounts (nStore (fst d))) (sq_accounts (nStore (fst d')))"
proof -
  have "mem_accounts (nStore (main_node L f NewMemoryStore now)) = Map.empty"
    "sq_accounts (nStore (main_node L f empty_db now)) = Map.empty"
    by (simp_all add: mem_accounts_def sq_accounts_def fun_eq_iff NewMemoryStore_def mget_def empty_db_def
        sq_ledger_def sq_Get_def find_row_def)
  with mem.reach_accounts [OF assms(1) memory_sys_inv [OF reach_refl]]
    mem.reach_accounts [OF assms(2) memory_sys_inv [OF assms(1)]]
    sql.reach_accounts [OF assms(3) sqlite_sys_inv [OF reach_refl]]
    sql.reach_accounts [OF assms(4) sqlite_sys_inv [OF assms(3)]]
  show ?thesis by (simp add: mem_accounts_def sq_accounts_def)
qed

theorem node_refines_ledger_witness:
  "(ledger_step sample_lib sample_config)\<^sup>*\<^sup>* (mem_accounts (nStore node_A)) (mem_accounts (nStore (node_AB ''B'')))"
proof -
  note start = reach_node_A [of 0, unfolded node0_def sample_config_def]
  note later = run_serve_reach [OF run_sign_A [of "''B''" 0] shuffles_sample reach_refl all_ok_True, unfolded sample_config_def]
  have db: "reach sqlite_ops 0 sample_lib (main_config sample_lib sample_flags)
      (\<lambda>e. length (sePrevHash e) < length (seHash e)) (main_node sample_lib sample_flags empty_db 0, [])
      (main_node sample_lib sample_flags empty_db 0, [])" by (rule reach_refl)
  from node_refines_ledger [OF start later db reach_refl] show ?thesis by (simp add: sample_config_def)
qed

section \<open>A client of a node\<close>

text \<open>
  C28.  What TRUSTED means when an honest node answers.  When nothing but a node on the memory
  store answers \<open>gpgchain check\<close> (without \<open>-disjoint\<close>, for another key than the caller's and a
  threshold of at least 1) and the command exits with 0, there is a chain of different keys, no
  longer than the depth allows, from the target to the caller's key, in which an entry by the
  next key stands on the unrevoked block of each, and its signature over the hash of that block
  was verified under the key it brings or, without one, the key of the next block.
\<close>

theorem trusted_by_node_is_signed:
  assumes "reach memory_ops n L (main_config L f) (\<lambda>_. True) (main_node L f NewMemoryStore now, []) (nd, ts)"
    and "ceNet E = node_net v nd" and "ssHist s = []" and "\<forall>b \<in> set (map snd (nStore nd)). utf8_block b"
    and "Parse [(''fingerprint'', VString []), keyid_flag E, (''max-depth'', VInt 2), (''threshold'', VInt 1),
      (''disjoint'', VBool False), server_flag E, (''seeds'', VString [])] args = Inr (fs, rest)"
    and "\<not> bflag fs ''disjoint''" and "ascii (sflag fs ''fingerprint'')" and "ascii (sflag fs ''keyid'')"
    and "1 \<le> iflag fs ''threshold''" and "ToUpper L (sflag fs ''keyid'') \<noteq> ToUpper L (sflag fs ''fingerprint'')"
    and "cmdCheck L E args s = (Exit 0, s')"
  shows "\<exists>p. p \<noteq> [] \<and> hd p = ToUpper L (sflag fs ''fingerprint'') \<and> last p = ToUpper L (sflag fs ''keyid'') \<and>
    distinct p \<and> int (length p) \<le> iflag fs ''max-depth'' + 1 \<and> verified_chain L (nStore nd) p"
proof -
  from check_node [OF assms(5-8,11,2,3,4)] obtain bs where bs: "set bs \<subseteq> set (map snd (nStore nd))"
    "1 \<le> Score (Build bs) (ToUpper L (sflag fs ''fingerprint'')) (ToUpper L (sflag fs ''keyid'')) (iflag fs ''max-depth'')"
    using assms(9) by force
  from score_path [OF bs(2) assms(10)] obtain p where p: "p \<noteq> []" "hd p = ToUpper L (sflag fs ''fingerprint'')"
    "last p = ToUpper L (sflag fs ''keyid'')" "distinct p" "int (length p) \<le> iflag fs ''max-depth'' + 1"
    "sig_path (Build bs) p" by blast
  have "mem_inv (nStore nd)" using memory_sys_inv [OF assms(1)] by (simp add: mem.sys_inv_def)
  moreover have "entry_valid L (blocks_of (mget (nStore nd))) b e"
    if "mget (nStore nd) fp = Some b" "e \<in> set (bSigEntries b)" for fp b e
    using memory_view(3) [OF assms(1), of fp b e] that by (simp add: mem_Get_def)
  ultimately have "verified_chain L (nStore nd) p" using verified_path [OF _ bs(1) _ p(6)] by blast
  with p show ?thesis by blast
qed

theorem trusted_by_node_is_signed_witness:
  "\<exists>p. p \<noteq> [] \<and> hd p = ''41'' \<and> last p = ''42'' \<and> verified_chain sample_lib (nStore (node_AB ''B'')) p"
proof -
  obtain ts where r: "reach memory_ops 0 sample_lib (main_config sample_lib sample_flags) (\<lambda>_. True)
      (main_node sample_lib sample_flags NewMemoryStore 0, []) (node_AB ''B'', ts)"
    using reach_node_AB [of "''B''" 0] by (auto simp: node0_def sample_config_def)
  obtain s' where c: "cmdCheck sample_lib (client_of (node_net sample_server (node_AB ''B'')))
      [''--fingerprint'', ''41'', ''--keyid'', ''42''] session0 = (Exit 0, s')" using signed_A_check by blast
  have up: "ToUpper sample_lib ''41'' = ''41''" "ToUpper sample_lib ''42'' = ''42''" by code_simp+
  have ascii: "ascii ''41''" "ascii ''42''" by (simp_all add: ascii_def byte_def)
  have utf8: "\<forall>b \<in> set (map snd (nStore (node_AB ''B''))). utf8_block b"
    using utf8_signed_A by (simp add: signed_A_simps)
  show ?thesis
    using trusted_by_node_is_signed [OF r client_of_simps(1,4) utf8 signed_A_args _ _ _ _ _ c] up ascii
    by (force simp: sflag_def bflag_def iflag_def mget_Cons)
qed

section \<open>Requests served one at a time\<close>

text \<open>
  C3.  As long as a node does one thing at a time, serving a request or running a goroutine to
  its end, and neither serves \<open>POST /p2p/sign\<close> nor runs the goroutine that syncs with a peer,
  every block on either store keeps a well-formed signature chain: its hash is that of its
  contents, each entry carries its own hash and points at its predecessor (the first one at the
  block), the head is the last entry, and nobody signed twice.  (Those two take the link of an
  entry from the network as it comes; overlapping sign requests fork a chain, too.)
\<close>

theorem requests_keep_chains:
  assumes "hashes (Sum256 L)" and "list_all lone as"
  shows "(mem_Get fp (nStore (perform_all memory_ops n L cfg as (main_node L f NewMemoryStore now))) = Inr (Some b) \<longrightarrow>
      block_ok (Sum256 L) b \<and> distinct (map seSigner (bSigEntries b))) \<and>
    ((\<forall>fp e origin. GossipSigT fp e origin \<in>
          set (nGos (perform_all sqlite_ops n L cfg as (main_node L f empty_db now))) \<longrightarrow>
        rk (sePrevHash e) < (rk (seHash e) :: nat)) \<longrightarrow>
      sq_Get fp (nStore (perform_all sqlite_ops n L cfg as (main_node L f empty_db now))) = Some (Inr (Some b)) \<longrightarrow>
      block_ok (Sum256 L) b \<and> distinct (map seSigner (bSigEntries b)))"
proof (intro conjI impI)
  let ?s = "main_node L f NewMemoryStore now"
  have "mem.chains_ok (Sum256 L) (nStore ?s)"
    by (simp add: mem.chains_ok_def mem_inv_def NewMemoryStore_def is_gomap_def mem_linear_def mget_def)
  from mem.chains_perform_all [OF this assms] have ok: "mem.chains_ok (Sum256 L) (nStore (perform_all memory_ops n L cfg as ?s))"
    by blast
  assume "mem_Get fp (nStore (perform_all memory_ops n L cfg as ?s)) = Inr (Some b)"
  with ok show "block_ok (Sum256 L) b" "distinct (map seSigner (bSigEntries b))"
    by (auto simp: mem.chains_ok_def mem_Get_def signers_distinct_def)
next
  let ?s = "main_node L f empty_db now"
  assume rank: "\<forall>fp e origin. GossipSigT fp e origin \<in> set (nGos (perform_all sqlite_ops n L cfg as ?s)) \<longrightarrow>
      rk (sePrevHash e) < rk (seHash e)"
  have "linear_store.chains_ok (sq_inv rk) sq_ledger sq_linear (Sum256 L) (nStore ?s)"
    by (simp add: sql.chains_ok_def sq_inv_def entries_ok_def empty_db_def sq_linear_def find_row_def
        sq_ledger_def sq_Get_def)
  from sql.chains_perform_all [OF this assms rank] have ok:
    "linear_store.chains_ok (sq_inv rk) sq_ledger sq_linear (Sum256 L) (nStore (perform_all sqlite_ops n L cfg as ?s))" .
  assume "sq_Get fp (nStore (perform_all sqlite_ops n L cfg as ?s)) = Some (Inr (Some b))"
  then have "sq_ledger (nStore (perform_all sqlite_ops n L cfg as ?s)) fp = Some b" by (simp add: sq_ledger_def)
  with ok show "block_ok (Sum256 L) b" "distinct (map seSigner (bSigEntries b))"
    unfolding sql.chains_ok_def signers_distinct_def by blast+
qed

theorem requests_keep_chains_witness:
  "block_ok (Sum256 sample_lib) (with_entry (sample_key_block ''A'') (sample_signed (sample_key_block ''A'') ''42'' ''B''))"
proof -
  let ?as = "[Request sample_world ''POST'' ''/block'' (add_request ''A''),
    Request sample_world ''POST'' ''/block/41/sign'' (sign_request ''42'' ''B'' (bHash (sample_key_block ''A''))),
    Background sample_world (FetchMetaT ''http://p'')]"
  have "hashes (Sum256 sample_lib)" by (simp add: hashes_def sample_lib_def)
  moreover have "list_all lone ?as" by (simp add: is_p2p_sign_def)
  moreover have "perform_all memory_ops 0 sample_lib sample_config ?as (main_node sample_lib sample_flags NewMemoryStore 0) =
      node_AB ''B''"
    using run_add_A [of 0] run_sign_A [of "''B''" 0] by (simp add: node0_def FetchMeta_def sample_world_def)
  moreover have "mem_Get ''41'' (nStore (node_AB ''B'')) =
      Inr (Some (with_entry (sample_key_block ''A'') (sample_signed (sample_key_block ''A'') ''42'' ''B'')))"
    by (simp add: node_AB_def Let_def mem_Get_def mget_def)
  ultimately show ?thesis
    using requests_keep_chains [of sample_lib ?as "''41''" 0 sample_config sample_flags 0] by metis
qed

text \<open>
  C14.  On every route but \<open>POST /p2p/sign\<close> an error leaves no trace: a request that is answered
  with a status of 400 or more leaves the store, the peers, the seen set and the goroutines
  exactly as they were.  \<open>POST /p2p/sign\<close> is different: it fetches the block of an unknown signer
  from the peers and stores it before it checks the signature, and stores it also when it then
  answers 400 (\<open>refused_signature_stores_block\<close> in \<open>Sync\<close>).
\<close>

theorem errors_change_nothing:
  assumes "\<not> is_p2p_sign mth path" and "400 \<le> rsStatus resp"
  shows "(run memory_ops w (serve n L cfg mth path r) s = (Done resp, s') \<longrightarrow> s' = s) \<and>
    (run sqlite_ops w (serve n L cfg mth path r) t = (Done resp, t') \<longrightarrow> t' = t)"
proof -
  have "atomic_ops sqlite_ops" by (auto simp: atomic_ops_def sqlite_ops_def sq_Add_def)
  then show ?thesis
    by (intro conjI impI) (erule serve_error [OF _ assms], simp)+
qed

theorem errors_change_nothing_witness:
  "snd (run memory_ops sample_world (serve 0 sample_lib sample_config ''POST'' ''/block''
     \<lparr>rqBody = None, rqQ = [], rqForwardedFor = []\<rparr>) node_A) = node_A"
proof -
  have "\<exists>b s'. run memory_ops sample_world (serve 0 sample_lib sample_config ''POST'' ''/block''
      \<lparr>rqBody = None, rqQ = [], rqForwardedFor = []\<rparr>) node_A = (Done (Response 400 b), s')"
    by (simp add: serve_add_block handleAddBlock_def)
  moreover have "\<not> is_p2p_sign ''POST'' ''/block''" by (simp add: is_p2p_sign_def)
  ultimately show ?thesis
    using errors_change_nothing [of "''POST''" "''/block''" "Response 400 b" for b] by fastforce
qed

end
